theory Spec2Isabelle
  imports Main "HOL-Library.Code_Target_Nat"
begin

section \<open>Memory, element objects and failure\<close>

text \<open>
  The container of \<^verbatim>\<open>vector.h\<close> separates raw storage (\<^verbatim>\<open>RawMemory<T>\<close>) from the
  lifetime of the elements (\<^verbatim>\<open>Vector<T>\<close>).  The embedding keeps that separation.

  \<^item> A block of raw storage is a list of slots; a slot is either uninitialised memory or
    holds a live object of the element type.
  \<^item> The heap maps block numbers to blocks.  A pointer \<^verbatim>\<open>T*\<close> is a base (a block number,
    or nothing for \<^verbatim>\<open>nullptr\<close>) and an offset.
  \<^item> \<^verbatim>\<open>Vector\<close> objects live in an object store indexed by their address, so that
    \<^verbatim>\<open>this != &rhs\<close> is a comparison of addresses.
  \<^item> Every element operation (construction, assignment, destruction) is recorded in a
    trace, in the order in which it happens.
  \<^item> An element operation may throw.  Whether it does is decided by the element type,
    which may consult and update a state of its own (the \<open>world\<close>; a fault-injecting
    test type keeps its countdown there).
  \<^item> The members \<^verbatim>\<open>size_\<close> and \<^verbatim>\<open>capacity_\<close> are natural numbers; \<^verbatim>\<open>size_ * 2\<close> would
    wrap only on a vector of \<open>2^63\<close> elements.  The byte count \<^verbatim>\<open>n * sizeof(T)\<close> that
    \<^verbatim>\<open>Allocate\<close> passes to \<^verbatim>\<open>operator new\<close> is computed in \<^verbatim>\<open>size_t\<close>, modulo \<open>2^64\<close>.
  \<^item> \<^verbatim>\<open>operator new\<close> may throw \<^verbatim>\<open>std::bad_alloc\<close>.  The state carries the largest
    request it grants (\<open>store_limit\<close>); a larger request throws.
\<close>

datatype 'a slot = Raw | Live 'a

type_synonym ptr = "nat option \<times> nat"

datatype 'a operand = At ptr | Val 'a

datatype target = Into ptr | Local

datatype 'a event =
    Allocated nat nat
  | Deallocated nat
  | ValueCtor target
  | CopyCtor "'a operand" target
  | MoveCtor "'a operand" target
  | CopyAssign "'a operand" ptr
  | MoveAssign "'a operand" ptr
  | Dtor target

text \<open>
  How a call can end other than by returning: with an exception thrown by an operation
  of the element type, with \<^verbatim>\<open>std::bad_alloc\<close> thrown by \<^verbatim>\<open>operator new\<close>, or in undefined
  behaviour.
\<close>

datatype error = ElementThrew | BadAlloc | Undefined

text \<open>
  The element type \<^verbatim>\<open>T\<close>: \<^verbatim>\<open>sizeof(T)\<close>, its two traits used by \<^verbatim>\<open>CopyOrMove\<close>, and
  its special member functions.  Each member function that may throw maps the world to a flag (\<open>True\<close>: it
  completed) and the next world.  A copy gives the destination the value of the source;
  a move does the same and leaves \<open>moved_from v\<close> in the source.  An operation that
  throws leaves its operands as they were.
\<close>

record ('a, 'w) elem_type =
  size_of :: nat
  nothrow_move_constructible :: bool
  copy_constructible :: bool
  default_value :: 'a
  moved_from :: "'a \<Rightarrow> 'a"
  value_ctor :: "'w \<Rightarrow> bool \<times> 'w"
  copy_ctor :: "'a \<Rightarrow> 'w \<Rightarrow> bool \<times> 'w"
  move_ctor :: "'a \<Rightarrow> 'w \<Rightarrow> bool \<times> 'w"
  copy_asgn :: "'a \<Rightarrow> 'a \<Rightarrow> 'w \<Rightarrow> bool \<times> 'w"
  move_asgn :: "'a \<Rightarrow> 'a \<Rightarrow> 'w \<Rightarrow> bool \<times> 'w"
  dtor :: "'a \<Rightarrow> 'w \<Rightarrow> 'w"

record raw_memory =
  rm_buffer :: "nat option"
  rm_capacity :: nat

record vector =
  v_data :: raw_memory
  v_size :: nat

record ('a, 'w) state =
  heap :: "nat \<Rightarrow> 'a slot list option"
  next_block :: nat
  store_limit :: nat
  vecs :: "nat \<Rightarrow> vector option"
  world :: 'w
  trace :: "'a event list"

type_synonym ('a, 'w, 'r) prog = "('a, 'w) state \<Rightarrow> (error + 'r) \<times> ('a, 'w) state"

subsection \<open>Sequencing, throwing and catching\<close>

definition returnE :: "'r \<Rightarrow> 's \<Rightarrow> (error + 'r) \<times> 's" where
  "returnE x s = (Inr x, s)"

definition throwE :: "error \<Rightarrow> 's \<Rightarrow> (error + 'r) \<times> 's" where
  "throwE e s = (Inl e, s)"

definition bindE ::
  "('s \<Rightarrow> (error + 'r) \<times> 's) \<Rightarrow> ('r \<Rightarrow> 's \<Rightarrow> (error + 'q) \<times> 's) \<Rightarrow> 's \<Rightarrow> (error + 'q) \<times> 's"
where
  "bindE m f s = (case m s of (Inl e, s') \<Rightarrow> (Inl e, s') | (Inr x, s') \<Rightarrow> f x s')"

text \<open>
  \<^verbatim>\<open>try { m } catch (...) { h }\<close>: every C++ exception is caught, undefined behaviour is
  not.  The handler is given the exception, so that \<^verbatim>\<open>throw;\<close> can rethrow it.
\<close>

definition catchE ::
  "('s \<Rightarrow> (error + 'r) \<times> 's) \<Rightarrow> (error \<Rightarrow> 's \<Rightarrow> (error + 'r) \<times> 's) \<Rightarrow>
   's \<Rightarrow> (error + 'r) \<times> 's"
where
  "catchE m h s =
     (case m s of
        (Inr x, s') \<Rightarrow> (Inr x, s')
      | (Inl e, s') \<Rightarrow> if e = Undefined then (Inl Undefined, s') else h e s')"

text \<open>Stack unwinding: when \<open>m\<close> throws, run the destructor \<open>d\<close> of a local and rethrow.\<close>

definition on_unwind ::
  "('s \<Rightarrow> (error + 'r) \<times> 's) \<Rightarrow> ('s \<Rightarrow> (error + unit) \<times> 's) \<Rightarrow> 's \<Rightarrow> (error + 'r) \<times> 's"
where
  "on_unwind m d = catchE m (\<lambda>e. bindE d (\<lambda>_. throwE e))"

subsection \<open>Primitive steps\<close>

definition emit :: "'a event \<Rightarrow> ('a, 'w, unit) prog" where
  "emit e s = (Inr (), s\<lparr>trace := trace s @ [e]\<rparr>)"

definition attempt :: "('w \<Rightarrow> bool \<times> 'w) \<Rightarrow> ('a, 'w, unit) prog" where
  "attempt f s =
     (if fst (f (world s)) then (Inr (), s\<lparr>world := snd (f (world s))\<rparr>)
      else (Inl ElementThrew, s\<lparr>world := snd (f (world s))\<rparr>))"

definition effect :: "('w \<Rightarrow> 'w) \<Rightarrow> ('a, 'w, unit) prog" where
  "effect f s = (Inr (), s\<lparr>world := f (world s)\<rparr>)"

text \<open>Reading an object through a pointer: the slot must exist and hold a live object.\<close>

definition load :: "ptr \<Rightarrow> ('a, 'w, 'a) prog" where
  "load p s =
     (case fst p of
        None \<Rightarrow> (Inl Undefined, s)
      | Some b \<Rightarrow>
          (case heap s b of
             None \<Rightarrow> (Inl Undefined, s)
           | Some blk \<Rightarrow>
               if snd p < length blk
               then (case blk ! snd p of Raw \<Rightarrow> (Inl Undefined, s) | Live v \<Rightarrow> (Inr v, s))
               else (Inl Undefined, s)))"

text \<open>Writing a slot: the slot must exist.\<close>

definition place :: "ptr \<Rightarrow> 'a slot \<Rightarrow> ('a, 'w, unit) prog" where
  "place p x s =
     (case fst p of
        None \<Rightarrow> (Inl Undefined, s)
      | Some b \<Rightarrow>
          (case heap s b of
             None \<Rightarrow> (Inl Undefined, s)
           | Some blk \<Rightarrow>
               if snd p < length blk
               then (Inr (), s\<lparr>heap := (heap s)(b \<mapsto> blk[snd p := x])\<rparr>)
               else (Inl Undefined, s)))"

fun fetch :: "'a operand \<Rightarrow> ('a, 'w, 'a) prog" where
  "fetch (At p) = load p"
| "fetch (Val v) = returnE v"

fun settle :: "target \<Rightarrow> 'a \<Rightarrow> ('a, 'w, unit) prog" where
  "settle (Into p) v = place p (Live v)"
| "settle Local v = returnE ()"

fun abandon :: "('a, 'w) elem_type \<Rightarrow> 'a operand \<Rightarrow> 'a \<Rightarrow> ('a, 'w, unit) prog" where
  "abandon T (At p) v = place p (Live (moved_from T v))"
| "abandon T (Val u) v = returnE ()"

subsection \<open>Operations on one element\<close>

text \<open>\<^verbatim>\<open>new (tgt) T()\<close>\<close>

definition value_construct :: "('a, 'w) elem_type \<Rightarrow> target \<Rightarrow> ('a, 'w, 'a) prog" where
  "value_construct T tgt =
     bindE (attempt (value_ctor T)) (\<lambda>_.
     bindE (settle tgt (default_value T)) (\<lambda>_.
     bindE (emit (ValueCtor tgt)) (\<lambda>_.
     returnE (default_value T))))"

text \<open>\<^verbatim>\<open>new (tgt) T(src)\<close>\<close>

definition copy_construct ::
  "('a, 'w) elem_type \<Rightarrow> target \<Rightarrow> 'a operand \<Rightarrow> ('a, 'w, 'a) prog" where
  "copy_construct T tgt src =
     bindE (fetch src) (\<lambda>v.
     bindE (attempt (copy_ctor T v)) (\<lambda>_.
     bindE (settle tgt v) (\<lambda>_.
     bindE (emit (CopyCtor src tgt)) (\<lambda>_.
     returnE v))))"

text \<open>\<^verbatim>\<open>new (tgt) T(std::move(src))\<close>\<close>

definition move_construct ::
  "('a, 'w) elem_type \<Rightarrow> target \<Rightarrow> 'a operand \<Rightarrow> ('a, 'w, 'a) prog" where
  "move_construct T tgt src =
     bindE (fetch src) (\<lambda>v.
     bindE (attempt (move_ctor T v)) (\<lambda>_.
     bindE (settle tgt v) (\<lambda>_.
     bindE (abandon T src v) (\<lambda>_.
     bindE (emit (MoveCtor src tgt)) (\<lambda>_.
     returnE v)))))"

text \<open>\<^verbatim>\<open>*dst = src\<close>\<close>

definition copy_assign ::
  "('a, 'w) elem_type \<Rightarrow> ptr \<Rightarrow> 'a operand \<Rightarrow> ('a, 'w, unit) prog" where
  "copy_assign T dst src =
     bindE (fetch src) (\<lambda>v.
     bindE (load dst) (\<lambda>old.
     bindE (attempt (copy_asgn T old v)) (\<lambda>_.
     bindE (place dst (Live v)) (\<lambda>_.
     emit (CopyAssign src dst)))))"

text \<open>\<^verbatim>\<open>*dst = std::move(src)\<close>\<close>

definition move_assign ::
  "('a, 'w) elem_type \<Rightarrow> ptr \<Rightarrow> 'a operand \<Rightarrow> ('a, 'w, unit) prog" where
  "move_assign T dst src =
     bindE (fetch src) (\<lambda>v.
     bindE (load dst) (\<lambda>old.
     bindE (attempt (move_asgn T old v)) (\<lambda>_.
     bindE (place dst (Live v)) (\<lambda>_.
     bindE (abandon T src v) (\<lambda>_.
     emit (MoveAssign src dst))))))"

text \<open>\<^verbatim>\<open>p->~T()\<close>; destructors do not throw.\<close>

definition destroy_at :: "('a, 'w) elem_type \<Rightarrow> ptr \<Rightarrow> ('a, 'w, unit) prog" where
  "destroy_at T p =
     bindE (load p) (\<lambda>v.
     bindE (place p Raw) (\<lambda>_.
     bindE (effect (dtor T v)) (\<lambda>_.
     emit (Dtor (Into p)))))"

text \<open>The destructor of a local object (the temporary of \<^verbatim>\<open>Emplace\<close>).\<close>

definition destroy_local :: "('a, 'w) elem_type \<Rightarrow> 'a \<Rightarrow> ('a, 'w, unit) prog" where
  "destroy_local T v = bindE (effect (dtor T v)) (\<lambda>_. emit (Dtor Local))"

text \<open>
  The arguments of \<^verbatim>\<open>EmplaceBack\<close> and \<^verbatim>\<open>Emplace\<close>, as \<^verbatim>\<open>PushBack\<close> and \<^verbatim>\<open>Insert\<close>
  instantiate them: a \<^verbatim>\<open>const T&\<close> (the element is copy-constructed from it) or a
  \<^verbatim>\<open>T&&\<close> (move-constructed).  The object referred to may be one of the vector's own
  elements (\<open>At p\<close>) or an object elsewhere with the given value (\<open>Val v\<close>).
\<close>

datatype 'a arg = Copying "'a operand" | Moving "'a operand"

fun construct :: "('a, 'w) elem_type \<Rightarrow> target \<Rightarrow> 'a arg \<Rightarrow> ('a, 'w, 'a) prog" where
  "construct T tgt (Copying src) = copy_construct T tgt src"
| "construct T tgt (Moving src) = move_construct T tgt src"

subsection \<open>The algorithms of \<^verbatim>\<open><memory>\<close> and \<^verbatim>\<open><algorithm>\<close> that the vector calls\<close>

definition ptr_add :: "ptr \<Rightarrow> nat \<Rightarrow> ptr" where
  "ptr_add p k = (fst p, snd p + k)"

text \<open>\<^verbatim>\<open>std::destroy_n(p, n)\<close>\<close>

fun destroy_n :: "('a, 'w) elem_type \<Rightarrow> ptr \<Rightarrow> nat \<Rightarrow> ('a, 'w, unit) prog" where
  "destroy_n T p 0 = returnE ()"
| "destroy_n T p (Suc n) = bindE (destroy_at T p) (\<lambda>_. destroy_n T (ptr_add p 1) n)"

text \<open>
  The three \<^verbatim>\<open>std::uninitialized_..._n\<close> algorithms share their shape: construct the
  objects one after another; when a construction throws, destroy the objects constructed
  so far (\<open>k\<close> of them, from \<open>d_first\<close>) and rethrow.
\<close>

fun uninitialized_n ::
  "('a, 'w) elem_type \<Rightarrow> (nat \<Rightarrow> ('a, 'w, 'a) prog) \<Rightarrow> ptr \<Rightarrow> nat \<Rightarrow> nat \<Rightarrow> ('a, 'w, unit) prog"
where
  "uninitialized_n T step d_first k 0 = returnE ()"
| "uninitialized_n T step d_first k (Suc m) =
     bindE (catchE (step k) (\<lambda>e. bindE (destroy_n T d_first k) (\<lambda>_. throwE e))) (\<lambda>_.
     uninitialized_n T step d_first (Suc k) m)"

definition uninitialized_value_construct_n ::
  "('a, 'w) elem_type \<Rightarrow> ptr \<Rightarrow> nat \<Rightarrow> ('a, 'w, unit) prog" where
  "uninitialized_value_construct_n T first n =
     uninitialized_n T (\<lambda>k. value_construct T (Into (ptr_add first k))) first 0 n"

definition uninitialized_copy_n ::
  "('a, 'w) elem_type \<Rightarrow> ptr \<Rightarrow> nat \<Rightarrow> ptr \<Rightarrow> ('a, 'w, unit) prog" where
  "uninitialized_copy_n T first n d_first =
     uninitialized_n T (\<lambda>k. copy_construct T (Into (ptr_add d_first k)) (At (ptr_add first k)))
       d_first 0 n"

definition uninitialized_move_n ::
  "('a, 'w) elem_type \<Rightarrow> ptr \<Rightarrow> nat \<Rightarrow> ptr \<Rightarrow> ('a, 'w, unit) prog" where
  "uninitialized_move_n T first n d_first =
     uninitialized_n T (\<lambda>k. move_construct T (Into (ptr_add d_first k)) (At (ptr_add first k)))
       d_first 0 n"

text \<open>
  \<^verbatim>\<open>std::move_backward(first, last, d_last)\<close>:
  \<^verbatim>\<open>while (first != last) *(--d_last) = std::move(*(--last));\<close>
  with \<open>n = last - first\<close>.
\<close>

fun move_backward_n ::
  "('a, 'w) elem_type \<Rightarrow> ptr \<Rightarrow> nat \<Rightarrow> ptr \<Rightarrow> ('a, 'w, unit) prog" where
  "move_backward_n T first 0 d_last = returnE ()"
| "move_backward_n T first (Suc n) d_last =
     (if snd d_last = 0 then throwE Undefined
      else bindE (move_assign T (fst d_last, snd d_last - 1) (At (ptr_add first n))) (\<lambda>_.
           move_backward_n T first n (fst d_last, snd d_last - 1)))"

definition move_backward ::
  "('a, 'w) elem_type \<Rightarrow> ptr \<Rightarrow> ptr \<Rightarrow> ptr \<Rightarrow> ('a, 'w, unit) prog" where
  "move_backward T first lst d_last =
     (if fst first = fst lst \<and> snd first \<le> snd lst
      then move_backward_n T first (snd lst - snd first) d_last
      else throwE Undefined)"

text \<open>
  \<^verbatim>\<open>std::move(first, last, d_first)\<close>:
  \<^verbatim>\<open>for (; first != last; ++first, ++d_first) *d_first = std::move(*first);\<close>
\<close>

fun move_n :: "('a, 'w) elem_type \<Rightarrow> ptr \<Rightarrow> nat \<Rightarrow> ptr \<Rightarrow> ('a, 'w, unit) prog" where
  "move_n T first 0 d_first = returnE ()"
| "move_n T first (Suc n) d_first =
     bindE (move_assign T d_first (At first)) (\<lambda>_.
     move_n T (ptr_add first 1) n (ptr_add d_first 1))"

definition move_range ::
  "('a, 'w) elem_type \<Rightarrow> ptr \<Rightarrow> ptr \<Rightarrow> ptr \<Rightarrow> ('a, 'w, unit) prog" where
  "move_range T first lst d_first =
     (if fst first = fst lst \<and> snd first \<le> snd lst
      then move_n T first (snd lst - snd first) d_first
      else throwE Undefined)"

section \<open>\<^verbatim>\<open>RawMemory<T>\<close>\<close>

text \<open>
  \<^verbatim>\<open>operator new(bytes)\<close> throws \<^verbatim>\<open>std::bad_alloc\<close> when the request is above what the
  store grants, and returns a fresh block of \<open>bytes\<close> bytes otherwise.  The block has
  room for \<open>bytes div sizeof(T)\<close> objects; the model checks every access against that
  length (\<open>load\<close>, \<open>place\<close>), whatever \<^verbatim>\<open>capacity_\<close> says.
\<close>

definition size_t_mul :: "nat \<Rightarrow> nat \<Rightarrow> nat" where
  "size_t_mul a b = (a * b) mod 2 ^ 64"

definition operator_new ::
  "('a, 'w) elem_type \<Rightarrow> nat \<Rightarrow> nat \<Rightarrow> ('a, 'w, nat option) prog" where
  "operator_new T n bytes s =
     (if store_limit s < bytes then (Inl BadAlloc, s)
      else (Inr (Some (next_block s)),
            s\<lparr>heap := (heap s)(next_block s \<mapsto> replicate (bytes div size_of T) Raw),
              next_block := Suc (next_block s),
              trace := trace s @ [Allocated (next_block s) n]\<rparr>))"

text \<open>
  \<^verbatim>\<open>Allocate(n)\<close>: \<^verbatim>\<open>n != 0 ? operator new(n * sizeof(T)) : nullptr\<close>, the product in
  \<^verbatim>\<open>size_t\<close>.  The event \<open>Allocated b n\<close> records the block and the number of elements
  asked for.  \<^verbatim>\<open>Deallocate\<close> is \<^verbatim>\<open>operator delete\<close>, a no-op on \<^verbatim>\<open>nullptr\<close>.  Releasing a
  block that is not allocated is undefined.
\<close>

definition Allocate :: "('a, 'w) elem_type \<Rightarrow> nat \<Rightarrow> ('a, 'w, nat option) prog" where
  "Allocate T n =
     (if n \<noteq> 0 then operator_new T n (size_t_mul n (size_of T)) else returnE None)"

definition Deallocate :: "nat option \<Rightarrow> ('a, 'w, unit) prog" where
  "Deallocate buf s =
     (case buf of
        None \<Rightarrow> (Inr (), s)
      | Some b \<Rightarrow>
          (case heap s b of
             None \<Rightarrow> (Inl Undefined, s)
           | Some blk \<Rightarrow>
               (Inr (), s\<lparr>heap := (heap s)(b := None), trace := trace s @ [Deallocated b]\<rparr>)))"

definition RawMemory_default :: raw_memory where
  "RawMemory_default = \<lparr>rm_buffer = None, rm_capacity = 0\<rparr>"

definition RawMemory_ctor :: "('a, 'w) elem_type \<Rightarrow> nat \<Rightarrow> ('a, 'w, raw_memory) prog" where
  "RawMemory_ctor T capacity =
     bindE (Allocate T capacity) (\<lambda>b. returnE \<lparr>rm_buffer = b, rm_capacity = capacity\<rparr>)"

definition RawMemory_dtor :: "raw_memory \<Rightarrow> ('a, 'w, unit) prog" where
  "RawMemory_dtor m = Deallocate (rm_buffer m)"

definition GetAddress :: "raw_memory \<Rightarrow> ptr" where
  "GetAddress m = (rm_buffer m, 0)"

text \<open>
  \<^verbatim>\<open>operator+\<close> and \<^verbatim>\<open>operator[]\<close> only form an address; their \<^verbatim>\<open>assert\<close>s vanish in a
  release build.  The model checks every access instead, where the address is used
  (\<open>load\<close>, \<open>place\<close>).
\<close>

definition rm_plus :: "raw_memory \<Rightarrow> nat \<Rightarrow> ptr" where
  "rm_plus m offset = (rm_buffer m, offset)"

definition Capacity_rm :: "raw_memory \<Rightarrow> nat" where
  "Capacity_rm m = rm_capacity m"

section \<open>\<^verbatim>\<open>Vector<T>\<close>\<close>

definition get_vec :: "nat \<Rightarrow> ('a, 'w, vector) prog" where
  "get_vec this s = (case vecs s this of None \<Rightarrow> (Inl Undefined, s) | Some v \<Rightarrow> (Inr v, s))"

definition put_vec :: "nat \<Rightarrow> vector \<Rightarrow> ('a, 'w, unit) prog" where
  "put_vec this v s = (Inr (), s\<lparr>vecs := (vecs s)(this \<mapsto> v)\<rparr>)"

definition drop_vec :: "nat \<Rightarrow> ('a, 'w, unit) prog" where
  "drop_vec this s = (Inr (), s\<lparr>vecs := (vecs s)(this := None)\<rparr>)"

definition begin_ptr :: "vector \<Rightarrow> ptr" where
  "begin_ptr v = GetAddress (v_data v)"

definition end_ptr :: "vector \<Rightarrow> ptr" where
  "end_ptr v = rm_plus (v_data v) (v_size v)"

definition Size :: "nat \<Rightarrow> ('a, 'w, nat) prog" where
  "Size this = bindE (get_vec this) (\<lambda>v. returnE (v_size v))"

definition Capacity :: "nat \<Rightarrow> ('a, 'w, nat) prog" where
  "Capacity this = bindE (get_vec this) (\<lambda>v. returnE (Capacity_rm (v_data v)))"

text \<open>\<^verbatim>\<open>CopyOrMove(from, to, count)\<close>\<close>

definition CopyOrMove ::
  "('a, 'w) elem_type \<Rightarrow> ptr \<Rightarrow> ptr \<Rightarrow> nat \<Rightarrow> ('a, 'w, unit) prog" where
  "CopyOrMove T from to count =
     bindE (if nothrow_move_constructible T \<or> \<not> copy_constructible T
            then uninitialized_move_n T from count to
            else uninitialized_copy_n T from count to) (\<lambda>_.
     destroy_n T from count)"

subsection \<open>Construction and destruction\<close>

text \<open>\<^verbatim>\<open>Vector() = default\<close>\<close>

definition Vector_default :: "nat \<Rightarrow> ('a, 'w, unit) prog" where
  "Vector_default this = put_vec this \<lparr>v_data = RawMemory_default, v_size = 0\<rparr>"

text \<open>
  \<^verbatim>\<open>explicit Vector(size_t size)\<close>.  When the body of a constructor throws, the member
  \<^verbatim>\<open>data_\<close> is destroyed and no object comes into existence.
\<close>

definition Vector_sized_value :: "('a, 'w) elem_type \<Rightarrow> nat \<Rightarrow> ('a, 'w, vector) prog" where
  "Vector_sized_value T n =
     bindE (RawMemory_ctor T n) (\<lambda>d.
     bindE (on_unwind (uninitialized_value_construct_n T (GetAddress d) n) (RawMemory_dtor d)) (\<lambda>_.
     returnE \<lparr>v_data = d, v_size = n\<rparr>))"

definition Vector_sized :: "('a, 'w) elem_type \<Rightarrow> nat \<Rightarrow> nat \<Rightarrow> ('a, 'w, unit) prog" where
  "Vector_sized T this n = bindE (Vector_sized_value T n) (put_vec this)"

text \<open>\<^verbatim>\<open>Vector(const Vector& other)\<close>, for an object in the store and for a local.\<close>

definition Vector_copy_value :: "('a, 'w) elem_type \<Rightarrow> vector \<Rightarrow> ('a, 'w, vector) prog" where
  "Vector_copy_value T other =
     bindE (RawMemory_ctor T (v_size other)) (\<lambda>d.
     bindE (on_unwind
              (uninitialized_copy_n T (GetAddress (v_data other)) (v_size other) (GetAddress d))
              (RawMemory_dtor d)) (\<lambda>_.
     returnE \<lparr>v_data = d, v_size = v_size other\<rparr>))"

definition Vector_copy :: "('a, 'w) elem_type \<Rightarrow> nat \<Rightarrow> nat \<Rightarrow> ('a, 'w, unit) prog" where
  "Vector_copy T this other =
     bindE (get_vec other) (\<lambda>ov.
     bindE (Vector_copy_value T ov) (put_vec this))"

text \<open>
  \<^verbatim>\<open>Vector(Vector&& other) noexcept\<close>: \<^verbatim>\<open>data_\<close> is move-constructed (a default
  \<^verbatim>\<open>RawMemory\<close> swapped with \<^verbatim>\<open>other.data_\<close>), \<^verbatim>\<open>size_\<close> is exchanged with 0.
\<close>

definition Vector_move :: "nat \<Rightarrow> nat \<Rightarrow> ('a, 'w, unit) prog" where
  "Vector_move this other =
     bindE (get_vec other) (\<lambda>ov.
     bindE (put_vec other \<lparr>v_data = RawMemory_default, v_size = 0\<rparr>) (\<lambda>_.
     put_vec this \<lparr>v_data = v_data ov, v_size = v_size ov\<rparr>))"

text \<open>\<^verbatim>\<open>~Vector()\<close>, followed by the destructor of the member \<^verbatim>\<open>data_\<close>.\<close>

definition Vector_dtor_value :: "('a, 'w) elem_type \<Rightarrow> vector \<Rightarrow> ('a, 'w, unit) prog" where
  "Vector_dtor_value T v =
     bindE (destroy_n T (GetAddress (v_data v)) (v_size v)) (\<lambda>_.
     RawMemory_dtor (v_data v))"

definition Vector_dtor :: "('a, 'w) elem_type \<Rightarrow> nat \<Rightarrow> ('a, 'w, unit) prog" where
  "Vector_dtor T this =
     bindE (get_vec this) (\<lambda>v.
     bindE (Vector_dtor_value T v) (\<lambda>_.
     drop_vec this))"

subsection \<open>\<^verbatim>\<open>Swap\<close>, \<^verbatim>\<open>Reserve\<close>, \<^verbatim>\<open>Resize\<close>\<close>

definition Swap :: "nat \<Rightarrow> nat \<Rightarrow> ('a, 'w, unit) prog" where
  "Swap this other =
     bindE (get_vec this) (\<lambda>tv.
     bindE (get_vec other) (\<lambda>ov.
     bindE (put_vec this ov) (\<lambda>_.
     put_vec other tv)))"

text \<open>
  \<^verbatim>\<open>Reserve\<close>: the local \<^verbatim>\<open>new_data\<close> is destroyed when \<^verbatim>\<open>CopyOrMove\<close> throws; after
  \<^verbatim>\<open>data_.Swap(new_data)\<close> it holds the old buffer, released at the end of the scope.
\<close>

definition Reserve :: "('a, 'w) elem_type \<Rightarrow> nat \<Rightarrow> nat \<Rightarrow> ('a, 'w, unit) prog" where
  "Reserve T this new_capacity =
     bindE (get_vec this) (\<lambda>v.
     if new_capacity \<le> Capacity_rm (v_data v) then returnE ()
     else
       bindE (RawMemory_ctor T new_capacity) (\<lambda>new_data.
       bindE (on_unwind
                (CopyOrMove T (GetAddress (v_data v)) (GetAddress new_data) (v_size v))
                (RawMemory_dtor new_data)) (\<lambda>_.
       bindE (put_vec this (v\<lparr>v_data := new_data\<rparr>)) (\<lambda>_.
       RawMemory_dtor (v_data v)))))"

definition Resize :: "('a, 'w) elem_type \<Rightarrow> nat \<Rightarrow> nat \<Rightarrow> ('a, 'w, unit) prog" where
  "Resize T this new_size =
     bindE (get_vec this) (\<lambda>v.
     if new_size = v_size v then returnE ()
     else
       bindE (if new_size < v_size v
              then destroy_n T (rm_plus (v_data v) new_size) (v_size v - new_size)
              else
                bindE (Reserve T this new_size) (\<lambda>_.
                bindE (get_vec this) (\<lambda>v'.
                uninitialized_value_construct_n T (rm_plus (v_data v') (v_size v'))
                  (new_size - v_size v')))) (\<lambda>_.
       bindE (get_vec this) (\<lambda>v'.
       put_vec this (v'\<lparr>v_size := new_size\<rparr>))))"

subsection \<open>Appending and removing at the end\<close>

definition PopBack :: "('a, 'w) elem_type \<Rightarrow> nat \<Rightarrow> ('a, 'w, unit) prog" where
  "PopBack T this =
     bindE (get_vec this) (\<lambda>v.
     if v_size v > 0
     then bindE (destroy_n T (rm_plus (v_data v) (v_size v - 1)) 1) (\<lambda>_.
          put_vec this (v\<lparr>v_size := v_size v - 1\<rparr>))
     else returnE ())"

text \<open>
  \<^verbatim>\<open>EmplaceBack\<close>.  In the growing branch nothing destroys the new element when
  \<^verbatim>\<open>CopyOrMove\<close> throws; only the local \<^verbatim>\<open>new_data\<close> is unwound.
\<close>

definition EmplaceBack :: "('a, 'w) elem_type \<Rightarrow> nat \<Rightarrow> 'a arg \<Rightarrow> ('a, 'w, ptr) prog" where
  "EmplaceBack T this args =
     bindE (get_vec this) (\<lambda>v.
     bindE (if v_size v = Capacity_rm (v_data v)
            then
              bindE (RawMemory_ctor T (if v_size v = 0 then 1 else v_size v * 2)) (\<lambda>new_data.
              bindE (on_unwind
                       (bindE (construct T (Into (rm_plus new_data (v_size v))) args) (\<lambda>_.
                        CopyOrMove T (GetAddress (v_data v)) (GetAddress new_data) (v_size v)))
                       (RawMemory_dtor new_data)) (\<lambda>_.
              bindE (put_vec this (v\<lparr>v_data := new_data\<rparr>)) (\<lambda>_.
              bindE (RawMemory_dtor (v_data v)) (\<lambda>_.
              returnE (rm_plus new_data (v_size v))))))
            else
              bindE (construct T (Into (rm_plus (v_data v) (v_size v))) args) (\<lambda>_.
              returnE (rm_plus (v_data v) (v_size v)))) (\<lambda>elem.
     bindE (get_vec this) (\<lambda>v'.
     bindE (put_vec this (v'\<lparr>v_size := v_size v' + 1\<rparr>)) (\<lambda>_.
     returnE elem))))"

definition PushBack_copy :: "('a, 'w) elem_type \<Rightarrow> nat \<Rightarrow> 'a operand \<Rightarrow> ('a, 'w, unit) prog" where
  "PushBack_copy T this val = bindE (EmplaceBack T this (Copying val)) (\<lambda>_. returnE ())"


subsection \<open>Assignment\<close>

text \<open>The loop \<^verbatim>\<open>for (; i != n; ++i) data_[i] = rhs.data_[i];\<close>\<close>

fun copy_assign_n :: "('a, 'w) elem_type \<Rightarrow> ptr \<Rightarrow> ptr \<Rightarrow> nat \<Rightarrow> ('a, 'w, unit) prog" where
  "copy_assign_n T dst src 0 = returnE ()"
| "copy_assign_n T dst src (Suc n) =
     bindE (copy_assign T dst (At src)) (\<lambda>_.
     copy_assign_n T (ptr_add dst 1) (ptr_add src 1) n)"

text \<open>
  \<^verbatim>\<open>Vector& operator=(const Vector& rhs)\<close>.  In the first branch the local \<^verbatim>\<open>rhs_copy\<close>
  is built, swapped with \<^verbatim>\<open>*this\<close> and destroyed at the end of its block, holding what
  \<^verbatim>\<open>*this\<close> held before.
\<close>

definition assign_copy :: "('a, 'w) elem_type \<Rightarrow> nat \<Rightarrow> nat \<Rightarrow> ('a, 'w, unit) prog" where
  "assign_copy T this rhs =
     bindE (if this \<noteq> rhs
            then
              bindE (get_vec rhs) (\<lambda>r.
              bindE (get_vec this) (\<lambda>v.
              if v_size r > Capacity_rm (v_data v)
              then
                bindE (Vector_copy_value T r) (\<lambda>rhs_copy.
                bindE (put_vec this rhs_copy) (\<lambda>_.
                Vector_dtor_value T v))
              else if v_size r < v_size v
              then
                bindE (copy_assign_n T (rm_plus (v_data v) 0) (rm_plus (v_data r) 0) (v_size r)) (\<lambda>_.
                destroy_n T (rm_plus (v_data v) (v_size r)) (v_size v - v_size r))
              else
                bindE (copy_assign_n T (rm_plus (v_data v) 0) (rm_plus (v_data r) 0) (v_size v)) (\<lambda>_.
                uninitialized_copy_n T (rm_plus (v_data r) (v_size v)) (v_size r - v_size v)
                  (rm_plus (v_data v) (v_size v)))))
            else returnE ()) (\<lambda>_.
     bindE (get_vec rhs) (\<lambda>r.
     bindE (get_vec this) (\<lambda>v.
     put_vec this (v\<lparr>v_size := v_size r\<rparr>))))"

text \<open>
  \<^verbatim>\<open>Vector& operator=(Vector&& rhs) noexcept\<close>.  The move assignment of \<^verbatim>\<open>RawMemory\<close>
  overwrites \<^verbatim>\<open>buffer_\<close> and \<^verbatim>\<open>capacity_\<close> unless \<^verbatim>\<open>this == &rhs\<close>; it neither destroys
  nor releases what the destination held.
\<close>

definition assign_move :: "nat \<Rightarrow> nat \<Rightarrow> ('a, 'w, unit) prog" where
  "assign_move this rhs =
     bindE (if this \<noteq> rhs
            then
              bindE (get_vec rhs) (\<lambda>r.
              bindE (get_vec this) (\<lambda>v.
              bindE (put_vec this (v\<lparr>v_data := v_data r\<rparr>)) (\<lambda>_.
              put_vec rhs (r\<lparr>v_data := RawMemory_default\<rparr>))))
            else returnE ()) (\<lambda>_.
     bindE (get_vec rhs) (\<lambda>r.
     bindE (put_vec rhs (r\<lparr>v_size := 0\<rparr>)) (\<lambda>_.
     bindE (get_vec this) (\<lambda>v.
     put_vec this (v\<lparr>v_size := v_size r\<rparr>)))))"

subsection \<open>Insertion and removal at a position\<close>

text \<open>\<^verbatim>\<open>assert(pos >= begin() && pos <= end())\<close>\<close>

definition valid_pos :: "vector \<Rightarrow> ptr \<Rightarrow> bool" where
  "valid_pos v pos \<longleftrightarrow>
     fst pos = fst (begin_ptr v) \<and> snd (begin_ptr v) \<le> snd pos \<and> snd pos \<le> snd (end_ptr v)"

text \<open>
  \<^verbatim>\<open>Emplace\<close>.  The temporary \<^verbatim>\<open>tmp\<close> of the first branch is destroyed when the branch
  is left, by an exception or normally (then moved from).  In the second branch the
  first handler destroys the new element and rethrows; the second handler destroys
  \<open>index + 1\<close> elements of the new storage and returns normally, so that the code after
  it still runs.
\<close>

definition Emplace ::
  "('a, 'w) elem_type \<Rightarrow> nat \<Rightarrow> ptr \<Rightarrow> 'a arg \<Rightarrow> ('a, 'w, ptr) prog" where
  "Emplace T this pos args =
     bindE (get_vec this) (\<lambda>v.
     if \<not> valid_pos v pos then throwE Undefined
     else if pos = end_ptr v then EmplaceBack T this args
     else
       (let index = snd pos - snd (begin_ptr v) in
        bindE (if v_size v \<noteq> Capacity_rm (v_data v)
               then
                 bindE (construct T Local args) (\<lambda>tmp.
                 let last_el = v_size v - 1 in
                 bindE (on_unwind
                          (bindE (move_construct T (Into (end_ptr v))
                                    (At (rm_plus (v_data v) last_el))) (\<lambda>_.
                           bindE (move_backward T (rm_plus (v_data v) index)
                                    (rm_plus (v_data v) last_el) (end_ptr v)) (\<lambda>_.
                           move_assign T (rm_plus (v_data v) index) (Val tmp))))
                          (destroy_local T tmp)) (\<lambda>_.
                 destroy_local T (moved_from T tmp)))
               else
                 bindE (RawMemory_ctor T (if v_size v = 0 then 1 else v_size v * 2)) (\<lambda>new_data.
                 bindE (on_unwind
                          (bindE (construct T (Into (rm_plus new_data index)) args) (\<lambda>_.
                           bindE (catchE
                                    (CopyOrMove T (GetAddress (v_data v)) (GetAddress new_data)
                                       index)
                                    (\<lambda>e. bindE (destroy_at T (rm_plus new_data index)) (\<lambda>_.
                                          throwE e))) (\<lambda>_.
                           catchE
                             (CopyOrMove T (rm_plus (v_data v) index)
                                (rm_plus new_data (index + 1)) (v_size v - index))
                             (\<lambda>e. destroy_n T (GetAddress new_data) (index + 1)))))
                          (RawMemory_dtor new_data)) (\<lambda>_.
                 bindE (put_vec this (v\<lparr>v_data := new_data\<rparr>)) (\<lambda>_.
                 RawMemory_dtor (v_data v))))) (\<lambda>_.
        bindE (get_vec this) (\<lambda>v'.
        bindE (put_vec this (v'\<lparr>v_size := v_size v' + 1\<rparr>)) (\<lambda>_.
        returnE (rm_plus (v_data v') index))))))"

definition Insert_copy ::
  "('a, 'w) elem_type \<Rightarrow> nat \<Rightarrow> ptr \<Rightarrow> 'a operand \<Rightarrow> ('a, 'w, ptr) prog" where
  "Insert_copy T this pos val = Emplace T this pos (Copying val)"

definition Insert_move ::
  "('a, 'w) elem_type \<Rightarrow> nat \<Rightarrow> ptr \<Rightarrow> 'a operand \<Rightarrow> ('a, 'w, ptr) prog" where
  "Insert_move T this pos val = Emplace T this pos (Moving val)"

definition Erase :: "('a, 'w) elem_type \<Rightarrow> nat \<Rightarrow> ptr \<Rightarrow> ('a, 'w, ptr) prog" where
  "Erase T this pos =
     bindE (get_vec this) (\<lambda>v.
     if \<not> valid_pos v pos then throwE Undefined
     else if pos = end_ptr v
     then
       bindE (PopBack T this) (\<lambda>_.
       bindE (get_vec this) (\<lambda>v'.
       returnE (end_ptr v')))
     else
       (let index = snd pos - snd (begin_ptr v) in
        bindE (move_range T (rm_plus (v_data v) (index + 1)) (end_ptr v)
                 (rm_plus (v_data v) index)) (\<lambda>_.
        bindE (PopBack T this) (\<lambda>_.
        bindE (get_vec this) (\<lambda>v'.
        returnE (rm_plus (v_data v') index))))))"

section \<open>Sequences of public operations\<close>

datatype 'a vop =
    OpDefault nat
  | OpSized nat nat
  | OpCopy nat nat
  | OpMove nat nat
  | OpDestroy nat
  | OpAssignCopy nat nat
  | OpAssignMove nat nat
  | OpReserve nat nat
  | OpResize nat nat
  | OpPushBack nat "'a arg"
  | OpPopBack nat
  | OpEmplace nat ptr "'a arg"
  | OpErase nat ptr
  | OpSwap nat nat

definition discard :: "('s \<Rightarrow> (error + 'r) \<times> 's) \<Rightarrow> 's \<Rightarrow> (error + unit) \<times> 's" where
  "discard m = bindE m (\<lambda>_. returnE ())"

fun perform :: "('a, 'w) elem_type \<Rightarrow> 'a vop \<Rightarrow> ('a, 'w, unit) prog" where
  "perform T (OpDefault this) = Vector_default this"
| "perform T (OpSized this n) = Vector_sized T this n"
| "perform T (OpCopy this other) = Vector_copy T this other"
| "perform T (OpMove this other) = Vector_move this other"
| "perform T (OpDestroy this) = Vector_dtor T this"
| "perform T (OpAssignCopy this rhs) = assign_copy T this rhs"
| "perform T (OpAssignMove this rhs) = assign_move this rhs"
| "perform T (OpReserve this n) = Reserve T this n"
| "perform T (OpResize this n) = Resize T this n"
| "perform T (OpPushBack this a) = discard (EmplaceBack T this a)"
| "perform T (OpPopBack this) = PopBack T this"
| "perform T (OpEmplace this pos a) = discard (Emplace T this pos a)"
| "perform T (OpErase this pos) = discard (Erase T this pos)"
| "perform T (OpSwap this other) = Swap this other"

text \<open>
  A caller that catches every exception and goes on: the state after a list of
  operations, whatever each of them returned.
\<close>

fun run :: "('a, 'w) elem_type \<Rightarrow> 'a vop list \<Rightarrow> ('a, 'w) state \<Rightarrow> ('a, 'w) state" where
  "run T [] s = s"
| "run T (c # cs) s = run T cs (snd (perform T c s))"

text \<open>The invariant \<open>size \<le> capacity\<close> of every vector object in the store.\<close>

definition size_le_capacity :: "('a, 'w) state \<Rightarrow> bool" where
  "size_le_capacity s \<longleftrightarrow>
     (\<forall>a v. vecs s a = Some v \<longrightarrow> v_size v \<le> rm_capacity (v_data v))"

section \<open>Vocabulary of the specification\<close>

subsection \<open>Ranges of a block\<close>

text \<open>\<open>slice xs i n\<close> is the range \<open>[i, i + n)\<close> of a block, \<open>patch xs i ys\<close> the block with
  the range starting at \<open>i\<close> overwritten by \<open>ys\<close>.\<close>

definition slice :: "'b list \<Rightarrow> nat \<Rightarrow> nat \<Rightarrow> 'b list" where
  "slice xs i n = take n (drop i xs)"

definition patch :: "'b list \<Rightarrow> nat \<Rightarrow> 'b list \<Rightarrow> 'b list" where
  "patch xs i ys = take i xs @ ys @ drop (i + length ys) xs"

subsection \<open>What a run changed\<close>

text \<open>
  \<open>alters s s' ups\<close>: from \<open>s\<close> to \<open>s'\<close> the heap changed exactly in the blocks listed in
  \<open>ups\<close> (an earlier entry wins), and neither the object store nor the allocator moved.
  \<open>transforms\<close> adds the events recorded on the way.
\<close>

definition alters ::
  "('a, 'w) state \<Rightarrow> ('a, 'w) state \<Rightarrow> (nat \<times> 'a slot list) list \<Rightarrow> bool" where
  "alters s s' ups \<longleftrightarrow>
     heap s' = heap s ++ map_of ups \<and> vecs s' = vecs s \<and> next_block s' = next_block s \<and>
     store_limit s' = store_limit s"

definition transforms ::
  "('a, 'w) state \<Rightarrow> ('a, 'w) state \<Rightarrow> (nat \<times> 'a slot list) list \<Rightarrow> 'a event list \<Rightarrow> bool" where
  "transforms s s' ups evs \<longleftrightarrow> alters s s' ups \<and> trace s' = trace s @ evs"

text \<open>A program that touches neither the object store nor the allocator.\<close>

definition quiet :: "(('a, 'w) state \<Rightarrow> (error + 'r) \<times> ('a, 'w) state) \<Rightarrow> bool" where
  "quiet m \<longleftrightarrow>
     (\<forall>s. vecs (snd (m s)) = vecs s \<and> next_block (snd (m s)) = next_block s \<and>
          store_limit (snd (m s)) = store_limit s)"

text \<open>A program that does not touch the object store.\<close>

definition keeps_vecs :: "(('a, 'w) state \<Rightarrow> (error + 'r) \<times> ('a, 'w) state) \<Rightarrow> bool" where
  "keeps_vecs m \<longleftrightarrow> (\<forall>s. vecs (snd (m s)) = vecs s)"

subsection \<open>The construction loops, started in the middle\<close>

definition ucopy_from ::
  "('a, 'w) elem_type \<Rightarrow> ptr \<Rightarrow> ptr \<Rightarrow> nat \<Rightarrow> nat \<Rightarrow> ('a, 'w, unit) prog" where
  "ucopy_from T first d_first k m =
     uninitialized_n T (\<lambda>k. copy_construct T (Into (ptr_add d_first k)) (At (ptr_add first k)))
       d_first k m"

definition umove_from ::
  "('a, 'w) elem_type \<Rightarrow> ptr \<Rightarrow> ptr \<Rightarrow> nat \<Rightarrow> nat \<Rightarrow> ('a, 'w, unit) prog" where
  "umove_from T first d_first k m =
     uninitialized_n T (\<lambda>k. move_construct T (Into (ptr_add d_first k)) (At (ptr_add first k)))
       d_first k m"

subsection \<open>Well-formed element types, vectors and heaps\<close>

text \<open>
  A move constructor declared \<^verbatim>\<open>noexcept\<close> does not throw: the trait
  \<^verbatim>\<open>is_nothrow_move_constructible\<close> tells the truth about the type.
\<close>

definition elem_type_ok :: "('a, 'w) elem_type \<Rightarrow> bool" where
  "elem_type_ok T \<longleftrightarrow> (nothrow_move_constructible T \<longrightarrow> (\<forall>v w. fst (move_ctor T v w)))"

text \<open>The events of relocating \<open>n\<close> elements, by the policy of \<^verbatim>\<open>CopyOrMove\<close>.\<close>

definition relocations ::
  "('a, 'w) elem_type \<Rightarrow> nat \<Rightarrow> nat \<Rightarrow> nat \<Rightarrow> nat \<Rightarrow> nat \<Rightarrow> 'a event list" where
  "relocations T bs i bd j n =
     map (\<lambda>t. (if nothrow_move_constructible T \<or> \<not> copy_constructible T
                then MoveCtor (At (Some bs, i + t)) (Into (Some bd, j + t))
                else CopyCtor (At (Some bs, i + t)) (Into (Some bd, j + t)))) [0..<n]"

text \<open>
  The block of a vector that holds the elements \<open>xs\<close> in a storage of capacity \<open>c\<close>:
  slots \<open>[0, size)\<close> are live, slots \<open>[size, capacity)\<close> are raw.
\<close>

definition block_of :: "'a list \<Rightarrow> nat \<Rightarrow> 'a slot list" where
  "block_of xs c = map Live xs @ replicate (c - length xs) Raw"

text \<open>
  \<open>holds s v xs\<close>: in state \<open>s\<close> the vector \<open>v\<close> is well formed and its elements are \<open>xs\<close>.
\<close>

definition holds :: "('a, 'w) state \<Rightarrow> vector \<Rightarrow> 'a list \<Rightarrow> bool" where
  "holds s v xs \<longleftrightarrow>
     v_size v = length xs \<and> length xs \<le> rm_capacity (v_data v) \<and>
     (case rm_buffer (v_data v) of
        None \<Rightarrow> rm_capacity (v_data v) = 0
      | Some b \<Rightarrow> heap s b = Some (block_of xs (rm_capacity (v_data v))))"

text \<open>
  A heap of objects of type \<open>T\<close> as \<^verbatim>\<open>operator new\<close> leaves it: the allocator hands out
  fresh blocks, so nothing is allocated at or above \<open>next_block\<close>; a block is a block of
  fewer than \<open>2^64\<close> bytes; and \<^verbatim>\<open>sizeof(T)\<close> is not 0.
\<close>

definition heap_ok :: "('a, 'w) elem_type \<Rightarrow> ('a, 'w) state \<Rightarrow> bool" where
  "heap_ok T s \<longleftrightarrow>
     0 < size_of T \<and>
     (\<forall>b. next_block s \<le> b \<longrightarrow> heap s b = None) \<and>
     (\<forall>b blk. heap s b = Some blk \<longrightarrow> length blk * size_of T < 2 ^ 64)"

subsection \<open>When a run of element operations completes\<close>

text \<open>
  An element operation that may throw is a function from the world to a flag and the
  next world.  \<open>succeed fs w\<close>: started in the world \<open>w\<close>, the operations \<open>fs\<close>, one after
  the other, all complete.
\<close>

fun succeed :: "('w \<Rightarrow> bool \<times> 'w) list \<Rightarrow> 'w \<Rightarrow> bool" where
  "succeed [] w = True"
| "succeed (f # fs) w = (fst (f w) \<and> succeed fs (snd (f w)))"

text \<open>The world after them.\<close>

definition after_all :: "('w \<Rightarrow> bool \<times> 'w) list \<Rightarrow> 'w \<Rightarrow> 'w" where
  "after_all fs w = fold (\<lambda>f w. snd (f w)) fs w"

text \<open>The constructor by which \<^verbatim>\<open>CopyOrMove\<close> relocates an element.\<close>

definition relocation_ctor :: "('a, 'w) elem_type \<Rightarrow> 'a \<Rightarrow> 'w \<Rightarrow> bool \<times> 'w" where
  "relocation_ctor T =
     (if nothrow_move_constructible T \<or> \<not> copy_constructible T then move_ctor T
      else copy_ctor T)"

text \<open>An element type none of whose constructors throws.\<close>

definition ctors_never_throw :: "('a, 'w) elem_type \<Rightarrow> bool" where
  "ctors_never_throw T \<longleftrightarrow>
     (\<forall>v w. fst (copy_ctor T v w)) \<and> (\<forall>v w. fst (move_ctor T v w))"

text \<open>\<open>n\<close> appends in a row, stopping at the first that throws.\<close>

fun push_all :: "('a, 'w) elem_type \<Rightarrow> nat \<Rightarrow> 'a arg list \<Rightarrow> ('a, 'w, unit) prog" where
  "push_all T this [] = returnE ()"
| "push_all T this (a # as) = bindE (EmplaceBack T this a) (\<lambda>_. push_all T this as)"


subsection \<open>Insertion at a position\<close>

text \<open>
  The object an argument of \<^verbatim>\<open>Emplace\<close> refers to, the value found there when the
  object is the element \<open>snd p\<close> of a vector holding \<open>xs\<close>, and whether it refers to one
  of the \<open>n\<close> elements of the vector with the buffer \<open>buf\<close> or to an object outside the
  heap.
\<close>

fun arg_operand :: "'a arg \<Rightarrow> 'a operand" where
  "arg_operand (Copying src) = src"
| "arg_operand (Moving src) = src"

fun operand_value :: "'a list \<Rightarrow> 'a operand \<Rightarrow> 'a" where
  "operand_value xs (Val x) = x"
| "operand_value xs (At p) = xs ! snd p"

fun operand_in :: "nat option \<Rightarrow> nat \<Rightarrow> 'a operand \<Rightarrow> bool" where
  "operand_in buf n (Val x) = True"
| "operand_in buf n (At p) = (fst p = buf \<and> buf \<noteq> None \<and> snd p < n)"

text \<open>The constructor that builds the new object from the argument.\<close>

fun arg_ctor :: "('a, 'w) elem_type \<Rightarrow> 'a arg \<Rightarrow> 'a \<Rightarrow> 'w \<Rightarrow> bool \<times> 'w" where
  "arg_ctor T (Copying src) = copy_ctor T"
| "arg_ctor T (Moving src) = move_ctor T"

text \<open>The elements once the new object is constructed from the argument, and the event
  of that construction.\<close>

fun after_construct :: "('a, 'w) elem_type \<Rightarrow> 'a list \<Rightarrow> 'a arg \<Rightarrow> 'a list" where
  "after_construct T xs (Moving (At p)) = xs[snd p := moved_from T (xs ! snd p)]"
| "after_construct T xs (Moving (Val x)) = xs"
| "after_construct T xs (Copying src) = xs"

fun ctor_event :: "target \<Rightarrow> 'a arg \<Rightarrow> 'a event" where
  "ctor_event tgt (Copying src) = CopyCtor src tgt"
| "ctor_event tgt (Moving src) = MoveCtor src tgt"

definition insert_at :: "'a list \<Rightarrow> nat \<Rightarrow> 'a \<Rightarrow> 'a list" where
  "insert_at xs p x = take p xs @ x # drop p xs"

text \<open>The elements while the range \<open>[q, n)\<close> is shifted up: slot \<open>q\<close> is moved from.\<close>

definition gap :: "('a, 'w) elem_type \<Rightarrow> 'a list \<Rightarrow> nat \<Rightarrow> 'a list" where
  "gap T xs q = insert_at xs q (moved_from T (xs ! q))"

text \<open>
  The relocations that open slot \<open>p\<close> in a block \<open>b\<close> with \<open>n\<close> elements: the element
  \<open>n - 1 - t\<close> goes to slot \<open>n - t\<close>, for \<open>t = 0, ..., n - p - 1\<close>; the first by a
  construction in the raw slot \<open>n\<close>, the others by assignment.
\<close>

definition shift_events :: "nat \<Rightarrow> nat \<Rightarrow> nat \<Rightarrow> 'a event list" where
  "shift_events b n p =
     map (\<lambda>t. if t = 0 then MoveCtor (At (Some b, n - 1)) (Into (Some b, n))
               else MoveAssign (At (Some b, n - 1 - t)) (Some b, n - t)) [0..<n - p]"

text \<open>
  The element operations that \<^verbatim>\<open>Emplace\<close> attempts, after the construction of the
  temporary \<open>x\<close>, to open slot \<open>p\<close> among the elements \<open>ys\<close> and to fill it: the move
  construction of the last element, the move assignments of the shift (each onto a
  moved-from object), and the move assignment from the temporary.
\<close>

definition shift_attempts ::
  "('a, 'w) elem_type \<Rightarrow> 'a list \<Rightarrow> nat \<Rightarrow> 'a \<Rightarrow> ('w \<Rightarrow> bool \<times> 'w) list" where
  "shift_attempts T ys p x =
     move_ctor T (ys ! (length ys - 1)) #
     map (\<lambda>t. move_asgn T (moved_from T (ys ! (length ys - 1 - t))) (ys ! (length ys - 2 - t)))
       [0..<length ys - 1 - p] @
     [move_asgn T (moved_from T (ys ! p)) x]"

subsection \<open>The doubling schedule\<close>

text \<open>
  The capacity after \<open>n\<close> appends to a vector that started with size 0 and capacity 0,
  when only an append to a full vector grows the capacity, to \<open>max 1 (2 * size)\<close>.
\<close>

fun schedule :: "nat \<Rightarrow> nat" where
  "schedule 0 = 0"
| "schedule (Suc n) = (if n = schedule n then max 1 (2 * n) else schedule n)"

text \<open>An argument that refers to an object outside the heap.\<close>

fun outside :: "'a arg \<Rightarrow> bool" where
  "outside (Copying (Val x)) = True"
| "outside (Moving (Val x)) = True"
| "outside (Copying (At p)) = False"
| "outside (Moving (At p)) = False"

definition arg_value :: "'a arg \<Rightarrow> 'a" where
  "arg_value a = operand_value [] (arg_operand a)"

section \<open>Example element types and states\<close>

text \<open>An element type like \<^verbatim>\<open>int\<close>: nothing throws, a move leaves the source as it was.\<close>

definition T_int :: "(nat, unit) elem_type" where
  "T_int = \<lparr>size_of = 4, nothrow_move_constructible = True, copy_constructible = True, default_value = 0,
            moved_from = (\<lambda>v. v), value_ctor = (\<lambda>w. (True, w)),
            copy_ctor = (\<lambda>v w. (True, w)), move_ctor = (\<lambda>v w. (True, w)),
            copy_asgn = (\<lambda>old v w. (True, w)), move_asgn = (\<lambda>old v w. (True, w)),
            dtor = (\<lambda>v w. w)\<rparr>"

text \<open>
  A copyable type whose move constructor is not \<^verbatim>\<open>noexcept\<close>, so that relocation copies;
  copying the value 13 throws.  A moved-from object holds 0.
\<close>

definition T_fragile :: "(nat, unit) elem_type" where
  "T_fragile = \<lparr>size_of = 4, nothrow_move_constructible = False, copy_constructible = True,
                default_value = 0, moved_from = (\<lambda>v. 0), value_ctor = (\<lambda>w. (True, w)),
                copy_ctor = (\<lambda>v w. (v \<noteq> 13, w)), move_ctor = (\<lambda>v w. (True, w)),
                copy_asgn = (\<lambda>old v w. (True, w)), move_asgn = (\<lambda>old v w. (True, w)),
                dtor = (\<lambda>v w. w)\<rparr>"


text \<open>Nothing allocated, no vector.\<close>

definition s_init :: "(nat, unit) state" where
  "s_init = \<lparr>heap = (\<lambda>_. None), next_block = 0, store_limit = 2 ^ 40, vecs = (\<lambda>_. None), world = (), trace = []\<rparr>"

text \<open>A default-constructed vector at address 0.\<close>

definition s_fresh :: "(nat, unit) state" where
  "s_fresh = \<lparr>heap = (\<lambda>_. None), next_block = 0, store_limit = 2 ^ 40,
              vecs = (\<lambda>_. None)(0 \<mapsto> \<lparr>v_data = RawMemory_default, v_size = 0\<rparr>),
              world = (), trace = []\<rparr>"

text \<open>The vector at address 0 holds \<open>[7, 13]\<close> in a storage of capacity 2.\<close>

definition v_full :: vector where
  "v_full = \<lparr>v_data = \<lparr>rm_buffer = Some 0, rm_capacity = 2\<rparr>, v_size = 2\<rparr>"

definition s_full :: "(nat, unit) state" where
  "s_full = \<lparr>heap = (\<lambda>_. None)(0 \<mapsto> [Live 7, Live 13]), next_block = 1, store_limit = 2 ^ 40,
             vecs = (\<lambda>_. None)(0 \<mapsto> v_full), world = (), trace = []\<rparr>"

text \<open>The vector at address 0 holds \<open>[7, 13]\<close> in a storage of capacity 4.\<close>

definition v_spare :: vector where
  "v_spare = \<lparr>v_data = \<lparr>rm_buffer = Some 0, rm_capacity = 4\<rparr>, v_size = 2\<rparr>"

definition s_spare :: "(nat, unit) state" where
  "s_spare = \<lparr>heap = (\<lambda>_. None)(0 \<mapsto> [Live 7, Live 13, Raw, Raw]), next_block = 1, store_limit = 2 ^ 40,
              vecs = (\<lambda>_. None)(0 \<mapsto> v_spare), world = (), trace = []\<rparr>"

text \<open>Two vectors: \<open>[7, 13]\<close> at address 0 and \<open>[1]\<close> at address 1.\<close>

definition v_one :: vector where
  "v_one = \<lparr>v_data = \<lparr>rm_buffer = Some 1, rm_capacity = 1\<rparr>, v_size = 1\<rparr>"

definition s_pair :: "(nat, unit) state" where
  "s_pair = \<lparr>heap = (\<lambda>_. None)(0 \<mapsto> [Live 7, Live 13], 1 \<mapsto> [Live 1]), next_block = 2, store_limit = 2 ^ 40,
             vecs = (\<lambda>_. None)(0 \<mapsto> v_full, 1 \<mapsto> v_one), world = (), trace = []\<rparr>"

section \<open>Lemmas about blocks, the monad and the primitive steps\<close>

lemma length_patch: "i + length ys \<le> length xs \<Longrightarrow> length (patch xs i ys) = length xs"
  by (simp add: patch_def)

lemma patch_Nil: "patch xs i [] = xs"
  by (simp add: patch_def)

lemma patch_update_first:
  "i < length xs \<Longrightarrow> patch (xs[i := y]) (Suc i) ys = patch xs i (y # ys)"
  by (simp add: patch_def take_Suc_conv_app_nth)

lemma patch_update_inside:
  "i \<le> p \<Longrightarrow> p < i + length ys \<Longrightarrow> patch (xs[p := x]) i ys = patch xs i ys"
  by (simp add: patch_def)

lemma slice_Suc:
  "i < length xs \<Longrightarrow> slice xs i (Suc n) = xs ! i # slice xs (Suc i) n"
  by (simp add: slice_def take_Suc_conv_app_nth Cons_nth_drop_Suc[symmetric] del: drop_Suc_Cons)

lemma slice_0: "slice xs i 0 = []"
  by (simp add: slice_def)

lemma slice_update_before: "q < p \<Longrightarrow> slice (xs[q := x]) p n = slice xs p n"
  by (simp add: slice_def)

lemma slice_update_after: "p + n \<le> q \<Longrightarrow> slice (xs[q := x]) p n = slice xs p n"
  by (simp add: slice_def drop_update_swap)

lemma length_slice: "i + n \<le> length xs \<Longrightarrow> length (slice xs i n) = n"
  by (simp add: slice_def)

lemma nth_slice: "k < n \<Longrightarrow> i + n \<le> length xs \<Longrightarrow> slice xs i n ! k = xs ! (i + k)"
  by (simp add: slice_def)

lemma patch_slice_self: "i + n \<le> length xs \<Longrightarrow> patch xs i (slice xs i n) = xs"
  apply (simp add: patch_def slice_def)
  by (metis append_take_drop_id drop_drop add.commute)

lemma patch_eq_self:
  "slice xs i (length ys) = ys \<Longrightarrow> i + length ys \<le> length xs \<Longrightarrow> patch xs i ys = xs"
  using patch_slice_self[of i "length ys" xs] by simp

subsection \<open>The monad\<close>

lemma bindE_returnE [simp]: "bindE (returnE x) f = f x"
  by (rule ext) (simp add: bindE_def returnE_def)

lemma bindE_throwE [simp]: "bindE (throwE e) f = throwE e"
  by (rule ext) (simp add: bindE_def throwE_def)

lemma bindE_Inr: "m s = (Inr x, s') \<Longrightarrow> bindE m f s = f x s'"
  by (simp add: bindE_def)

lemma bindE_Inl: "m s = (Inl e, s') \<Longrightarrow> bindE m f s = (Inl e, s')"
  by (simp add: bindE_def)

lemma catchE_Inr: "m s = (Inr x, s') \<Longrightarrow> catchE m h s = (Inr x, s')"
  by (simp add: catchE_def)

lemma catchE_threw: "m s = (Inl e, s') \<Longrightarrow> e \<noteq> Undefined \<Longrightarrow> catchE m h s = h e s'"
  by (simp add: catchE_def)

lemma catchE_undefined: "m s = (Inl Undefined, s') \<Longrightarrow> catchE m h s = (Inl Undefined, s')"
  by (simp add: catchE_def)

lemma on_unwind_Inr: "m s = (Inr x, s') \<Longrightarrow> on_unwind m d s = (Inr x, s')"
  by (simp add: on_unwind_def catchE_def)

lemma on_unwind_threw:
  "m s = (Inl e, s') \<Longrightarrow> e \<noteq> Undefined \<Longrightarrow> d s' = (Inr (), s'') \<Longrightarrow>
   on_unwind m d s = (Inl e, s'')"
  by (simp add: on_unwind_def catchE_def bindE_def throwE_def)

subsection \<open>Primitive steps on a well-formed heap\<close>

lemma load_live:
  "heap s b = Some blk \<Longrightarrow> i < length blk \<Longrightarrow> blk ! i = Live v \<Longrightarrow>
   load (Some b, i) s = (Inr v, s)"
  by (simp add: load_def)

lemma place_ok:
  "heap s b = Some blk \<Longrightarrow> i < length blk \<Longrightarrow>
   place (Some b, i) x s = (Inr (), s\<lparr>heap := (heap s)(b \<mapsto> blk[i := x])\<rparr>)"
  by (simp add: place_def)

lemma destroy_at_live:
  "heap s b = Some blk \<Longrightarrow> i < length blk \<Longrightarrow> blk ! i = Live v \<Longrightarrow>
   destroy_at T (Some b, i) s =
     (Inr (), s\<lparr>heap := (heap s)(b \<mapsto> blk[i := Raw]), world := dtor T v (world s),
                trace := trace s @ [Dtor (Into (Some b, i))]\<rparr>)"
  by (simp add: destroy_at_def bindE_def load_live place_ok effect_def emit_def)

lemma transforms_refl: "transforms s s [] []"
  by (simp add: transforms_def alters_def)

lemma transforms_trans:
  "transforms s s1 u1 e1 \<Longrightarrow> transforms s1 s2 u2 e2 \<Longrightarrow> transforms s s2 (u2 @ u1) (e1 @ e2)"
  by (simp add: transforms_def alters_def)

lemma destroy_n_live:
  assumes "heap s b = Some blk" "slice blk i n = map Live vs" "i + n \<le> length blk"
  shows "fst (destroy_n T (Some b, i) n s) = Inr () \<and>
         transforms s (snd (destroy_n T (Some b, i) n s)) [(b, patch blk i (replicate n Raw))]
           (map (\<lambda>k. Dtor (Into (Some b, i + k))) [0..<n]) \<and>
         world (snd (destroy_n T (Some b, i) n s)) = fold (dtor T) vs (world s)"
  using assms
proof (induction n arbitrary: s blk i vs)
  case 0
  then show ?case by (simp add: returnE_def patch_Nil slice_0 fun_upd_idem transforms_def alters_def)
next
  case (Suc n)
  from Suc.prems have i: "i < length blk" by simp
  from Suc.prems i obtain v vs' where vs: "vs = v # vs'" and v: "blk ! i = Live v"
    and rest: "slice blk (Suc i) n = map Live vs'"
    by (cases vs) (auto simp: slice_Suc)
  let ?s1 = "s\<lparr>heap := (heap s)(b \<mapsto> blk[i := Raw]), world := dtor T v (world s),
                trace := trace s @ [Dtor (Into (Some b, i))]\<rparr>"
  have step: "destroy_at T (Some b, i) s = (Inr (), ?s1)"
    using Suc.prems(1) i v by (rule destroy_at_live)
  have eq: "destroy_n T (Some b, i) (Suc n) s = destroy_n T (Some b, Suc i) n ?s1"
    by (simp add: bindE_def step ptr_add_def)
  have tr: "map (\<lambda>k. Dtor (Into (Some b, i + k))) [0..<Suc n] =
        Dtor (Into (Some b, i)) # map (\<lambda>k. Dtor (Into (Some b, Suc i + k))) [0..<n]"
    by (simp add: map_upt_Suc del: upt_Suc)
  have pre: "heap ?s1 b = Some (blk[i := Raw])"
       "slice (blk[i := Raw]) (Suc i) n = map Live vs'"
       "Suc i + n \<le> length (blk[i := Raw])"
    using Suc.prems rest by (simp_all add: slice_update_before)
  show ?case
    unfolding eq tr using i Suc.IH[OF pre]
    by (simp add: patch_update_first vs transforms_def alters_def)
qed

lemma slice_snoc:
  "j + k < length xs \<Longrightarrow> slice xs j (Suc k) = slice xs j k @ [xs ! (j + k)]"
  by (simp add: slice_def take_Suc_conv_app_nth)

lemma patch_replicate_extend:
  assumes a: "slice xs (j + k) m = replicate m x" and b: "j + k + m \<le> length xs"
  shows "patch xs j (replicate (k + m) x) = patch xs j (replicate k x)"
proof -
  have "drop (j + k) xs = take m (drop (j + k) xs) @ drop m (drop (j + k) xs)"
    by (simp only: append_take_drop_id)
  also have "\<dots> = replicate m x @ drop (j + k + m) xs"
    using a by (simp add: slice_def add.commute)
  finally have e: "drop (j + k) xs = replicate m x @ drop (j + k + m) xs" .
  have "patch xs j (replicate k x) = take j xs @ replicate k x @ drop (j + k) xs"
    by (simp add: patch_def)
  also have "\<dots> = take j xs @ replicate k x @ replicate m x @ drop (j + k + m) xs"
    by (subst e) simp
  also have "\<dots> = patch xs j (replicate (k + m) x)"
    by (simp add: patch_def replicate_add add.assoc)
  finally show ?thesis by simp
qed

lemma ucopy_from_0: "ucopy_from T first d_first k 0 = returnE ()"
  by (simp add: ucopy_from_def)

lemma ucopy_from_Suc:
  "ucopy_from T first d_first k (Suc m) =
     bindE (catchE (copy_construct T (Into (ptr_add d_first k)) (At (ptr_add first k)))
              (\<lambda>e. bindE (destroy_n T d_first k) (\<lambda>_. throwE e))) (\<lambda>_.
     ucopy_from T first d_first (Suc k) m)"
  by (simp add: ucopy_from_def)

lemma ucopy_from_spec:
  assumes "heap s bs = Some S" "heap s bd = Some D" "bs \<noteq> bd"
    "slice S (i + k) m = map Live vs" "i + k + m \<le> length S" "j + k + m \<le> length D"
    "slice D j k = map Live ws" "slice D (j + k) m = replicate m Raw"
  shows "(succeed (map (copy_ctor T) vs) (world s) \<and>
          fst (ucopy_from T (Some bs, i) (Some bd, j) k m s) = Inr () \<and>
          transforms s (snd (ucopy_from T (Some bs, i) (Some bd, j) k m s))
            [(bd, patch D (j + k) (map Live vs))]
            (map (\<lambda>t. CopyCtor (At (Some bs, i + t)) (Into (Some bd, j + t))) [k..<k + m]))
       \<or> (\<not> succeed (map (copy_ctor T) vs) (world s) \<and>
          fst (ucopy_from T (Some bs, i) (Some bd, j) k m s) = Inl ElementThrew \<and>
          alters s (snd (ucopy_from T (Some bs, i) (Some bd, j) k m s))
            [(bd, patch D j (replicate (k + m) Raw))])"
  using assms
proof (induction m arbitrary: s D k vs ws)
  case 0
  then show ?case
    by (simp add: ucopy_from_0 returnE_def patch_Nil slice_0 transforms_def alters_def
          fun_upd_idem)
next
  case (Suc m)
  from Suc.prems have ik: "i + k < length S" and jk: "j + k < length D" by simp_all
  from Suc.prems ik obtain v vs' where vs: "vs = v # vs'" and v: "S ! (i + k) = Live v"
    and rest: "slice S (i + Suc k) m = map Live vs'"
    by (cases vs) (auto simp: slice_Suc)
  let ?w = "snd (copy_ctor T v (world s))"
  show ?case
  proof (cases "fst (copy_ctor T v (world s))")
    case False
    let ?s0 = "s\<lparr>world := ?w\<rparr>"
    have pre: "heap ?s0 bd = Some D" "slice D j k = map Live ws" "j + k \<le> length D"
      using Suc.prems by simp_all
    note d = destroy_n_live[OF pre, of T]
    have eq: "ucopy_from T (Some bs, i) (Some bd, j) k (Suc m) s =
        (Inl ElementThrew, snd (destroy_n T (Some bd, j) k ?s0))"
      using False Suc.prems(1) ik v d
      by (simp add: ucopy_from_Suc bindE_def catchE_def copy_construct_def ptr_add_def
            load_live attempt_def throwE_def split_beta)
    have "patch D j (replicate (k + Suc m) Raw) = patch D j (replicate k Raw)"
      using Suc.prems by (intro patch_replicate_extend) simp_all
    with d False show ?thesis
      unfolding eq by (simp add: transforms_def alters_def vs)
  next
    case True
    let ?D1 = "D[j + k := Live v]"
    let ?s1 = "s\<lparr>world := ?w, heap := (heap s)(bd \<mapsto> ?D1),
                 trace := trace s @ [CopyCtor (At (Some bs, i + k)) (Into (Some bd, j + k))]\<rparr>"
    have eq: "ucopy_from T (Some bs, i) (Some bd, j) k (Suc m) s =
        ucopy_from T (Some bs, i) (Some bd, j) (Suc k) m ?s1"
      using True Suc.prems(1,2) ik jk v
      by (simp add: ucopy_from_Suc bindE_def catchE_def copy_construct_def ptr_add_def
            load_live attempt_def place_ok emit_def returnE_def)
    have pre: "heap ?s1 bs = Some S" "heap ?s1 bd = Some ?D1" "bs \<noteq> bd"
      "slice S (i + Suc k) m = map Live vs'" "i + Suc k + m \<le> length S"
      "j + Suc k + m \<le> length ?D1"
      "slice ?D1 j (Suc k) = map Live (ws @ [v])"
      "slice ?D1 (j + Suc k) m = replicate m Raw"
    proof -
      show "heap ?s1 bs = Some S" "heap ?s1 bd = Some ?D1" "bs \<noteq> bd"
        "slice S (i + Suc k) m = map Live vs'" "i + Suc k + m \<le> length S"
        "j + Suc k + m \<le> length ?D1"
        using Suc.prems rest by simp_all
      show "slice ?D1 j (Suc k) = map Live (ws @ [v])"
        using Suc.prems(7) jk by (simp add: slice_snoc slice_update_after)
      show "slice ?D1 (j + Suc k) m = replicate m Raw"
        using Suc.prems(8) jk by (simp add: slice_Suc slice_update_before)
    qed
    have p1: "patch ?D1 (j + Suc k) (map Live vs') = patch D (j + k) (map Live vs)"
      using jk by (simp add: vs patch_update_first)
    have p2: "patch ?D1 j (replicate (Suc k + m) Raw) = patch D j (replicate (k + Suc m) Raw)"
      by (simp add: patch_update_inside)
    have tr: "map (\<lambda>t. CopyCtor (At (Some bs, i + t)) (Into (Some bd, j + t))) [k..<k + Suc m]
        = CopyCtor (At (Some bs, i + k)) (Into (Some bd, j + k)) #
          map (\<lambda>t. CopyCtor (At (Some bs, i + t)) (Into (Some bd, j + t))) [Suc k..<Suc k + m]"
      by (simp add: upt_conv_Cons del: upt_Suc)
    have su: "succeed (map (copy_ctor T) vs) (world s) = succeed (map (copy_ctor T) vs') (world ?s1)"
      using True by (simp add: vs)
    from Suc.IH[OF pre] show ?thesis
      unfolding eq p1 p2 tr su by (auto simp: transforms_def alters_def)
  qed
qed

lemma umove_from_0: "umove_from T first d_first k 0 = returnE ()"
  by (simp add: umove_from_def)

lemma umove_from_Suc:
  "umove_from T first d_first k (Suc m) =
     bindE (catchE (move_construct T (Into (ptr_add d_first k)) (At (ptr_add first k)))
              (\<lambda>e. bindE (destroy_n T d_first k) (\<lambda>_. throwE e))) (\<lambda>_.
     umove_from T first d_first (Suc k) m)"
  by (simp add: umove_from_def)

lemma umove_from_spec:
  assumes "heap s bs = Some S" "heap s bd = Some D" "bs \<noteq> bd"
    "slice S (i + k) m = map Live vs" "i + k + m \<le> length S" "j + k + m \<le> length D"
    "slice D j k = map Live ws" "elem_type_ok T"
  shows "(succeed (map (move_ctor T) vs) (world s) \<and>
          fst (umove_from T (Some bs, i) (Some bd, j) k m s) = Inr () \<and>
          transforms s (snd (umove_from T (Some bs, i) (Some bd, j) k m s))
            [(bd, patch D (j + k) (map Live vs)),
             (bs, patch S (i + k) (map (\<lambda>v. Live (moved_from T v)) vs))]
            (map (\<lambda>t. MoveCtor (At (Some bs, i + t)) (Into (Some bd, j + t))) [k..<k + m]))
       \<or> (\<not> succeed (map (move_ctor T) vs) (world s) \<and>
          fst (umove_from T (Some bs, i) (Some bd, j) k m s) = Inl ElementThrew \<and>
          \<not> nothrow_move_constructible T \<and>
          (\<exists>S' D'. alters s (snd (umove_from T (Some bs, i) (Some bd, j) k m s))
                     [(bs, S'), (bd, D')]))"
  using assms
proof (induction m arbitrary: s S D k vs ws)
  case 0
  then have "(heap s)(bs \<mapsto> S, bd \<mapsto> D) = heap s"
    by (auto simp: fun_eq_iff)
  with 0 show ?case
    by (simp add: umove_from_0 returnE_def patch_Nil slice_0 transforms_def alters_def)
next
  case (Suc m)
  from Suc.prems have ik: "i + k < length S" and jk: "j + k < length D" by simp_all
  from Suc.prems ik obtain v vs' where vs: "vs = v # vs'" and v: "S ! (i + k) = Live v"
    and rest: "slice S (i + Suc k) m = map Live vs'"
    by (cases vs) (auto simp: slice_Suc)
  let ?w = "snd (move_ctor T v (world s))"
  show ?case
  proof (cases "fst (move_ctor T v (world s))")
    case False
    with Suc.prems(8) have nt: "\<not> nothrow_move_constructible T"
      by (auto simp: elem_type_ok_def)
    let ?s0 = "s\<lparr>world := ?w\<rparr>"
    have pre: "heap ?s0 bd = Some D" "slice D j k = map Live ws" "j + k \<le> length D"
      using Suc.prems by simp_all
    note d = destroy_n_live[OF pre, of T]
    have eq: "umove_from T (Some bs, i) (Some bd, j) k (Suc m) s =
        (Inl ElementThrew, snd (destroy_n T (Some bd, j) k ?s0))"
      using False Suc.prems(1) ik v d
      by (simp add: umove_from_Suc bindE_def catchE_def move_construct_def ptr_add_def
            load_live attempt_def throwE_def split_beta)
    have "(heap s)(bd \<mapsto> patch D j (replicate k Raw), bs \<mapsto> S) =
          (heap s)(bd \<mapsto> patch D j (replicate k Raw))"
      using Suc.prems(1,3) by (auto simp: fun_eq_iff)
    with d have "alters s (snd (destroy_n T (Some bd, j) k ?s0))
        [(bs, S), (bd, patch D j (replicate k Raw))]"
      by (simp add: transforms_def alters_def)
    with nt False show ?thesis
      unfolding eq by (auto simp: vs)
  next
    case True
    let ?D1 = "D[j + k := Live v]"
    let ?S1 = "S[i + k := Live (moved_from T v)]"
    let ?s1 = "s\<lparr>world := ?w, heap := (heap s)(bd \<mapsto> ?D1, bs \<mapsto> ?S1),
                 trace := trace s @ [MoveCtor (At (Some bs, i + k)) (Into (Some bd, j + k))]\<rparr>"
    have eq: "umove_from T (Some bs, i) (Some bd, j) k (Suc m) s =
        umove_from T (Some bs, i) (Some bd, j) (Suc k) m ?s1"
      using True Suc.prems(1,2,3) ik jk v
      by (simp add: umove_from_Suc bindE_def catchE_def move_construct_def ptr_add_def
            load_live attempt_def place_ok emit_def returnE_def)
    have pre: "heap ?s1 bs = Some ?S1" "heap ?s1 bd = Some ?D1" "bs \<noteq> bd"
      "slice ?S1 (i + Suc k) m = map Live vs'" "i + Suc k + m \<le> length ?S1"
      "j + Suc k + m \<le> length ?D1"
      "slice ?D1 j (Suc k) = map Live (ws @ [v])" "elem_type_ok T"
    proof -
      show "heap ?s1 bs = Some ?S1" "heap ?s1 bd = Some ?D1" "bs \<noteq> bd"
        "i + Suc k + m \<le> length ?S1" "j + Suc k + m \<le> length ?D1" "elem_type_ok T"
        using Suc.prems by simp_all
      show "slice ?S1 (i + Suc k) m = map Live vs'"
        using rest by (simp add: slice_update_before)
      show "slice ?D1 j (Suc k) = map Live (ws @ [v])"
        using Suc.prems(7) jk by (simp add: slice_snoc slice_update_after)
    qed
    have p1: "patch ?D1 (j + Suc k) (map Live vs') = patch D (j + k) (map Live vs)"
      using jk by (simp add: vs patch_update_first)
    have p2: "patch ?S1 (i + Suc k) (map (\<lambda>v. Live (moved_from T v)) vs') =
              patch S (i + k) (map (\<lambda>v. Live (moved_from T v)) vs)"
      using ik by (simp add: vs patch_update_first)
    have tr: "map (\<lambda>t. MoveCtor (At (Some bs, i + t)) (Into (Some bd, j + t))) [k..<k + Suc m]
        = MoveCtor (At (Some bs, i + k)) (Into (Some bd, j + k)) #
          map (\<lambda>t. MoveCtor (At (Some bs, i + t)) (Into (Some bd, j + t))) [Suc k..<Suc k + m]"
      by (simp add: upt_conv_Cons del: upt_Suc)
    have su: "succeed (map (move_ctor T) vs) (world s) = succeed (map (move_ctor T) vs') (world ?s1)"
      using True by (simp add: vs)
    from Suc.IH[OF pre] show ?thesis
      unfolding eq p1 p2 tr su by (auto simp: transforms_def alters_def)
  qed
qed

lemma slice_patch_same:
  "i + length ys \<le> length xs \<Longrightarrow> slice (patch xs i ys) i (length ys) = ys"
  by (simp add: slice_def patch_def)

lemma patch_patch:
  "i + length ys \<le> length xs \<Longrightarrow> length zs = length ys \<Longrightarrow>
   patch (patch xs i ys) i zs = patch xs i zs"
  by (simp add: patch_def)

lemma CopyOrMove_spec:
  assumes "heap s bs = Some S" "heap s bd = Some D" "bs \<noteq> bd"
    "slice S i n = map Live vs" "i + n \<le> length S" "j + n \<le> length D"
    "slice D j n = replicate n Raw" "elem_type_ok T"
  shows "(succeed (map (relocation_ctor T) vs) (world s) \<and>
          fst (CopyOrMove T (Some bs, i) (Some bd, j) n s) = Inr () \<and>
          transforms s (snd (CopyOrMove T (Some bs, i) (Some bd, j) n s))
            [(bs, patch S i (replicate n Raw)), (bd, patch D j (map Live vs))]
            (relocations T bs i bd j n @ map (\<lambda>t. Dtor (Into (Some bs, i + t))) [0..<n]))
       \<or> (\<not> succeed (map (relocation_ctor T) vs) (world s) \<and>
          fst (CopyOrMove T (Some bs, i) (Some bd, j) n s) = Inl ElementThrew \<and>
          \<not> nothrow_move_constructible T \<and>
          (\<exists>S' D'. alters s (snd (CopyOrMove T (Some bs, i) (Some bd, j) n s))
                     [(bs, S'), (bd, D')]) \<and>
          (copy_constructible T \<longrightarrow>
             heap (snd (CopyOrMove T (Some bs, i) (Some bd, j) n s)) = heap s))"
proof -
  have len: "length vs = n"
    using assms(4,5) by (metis length_map length_slice)
  show ?thesis
  proof (cases "nothrow_move_constructible T \<or> \<not> copy_constructible T")
    case True
    let ?m = "umove_from T (Some bs, i) (Some bd, j) 0 n"
    have com: "CopyOrMove T (Some bs, i) (Some bd, j) n s =
        bindE ?m (\<lambda>_. destroy_n T (Some bs, i) n) s"
      using True by (simp add: CopyOrMove_def uninitialized_move_n_def umove_from_def)
    have rc: "relocation_ctor T = move_ctor T" using True by (simp add: relocation_ctor_def)
    have sp: "(succeed (map (move_ctor T) vs) (world s) \<and> fst (?m s) = Inr () \<and>
          transforms s (snd (?m s))
            [(bd, patch D j (map Live vs)),
             (bs, patch S i (map (\<lambda>v. Live (moved_from T v)) vs))]
            (map (\<lambda>t. MoveCtor (At (Some bs, i + t)) (Into (Some bd, j + t))) [0..<n]))
       \<or> (\<not> succeed (map (move_ctor T) vs) (world s) \<and>
          fst (?m s) = Inl ElementThrew \<and> \<not> nothrow_move_constructible T \<and>
          (\<exists>S' D'. alters s (snd (?m s)) [(bs, S'), (bd, D')]))"
      using umove_from_spec[of s bs S bd D i 0 n vs j "[]" T] assms
      by (simp add: slice_0)
    obtain r1 s1 where run: "?m s = (r1, s1)" by (cases "?m s")
    from sp show ?thesis
    proof
      assume ok: "succeed (map (move_ctor T) vs) (world s) \<and> fst (?m s) = Inr () \<and>
          transforms s (snd (?m s))
            [(bd, patch D j (map Live vs)),
             (bs, patch S i (map (\<lambda>v. Live (moved_from T v)) vs))]
            (map (\<lambda>t. MoveCtor (At (Some bs, i + t)) (Into (Some bd, j + t))) [0..<n])"
      with run have r1: "r1 = Inr ()" and
        t1: "transforms s s1 [(bd, patch D j (map Live vs)),
             (bs, patch S i (map (\<lambda>v. Live (moved_from T v)) vs))]
            (map (\<lambda>t. MoveCtor (At (Some bs, i + t)) (Into (Some bd, j + t))) [0..<n])"
        by simp_all
      let ?S1 = "patch S i (map (\<lambda>v. Live (moved_from T v)) vs)"
      have pre: "heap s1 bs = Some ?S1" "slice ?S1 i n = map Live (map (moved_from T) vs)"
        "i + n \<le> length ?S1"
        using t1 assms(3,5) len slice_patch_same[of i "map (\<lambda>v. Live (moved_from T v)) vs" S]
        by (simp_all add: transforms_def alters_def length_patch comp_def)
      note d = destroy_n_live[OF pre, of T]
      have eq: "CopyOrMove T (Some bs, i) (Some bd, j) n s = destroy_n T (Some bs, i) n s1"
        by (simp add: com bindE_def run r1)
      have pp: "patch ?S1 i (replicate n Raw) = patch S i (replicate n Raw)"
        using assms(5) len by (simp add: patch_patch)
      have "transforms s (snd (destroy_n T (Some bs, i) n s1))
            ([(bs, patch ?S1 i (replicate n Raw))] @ [(bd, patch D j (map Live vs)),
             (bs, patch S i (map (\<lambda>v. Live (moved_from T v)) vs))])
            (map (\<lambda>t. MoveCtor (At (Some bs, i + t)) (Into (Some bd, j + t))) [0..<n] @
             map (\<lambda>t. Dtor (Into (Some bs, i + t))) [0..<n])"
        using t1 d by (blast intro: transforms_trans)
      then have "transforms s (snd (destroy_n T (Some bs, i) n s1))
            [(bs, patch S i (replicate n Raw)), (bd, patch D j (map Live vs))]
            (relocations T bs i bd j n @ map (\<lambda>t. Dtor (Into (Some bs, i + t))) [0..<n])"
        using True assms(3) unfolding pp
        by (simp add: transforms_def alters_def relocations_def fun_upd_twist)
      with d ok show ?thesis unfolding eq rc by simp
    next
      assume bad: "\<not> succeed (map (move_ctor T) vs) (world s) \<and>
          fst (?m s) = Inl ElementThrew \<and> \<not> nothrow_move_constructible T \<and>
          (\<exists>S' D'. alters s (snd (?m s)) [(bs, S'), (bd, D')])"
      with run have eq: "CopyOrMove T (Some bs, i) (Some bd, j) n s = (Inl ElementThrew, s1)"
        by (simp add: com bindE_def)
      from bad run True show ?thesis unfolding eq rc by simp
    qed
  next
    case False
    let ?m = "ucopy_from T (Some bs, i) (Some bd, j) 0 n"
    have com: "CopyOrMove T (Some bs, i) (Some bd, j) n s =
        bindE ?m (\<lambda>_. destroy_n T (Some bs, i) n) s"
      using False by (simp add: CopyOrMove_def uninitialized_copy_n_def ucopy_from_def)
    have rc: "relocation_ctor T = copy_ctor T" using False by (simp add: relocation_ctor_def)
    have sp: "(succeed (map (copy_ctor T) vs) (world s) \<and> fst (?m s) = Inr () \<and>
          transforms s (snd (?m s)) [(bd, patch D j (map Live vs))]
            (map (\<lambda>t. CopyCtor (At (Some bs, i + t)) (Into (Some bd, j + t))) [0..<n]))
       \<or> (\<not> succeed (map (copy_ctor T) vs) (world s) \<and> fst (?m s) = Inl ElementThrew \<and>
          alters s (snd (?m s)) [(bd, patch D j (replicate n Raw))])"
      using ucopy_from_spec[of s bs S bd D i 0 n vs j "[]" T] assms
      by (simp add: slice_0)
    obtain r1 s1 where run: "?m s = (r1, s1)" by (cases "?m s")
    from sp show ?thesis
    proof
      assume ok: "succeed (map (copy_ctor T) vs) (world s) \<and> fst (?m s) = Inr () \<and>
          transforms s (snd (?m s)) [(bd, patch D j (map Live vs))]
            (map (\<lambda>t. CopyCtor (At (Some bs, i + t)) (Into (Some bd, j + t))) [0..<n])"
      with run have r1: "r1 = Inr ()" and
        t1: "transforms s s1 [(bd, patch D j (map Live vs))]
            (map (\<lambda>t. CopyCtor (At (Some bs, i + t)) (Into (Some bd, j + t))) [0..<n])"
        by simp_all
      have pre: "heap s1 bs = Some S" "slice S i n = map Live vs" "i + n \<le> length S"
        using t1 assms(1,3,4,5) by (simp_all add: transforms_def alters_def)
      note d = destroy_n_live[OF pre, of T]
      have eq: "CopyOrMove T (Some bs, i) (Some bd, j) n s = destroy_n T (Some bs, i) n s1"
        by (simp add: com bindE_def run r1)
      have "transforms s (snd (destroy_n T (Some bs, i) n s1))
            ([(bs, patch S i (replicate n Raw))] @ [(bd, patch D j (map Live vs))])
            (map (\<lambda>t. CopyCtor (At (Some bs, i + t)) (Into (Some bd, j + t))) [0..<n] @
             map (\<lambda>t. Dtor (Into (Some bs, i + t))) [0..<n])"
        using t1 d by (blast intro: transforms_trans)
      then have "transforms s (snd (destroy_n T (Some bs, i) n s1))
            [(bs, patch S i (replicate n Raw)), (bd, patch D j (map Live vs))]
            (relocations T bs i bd j n @ map (\<lambda>t. Dtor (Into (Some bs, i + t))) [0..<n])"
        using False by (simp add: relocations_def)
      with d ok show ?thesis unfolding eq rc by simp
    next
      assume bad: "\<not> succeed (map (copy_ctor T) vs) (world s) \<and> fst (?m s) = Inl ElementThrew \<and>
          alters s (snd (?m s)) [(bd, patch D j (replicate n Raw))]"
      with run have eq: "CopyOrMove T (Some bs, i) (Some bd, j) n s = (Inl ElementThrew, s1)"
        by (simp add: com bindE_def)
      have pd: "patch D j (replicate n Raw) = D"
        using assms(6,7) by (intro patch_eq_self) simp_all
      have hd: "(heap s)(bd \<mapsto> D) = heap s"
        using assms(2) by (simp add: fun_upd_idem)
      have hs: "(heap s)(bs \<mapsto> S) = heap s"
        using assms(1) by (simp add: fun_upd_idem)
      have h1: "heap s1 = heap s"
        using bad run pd hd by (simp add: alters_def)
      have "alters s s1 [(bs, S), (bd, D)]"
        using bad run pd by (simp add: alters_def hd hs)
      moreover note h1
      ultimately show ?thesis
        using False bad unfolding eq rc by auto
    qed
  qed
qed

section \<open>Programs that leave the object store alone\<close>

named_theorems quiet_intros

lemma quiet_returnE [quiet_intros]: "quiet (returnE x)"
  by (simp add: quiet_def returnE_def)

lemma quiet_throwE [quiet_intros]: "quiet (throwE e)"
  by (simp add: quiet_def throwE_def)

lemma quiet_bindE [quiet_intros]:
  "quiet m \<Longrightarrow> (\<And>x. quiet (f x)) \<Longrightarrow> quiet (bindE m f)"
  by (auto simp: quiet_def bindE_def split: prod.splits sum.splits)
     (metis snd_conv)+

lemma quiet_catchE [quiet_intros]: "quiet m \<Longrightarrow> (\<And>e. quiet (h e)) \<Longrightarrow> quiet (catchE m h)"
  by (auto simp: quiet_def catchE_def split: prod.splits sum.splits error.splits)
     (metis snd_conv)+

lemma quiet_on_unwind [quiet_intros]: "quiet m \<Longrightarrow> quiet d \<Longrightarrow> quiet (on_unwind m d)"
  unfolding on_unwind_def by (intro quiet_intros)

lemma quiet_if [quiet_intros]: "quiet a \<Longrightarrow> quiet b \<Longrightarrow> quiet (if c then a else b)"
  by simp

lemma quiet_emit [quiet_intros]: "quiet (emit e)"
  by (simp add: quiet_def emit_def)

lemma quiet_attempt [quiet_intros]: "quiet (attempt f)"
  by (simp add: quiet_def attempt_def)

lemma quiet_effect [quiet_intros]: "quiet (effect f)"
  by (simp add: quiet_def effect_def)

lemma quiet_load [quiet_intros]: "quiet (load p)"
  by (simp add: quiet_def load_def split: option.splits slot.splits)

lemma quiet_place [quiet_intros]: "quiet (place p x)"
  by (simp add: quiet_def place_def split: option.splits)

lemma quiet_fetch [quiet_intros]: "quiet (fetch src)"
  by (cases src) (simp_all add: quiet_intros)

lemma quiet_settle [quiet_intros]: "quiet (settle tgt v)"
  by (cases tgt) (simp_all add: quiet_intros)

lemma quiet_abandon [quiet_intros]: "quiet (abandon T src v)"
  by (cases src) (simp_all add: quiet_intros)

lemma quiet_value_construct [quiet_intros]: "quiet (value_construct T tgt)"
  unfolding value_construct_def by (intro quiet_intros)

lemma quiet_copy_construct [quiet_intros]: "quiet (copy_construct T tgt src)"
  unfolding copy_construct_def by (intro quiet_intros)

lemma quiet_move_construct [quiet_intros]: "quiet (move_construct T tgt src)"
  unfolding move_construct_def by (intro quiet_intros)

lemma quiet_copy_assign [quiet_intros]: "quiet (copy_assign T dst src)"
  unfolding copy_assign_def by (intro quiet_intros)

lemma quiet_move_assign [quiet_intros]: "quiet (move_assign T dst src)"
  unfolding move_assign_def by (intro quiet_intros)

lemma quiet_destroy_at [quiet_intros]: "quiet (destroy_at T p)"
  unfolding destroy_at_def by (intro quiet_intros)

lemma quiet_destroy_local [quiet_intros]: "quiet (destroy_local T v)"
  unfolding destroy_local_def by (intro quiet_intros)

lemma quiet_construct [quiet_intros]: "quiet (construct T tgt a)"
  by (cases a) (simp_all add: quiet_intros)

lemma quiet_destroy_n [quiet_intros]: "quiet (destroy_n T p n)"
  by (induction n arbitrary: p) (simp_all add: quiet_intros)

lemma quiet_uninitialized_n [quiet_intros]:
  "(\<And>k. quiet (step k)) \<Longrightarrow> quiet (uninitialized_n T step d k m)"
  by (induction m arbitrary: k) (simp_all add: quiet_intros)

lemma quiet_uninitialized_value_construct_n [quiet_intros]:
  "quiet (uninitialized_value_construct_n T p n)"
  unfolding uninitialized_value_construct_n_def by (intro quiet_intros)

lemma quiet_uninitialized_copy_n [quiet_intros]: "quiet (uninitialized_copy_n T p n d)"
  unfolding uninitialized_copy_n_def by (intro quiet_intros)

lemma quiet_uninitialized_move_n [quiet_intros]: "quiet (uninitialized_move_n T p n d)"
  unfolding uninitialized_move_n_def by (intro quiet_intros)

lemma quiet_move_backward_n [quiet_intros]: "quiet (move_backward_n T first n d_last)"
  by (induction n arbitrary: d_last) (simp_all add: quiet_intros)

lemma quiet_move_backward [quiet_intros]: "quiet (move_backward T first lst d_last)"
  unfolding move_backward_def by (intro quiet_intros)

lemma quiet_move_n [quiet_intros]: "quiet (move_n T first n d_first)"
  by (induction n arbitrary: first d_first) (simp_all add: quiet_intros)

lemma quiet_move_range [quiet_intros]: "quiet (move_range T first lst d_first)"
  unfolding move_range_def by (intro quiet_intros)

lemma quiet_copy_assign_n [quiet_intros]: "quiet (copy_assign_n T dst src n)"
  by (induction n arbitrary: dst src) (simp_all add: quiet_intros)

lemma quiet_CopyOrMove [quiet_intros]: "quiet (CopyOrMove T from to n)"
  unfolding CopyOrMove_def by (intro quiet_intros)

named_theorems keeps_intros

lemma keeps_vecs_quiet: "quiet m \<Longrightarrow> keeps_vecs m"
  by (simp add: quiet_def keeps_vecs_def)

lemma keeps_returnE [keeps_intros]: "keeps_vecs (returnE x)"
  by (simp add: keeps_vecs_def returnE_def)

lemma keeps_throwE [keeps_intros]: "keeps_vecs (throwE e)"
  by (simp add: keeps_vecs_def throwE_def)

lemma keeps_bindE [keeps_intros]:
  "keeps_vecs m \<Longrightarrow> (\<And>x. keeps_vecs (f x)) \<Longrightarrow> keeps_vecs (bindE m f)"
  by (auto simp: keeps_vecs_def bindE_def split: prod.splits sum.splits)
     (metis snd_conv)+

lemma keeps_catchE [keeps_intros]:
  "keeps_vecs m \<Longrightarrow> (\<And>e. keeps_vecs (h e)) \<Longrightarrow> keeps_vecs (catchE m h)"
  by (auto simp: keeps_vecs_def catchE_def split: prod.splits sum.splits error.splits)
     (metis snd_conv)+

lemma keeps_on_unwind [keeps_intros]:
  "keeps_vecs m \<Longrightarrow> keeps_vecs d \<Longrightarrow> keeps_vecs (on_unwind m d)"
  unfolding on_unwind_def by (intro keeps_intros)

lemma keeps_if [keeps_intros]:
  "keeps_vecs a \<Longrightarrow> keeps_vecs b \<Longrightarrow> keeps_vecs (if c then a else b)"
  by simp

lemma keeps_Allocate [keeps_intros]: "keeps_vecs (Allocate T n)"
  by (simp add: keeps_vecs_def Allocate_def operator_new_def returnE_def)

lemma keeps_Deallocate [keeps_intros]: "keeps_vecs (Deallocate buf)"
  by (simp add: keeps_vecs_def Deallocate_def split: option.splits)

lemma keeps_RawMemory_ctor [keeps_intros]: "keeps_vecs (RawMemory_ctor T n)"
  unfolding RawMemory_ctor_def by (intro keeps_intros)

lemma keeps_RawMemory_dtor [keeps_intros]: "keeps_vecs (RawMemory_dtor m)"
  unfolding RawMemory_dtor_def by (intro keeps_intros)

lemma keeps_destroy_n [keeps_intros]: "keeps_vecs (destroy_n T p n)"
  by (intro keeps_vecs_quiet quiet_intros)

lemma keeps_destroy_at [keeps_intros]: "keeps_vecs (destroy_at T p)"
  by (intro keeps_vecs_quiet quiet_intros)

lemma keeps_construct [keeps_intros]: "keeps_vecs (construct T tgt a)"
  by (intro keeps_vecs_quiet quiet_intros)

lemma keeps_CopyOrMove [keeps_intros]: "keeps_vecs (CopyOrMove T from to n)"
  by (intro keeps_vecs_quiet quiet_intros)

lemma keeps_uninitialized_copy_n [keeps_intros]: "keeps_vecs (uninitialized_copy_n T p n d)"
  by (intro keeps_vecs_quiet quiet_intros)

lemma keeps_uninitialized_value_construct_n [keeps_intros]:
  "keeps_vecs (uninitialized_value_construct_n T p n)"
  by (intro keeps_vecs_quiet quiet_intros)

lemma keeps_copy_assign_n [keeps_intros]: "keeps_vecs (copy_assign_n T dst src n)"
  by (intro keeps_vecs_quiet quiet_intros)

lemma keeps_move_range [keeps_intros]: "keeps_vecs (move_range T first lst d_first)"
  by (intro keeps_vecs_quiet quiet_intros)

lemma keeps_Vector_sized_value [keeps_intros]: "keeps_vecs (Vector_sized_value T n)"
  unfolding Vector_sized_value_def by (intro keeps_intros)

lemma keeps_Vector_copy_value [keeps_intros]: "keeps_vecs (Vector_copy_value T v)"
  unfolding Vector_copy_value_def by (intro keeps_intros)

lemma keeps_Vector_dtor_value [keeps_intros]: "keeps_vecs (Vector_dtor_value T v)"
  unfolding Vector_dtor_value_def by (intro keeps_intros)

lemma keeps_vecsD: "keeps_vecs m \<Longrightarrow> vecs (snd (m s)) = vecs s"
  by (simp add: keeps_vecs_def)

lemma quietD:
  "quiet m \<Longrightarrow> vecs (snd (m s)) = vecs s \<and> next_block (snd (m s)) = next_block s"
  by (simp add: quiet_def)

section \<open>The effect of each operation on the object store\<close>

lemma bindE_alt:
  "bindE m f s = (case fst (m s) of Inl e \<Rightarrow> (Inl e, snd (m s)) | Inr x \<Rightarrow> f x (snd (m s)))"
  by (simp add: bindE_def split: prod.splits sum.splits)

lemma snd_get_vec [simp]: "snd (get_vec this s) = s"
  by (simp add: get_vec_def split: option.splits)

lemma fst_get_vec:
  "fst (get_vec this s) = (case vecs s this of None \<Rightarrow> Inl Undefined | Some v \<Rightarrow> Inr v)"
  by (simp add: get_vec_def split: option.splits)

lemma vecs_put_vec [simp]: "vecs (snd (put_vec this v s)) = (vecs s)(this \<mapsto> v)"
  by (simp add: put_vec_def)

lemma fst_put_vec [simp]: "fst (put_vec this v s) = Inr ()"
  by (simp add: put_vec_def)

lemma vecs_drop_vec [simp]: "vecs (snd (drop_vec this s)) = (vecs s)(this := None)"
  by (simp add: drop_vec_def)

lemma fst_RawMemory_ctor:
  "fst (RawMemory_ctor T n s) =
     (if n \<noteq> 0 \<and> store_limit s < size_t_mul n (size_of T) then Inl BadAlloc
      else Inr \<lparr>rm_buffer = (if n \<noteq> 0 then Some (next_block s) else None),
                rm_capacity = n\<rparr>)"
  by (simp add: RawMemory_ctor_def Allocate_def operator_new_def bindE_def returnE_def)

lemma vecs_RawMemory_ctor [simp]: "vecs (snd (RawMemory_ctor T n s)) = vecs s"
  by (intro keeps_vecsD keeps_intros)

lemma vecs_RawMemory_dtor [simp]: "vecs (snd (RawMemory_dtor m s)) = vecs s"
  by (intro keeps_vecsD keeps_intros)

lemma vecs_destroy_n [simp]: "vecs (snd (destroy_n T p n s)) = vecs s"
  by (intro keeps_vecsD keeps_intros)

lemma Reserve_vecs:
  assumes "vecs s this = Some v"
  shows "(\<exists>d. vecs (snd (Reserve T this k s)) = (vecs s)(this \<mapsto> v\<lparr>v_data := d\<rparr>) \<and>
               k \<le> rm_capacity d \<and> rm_capacity (v_data v) \<le> rm_capacity d)
       \<or> (fst (Reserve T this k s) \<noteq> Inr () \<and> vecs (snd (Reserve T this k s)) = vecs s)"
proof -
  have k1: "\<And>a b n d s. vecs (snd (on_unwind (CopyOrMove T a b n) (RawMemory_dtor d) s)) = vecs s"
    by (intro keeps_vecsD keeps_intros)
  show ?thesis
  proof (cases "k \<le> rm_capacity (v_data v)")
    case True
    have "(vecs s)(this \<mapsto> v\<lparr>v_data := v_data v\<rparr>) = vecs s"
      using assms by (simp add: fun_upd_idem)
    with True assms show ?thesis
      by (auto simp: Reserve_def bindE_alt fst_get_vec returnE_def Capacity_rm_def
            intro!: exI[of _ "v_data v"])
  next
    case False
    with assms show ?thesis
      by (auto simp: Reserve_def bindE_alt fst_get_vec returnE_def Capacity_rm_def
            fst_RawMemory_ctor k1 split: sum.splits)
  qed
qed


lemma vecs_construct [simp]: "vecs (snd (construct T tgt a s)) = vecs s"
  by (intro keeps_vecsD keeps_intros)

lemma vecs_CopyOrMove [simp]: "vecs (snd (CopyOrMove T a b n s)) = vecs s"
  by (intro keeps_vecsD keeps_intros)

lemma vecs_uninitialized_copy_n [simp]: "vecs (snd (uninitialized_copy_n T p n d s)) = vecs s"
  by (intro keeps_vecsD keeps_intros)

lemma vecs_uninitialized_value_construct_n [simp]:
  "vecs (snd (uninitialized_value_construct_n T p n s)) = vecs s"
  by (intro keeps_vecsD keeps_intros)

lemma vecs_copy_assign_n [simp]: "vecs (snd (copy_assign_n T d p n s)) = vecs s"
  by (intro keeps_vecsD keeps_intros)

lemma vecs_move_range [simp]: "vecs (snd (move_range T a b c s)) = vecs s"
  by (intro keeps_vecsD keeps_intros)

lemma vecs_Vector_dtor_value [simp]: "vecs (snd (Vector_dtor_value T v s)) = vecs s"
  by (intro keeps_vecsD keeps_intros)

lemma vecs_Vector_copy_value [simp]: "vecs (snd (Vector_copy_value T v s)) = vecs s"
  by (intro keeps_vecsD keeps_intros)

lemma vecs_Vector_sized_value [simp]: "vecs (snd (Vector_sized_value T n s)) = vecs s"
  by (intro keeps_vecsD keeps_intros)

lemma Vector_sized_value_result:
  "fst (Vector_sized_value T n s) = Inr v \<Longrightarrow> v_size v = n \<and> rm_capacity (v_data v) = n"
  by (auto simp: Vector_sized_value_def bindE_alt fst_RawMemory_ctor returnE_def
        split: sum.splits if_splits)

lemma Vector_copy_value_result:
  "fst (Vector_copy_value T ov s) = Inr v \<Longrightarrow>
   v_size v = v_size ov \<and> rm_capacity (v_data v) = v_size ov"
  by (auto simp: Vector_copy_value_def bindE_alt fst_RawMemory_ctor returnE_def
        split: sum.splits if_splits)

lemma inv_Vector_default:
  "size_le_capacity s \<Longrightarrow> size_le_capacity (snd (Vector_default this s))"
  by (auto simp: size_le_capacity_def Vector_default_def RawMemory_default_def)

lemma inv_Vector_sized:
  "size_le_capacity s \<Longrightarrow> size_le_capacity (snd (Vector_sized T this n s))"
  by (auto simp: size_le_capacity_def Vector_sized_def bindE_alt
        dest: Vector_sized_value_result split: sum.splits)

lemma inv_Vector_copy:
  "size_le_capacity s \<Longrightarrow> size_le_capacity (snd (Vector_copy T this other s))"
  by (auto simp: size_le_capacity_def Vector_copy_def bindE_alt fst_get_vec
        dest: Vector_copy_value_result split: sum.splits option.splits)

lemma inv_Vector_move:
  "size_le_capacity s \<Longrightarrow> size_le_capacity (snd (Vector_move this other s))"
  by (auto simp: size_le_capacity_def Vector_move_def bindE_alt fst_get_vec
        RawMemory_default_def split: sum.splits option.splits)

lemma inv_Vector_dtor:
  "size_le_capacity s \<Longrightarrow> size_le_capacity (snd (Vector_dtor T this s))"
  by (auto simp: size_le_capacity_def Vector_dtor_def bindE_alt fst_get_vec
        split: sum.splits option.splits)

lemma inv_Swap:
  "size_le_capacity s \<Longrightarrow> size_le_capacity (snd (Swap this other s))"
  by (auto simp: size_le_capacity_def Swap_def bindE_alt fst_get_vec
        split: sum.splits option.splits)

lemma inv_assign_move:
  "size_le_capacity s \<Longrightarrow> size_le_capacity (snd (assign_move this rhs s))"
  by (auto simp: size_le_capacity_def assign_move_def bindE_alt fst_get_vec returnE_def
        RawMemory_default_def split: sum.splits option.splits if_splits)

lemma inv_PopBack:
  "size_le_capacity s \<Longrightarrow> size_le_capacity (snd (PopBack T this s))"
  by (fastforce simp: size_le_capacity_def PopBack_def bindE_alt fst_get_vec returnE_def
        simp del: destroy_n.simps split: sum.splits option.splits if_splits)

lemma inv_Reserve:
  "size_le_capacity s \<Longrightarrow> size_le_capacity (snd (Reserve T this k s))"
proof (cases "vecs s this")
  case None
  then show "size_le_capacity s \<Longrightarrow> ?thesis"
    by (simp add: Reserve_def bindE_alt fst_get_vec)
next
  case (Some v)
  assume "size_le_capacity s"
  with Reserve_vecs[OF Some, of T k] Some show ?thesis
    by (fastforce simp: size_le_capacity_def split: if_splits)
qed


lemma EmplaceBack_vecs:
  assumes "vecs s this = Some v"
  shows "\<exists>d. rm_capacity d =
               (if v_size v = rm_capacity (v_data v)
                then (if v_size v = 0 then 1 else v_size v * 2)
                else rm_capacity (v_data v)) \<and>
             (vecs (snd (EmplaceBack T this a s)) =
                (vecs s)(this \<mapsto> \<lparr>v_data = d, v_size = v_size v + 1\<rparr>) \<or>
              (\<forall>p. fst (EmplaceBack T this a s) \<noteq> Inr p) \<and>
              (vecs (snd (EmplaceBack T this a s)) = (vecs s)(this \<mapsto> v\<lparr>v_data := d\<rparr>) \<or>
               vecs (snd (EmplaceBack T this a s)) = vecs s))"
proof (cases "v_size v = rm_capacity (v_data v)")
  case True
  define c where "c = (if v_size v = 0 then 1 else v_size v * 2)"
  define d where "d = \<lparr>rm_buffer = Some (next_block s), rm_capacity = c\<rparr>"
  have c0: "c \<noteq> 0" by (simp add: c_def)
  have k1: "\<And>tgt b c n d s.
      vecs (snd (on_unwind (bindE (construct T tgt a) (\<lambda>_. CopyOrMove T b c n))
                   (RawMemory_dtor d) s)) = vecs s"
    by (intro keeps_vecsD keeps_intros)
  have e: "v\<lparr>v_data := d, v_size := Suc (v_size v)\<rparr> = \<lparr>v_data = d, v_size = Suc (v_size v)\<rparr>"
    by simp
  have eq: "EmplaceBack T this a s =
     bindE (bindE (RawMemory_ctor T c) (\<lambda>new_data.
              bindE (on_unwind
                       (bindE (construct T (Into (rm_plus new_data (v_size v))) a) (\<lambda>_.
                        CopyOrMove T (GetAddress (v_data v)) (GetAddress new_data) (v_size v)))
                       (RawMemory_dtor new_data)) (\<lambda>_.
              bindE (put_vec this (v\<lparr>v_data := new_data\<rparr>)) (\<lambda>_.
              bindE (RawMemory_dtor (v_data v)) (\<lambda>_.
              returnE (rm_plus new_data (v_size v))))))) (\<lambda>elem.
     bindE (get_vec this) (\<lambda>v'.
     bindE (put_vec this (v'\<lparr>v_size := v_size v' + 1\<rparr>)) (\<lambda>_.
     returnE elem))) s"
    using True assms by (simp add: EmplaceBack_def bindE_def get_vec_def Capacity_rm_def c_def)
  have "vecs (snd (EmplaceBack T this a s)) =
                (vecs s)(this \<mapsto> \<lparr>v_data = d, v_size = v_size v + 1\<rparr>) \<or>
              (\<forall>p. fst (EmplaceBack T this a s) \<noteq> Inr p) \<and>
              (vecs (snd (EmplaceBack T this a s)) = (vecs s)(this \<mapsto> v\<lparr>v_data := d\<rparr>) \<or>
               vecs (snd (EmplaceBack T this a s)) = vecs s)"
    unfolding eq using c0
    by (simp add: bindE_alt fst_get_vec returnE_def fst_RawMemory_ctor k1
          d_def[symmetric] e split: sum.splits)
  moreover have "rm_capacity d = (if v_size v = rm_capacity (v_data v)
                then (if v_size v = 0 then 1 else v_size v * 2)
                else rm_capacity (v_data v))"
    using True by (simp add: d_def c_def)
  ultimately show ?thesis by blast
next
  case False
  have e: "v\<lparr>v_size := Suc (v_size v)\<rparr> = \<lparr>v_data = v_data v, v_size = Suc (v_size v)\<rparr>"
    by simp
  have "vecs (snd (EmplaceBack T this a s)) =
                (vecs s)(this \<mapsto> \<lparr>v_data = v_data v, v_size = v_size v + 1\<rparr>) \<or>
              (\<forall>p. fst (EmplaceBack T this a s) \<noteq> Inr p) \<and>
               vecs (snd (EmplaceBack T this a s)) = vecs s"
    using False assms
    by (simp add: EmplaceBack_def bindE_alt fst_get_vec returnE_def Capacity_rm_def e
          split: sum.splits)
  with False show ?thesis by (intro exI[of _ "v_data v"]) auto
qed

lemma inv_EmplaceBack:
  "size_le_capacity s \<Longrightarrow> size_le_capacity (snd (EmplaceBack T this a s))"
proof (cases "vecs s this")
  case None
  then show "size_le_capacity s \<Longrightarrow> ?thesis"
    by (simp add: EmplaceBack_def bindE_alt fst_get_vec)
next
  case (Some v)
  assume inv: "size_le_capacity s"
  then have "v_size v \<le> rm_capacity (v_data v)"
    using Some by (simp add: size_le_capacity_def)
  with EmplaceBack_vecs[OF Some, of T a] inv show ?thesis
    by (fastforce simp: size_le_capacity_def split: if_splits)
qed


lemma inv_Resize:
  "size_le_capacity s \<Longrightarrow> size_le_capacity (snd (Resize T this n s))"
proof (cases "vecs s this")
  case None
  then show "size_le_capacity s \<Longrightarrow> ?thesis"
    by (simp add: Resize_def bindE_alt fst_get_vec)
next
  case (Some v)
  assume inv: "size_le_capacity s"
  then have sz: "v_size v \<le> rm_capacity (v_data v)"
    using Some by (simp add: size_le_capacity_def)
  consider "n = v_size v" | "n < v_size v" | "v_size v < n" by linarith
  then show ?thesis
  proof cases
    case 1
    with Some inv show ?thesis
      by (simp add: Resize_def bindE_alt fst_get_vec returnE_def)
  next
    case 2
    with Some inv sz show ?thesis
      by (fastforce simp: Resize_def bindE_alt fst_get_vec size_le_capacity_def
            split: sum.splits)
  next
    case 3
    from Reserve_vecs[OF Some, of T n] 3 Some inv sz show ?thesis
      by (fastforce simp: Resize_def bindE_alt fst_get_vec size_le_capacity_def
            split: sum.splits if_splits)
  qed
qed

lemma inv_Erase:
  "size_le_capacity s \<Longrightarrow> size_le_capacity (snd (Erase T this pos s))"
proof -
  assume inv: "size_le_capacity s"
  have a: "\<And>s. size_le_capacity s \<Longrightarrow>
      size_le_capacity (snd (bindE (PopBack T this) (\<lambda>_.
         bindE (get_vec this) (\<lambda>v'. returnE (end_ptr v'))) s))"
    using inv_PopBack[of _ T this]
    by (auto simp: bindE_alt fst_get_vec returnE_def split: sum.splits option.splits)
  have b: "\<And>s i. size_le_capacity s \<Longrightarrow>
      size_le_capacity (snd (bindE (PopBack T this) (\<lambda>_.
         bindE (get_vec this) (\<lambda>v'. returnE (rm_plus (v_data v') i))) s))"
    using inv_PopBack[of _ T this]
    by (auto simp: bindE_alt fst_get_vec returnE_def split: sum.splits option.splits)
  have c: "\<And>a b c s. size_le_capacity s \<Longrightarrow> size_le_capacity (snd (move_range T a b c s))"
    by (simp add: size_le_capacity_def)
  show ?thesis
    using inv a b c
    by (auto simp: Erase_def bindE_alt[of "get_vec this"] bindE_alt[of "move_range T a b c" for a b c]
          fst_get_vec throwE_def Let_def split: sum.splits option.splits)
qed


lemma inv_bump_size:
  assumes "size_le_capacity s" "vecs s this = Some v" "v_size v + 1 \<le> rm_capacity (v_data v)"
  shows "size_le_capacity (snd (bindE (get_vec this) (\<lambda>v'.
           bindE (put_vec this (v'\<lparr>v_size := v_size v' + 1\<rparr>)) (\<lambda>_.
           returnE (g v'))) s))"
  using assms
  by (auto simp: bindE_alt fst_get_vec returnE_def size_le_capacity_def)

lemma inv_vecs_same: "size_le_capacity s \<Longrightarrow> vecs s' = vecs s \<Longrightarrow> size_le_capacity s'"
  by (simp add: size_le_capacity_def)

lemma inv_Emplace:
  "size_le_capacity s \<Longrightarrow> size_le_capacity (snd (Emplace T this pos a s))"
proof (cases "vecs s this")
  case None
  then show "size_le_capacity s \<Longrightarrow> ?thesis"
    by (simp add: Emplace_def bindE_alt fst_get_vec)
next
  case (Some v)
  assume inv: "size_le_capacity s"
  then have sz: "v_size v \<le> rm_capacity (v_data v)"
    using Some by (simp add: size_le_capacity_def)
  define index where "index = snd pos - snd (begin_ptr v)"
  define c where "c = (if v_size v = 0 then 1 else v_size v * 2)"
  define d where "d = \<lparr>rm_buffer = Some (next_block s), rm_capacity = c\<rparr>"
  have c0: "c \<noteq> 0" and cs: "v_size v < c" by (simp_all add: c_def)
  consider "\<not> valid_pos v pos" | "valid_pos v pos" "pos = end_ptr v"
    | "valid_pos v pos" "pos \<noteq> end_ptr v" "v_size v \<noteq> rm_capacity (v_data v)"
    | "valid_pos v pos" "pos \<noteq> end_ptr v" "v_size v = rm_capacity (v_data v)"
    by blast
  then show ?thesis
  proof cases
    case 1
    with Some inv show ?thesis
      by (simp add: Emplace_def bindE_def get_vec_def throwE_def)
  next
    case 2
    with Some inv_EmplaceBack[OF inv, of T this a] show ?thesis
      by (simp add: Emplace_def bindE_def get_vec_def)
  next
    case 3
    let ?body = "bindE (construct T Local a) (\<lambda>tmp.
                 bindE (on_unwind
                          (bindE (move_construct T (Into (end_ptr v))
                                    (At (rm_plus (v_data v) (v_size v - 1)))) (\<lambda>_.
                           bindE (move_backward T (rm_plus (v_data v) index)
                                    (rm_plus (v_data v) (v_size v - 1)) (end_ptr v)) (\<lambda>_.
                           move_assign T (rm_plus (v_data v) index) (Val tmp))))
                          (destroy_local T tmp)) (\<lambda>_.
                 destroy_local T (moved_from T tmp)))"
    have q: "quiet ?body" by (intro quiet_intros)
    have eq: "Emplace T this pos a s =
        bindE ?body (\<lambda>_.
        bindE (get_vec this) (\<lambda>v'.
        bindE (put_vec this (v'\<lparr>v_size := v_size v' + 1\<rparr>)) (\<lambda>_.
        returnE (rm_plus (v_data v') index)))) s"
      using 3 Some
      by (simp add: Emplace_def bindE_def[of "get_vec this"] get_vec_def Capacity_rm_def
            index_def Let_def)
    from 3 sz have sz1: "v_size v + 1 \<le> rm_capacity (v_data v)" by simp
    have vs: "vecs (snd (?body s)) = vecs s" using quietD[OF q, of s] by simp
    have i1: "size_le_capacity (snd (?body s))" using inv vs by (rule inv_vecs_same)
    show ?thesis
      unfolding eq bindE_alt[of ?body]
      using i1 inv_bump_size[OF i1 _ sz1, of this "\<lambda>v'. rm_plus (v_data v') index"] vs Some
      by (simp split: sum.splits)
  next
    case 4
    let ?unw = "\<lambda>new_data. on_unwind
                          (bindE (construct T (Into (rm_plus new_data index)) a) (\<lambda>_.
                           bindE (catchE
                                    (CopyOrMove T (GetAddress (v_data v)) (GetAddress new_data)
                                       index)
                                    (\<lambda>e. bindE (destroy_at T (rm_plus new_data index)) (\<lambda>_.
                                          throwE e))) (\<lambda>_.
                           catchE
                             (CopyOrMove T (rm_plus (v_data v) index)
                                (rm_plus new_data (index + 1)) (v_size v - index))
                             (\<lambda>e. destroy_n T (GetAddress new_data) (index + 1)))))
                          (RawMemory_dtor new_data)"
    define U where "U = ?unw"
    have k: "\<And>nd s. vecs (snd (U nd s)) = vecs s"
      unfolding U_def by (intro keeps_vecsD keeps_intros)
    let ?grow = "bindE (RawMemory_ctor T c) (\<lambda>new_data.
                 bindE (U new_data) (\<lambda>_.
                 bindE (put_vec this (v\<lparr>v_data := new_data\<rparr>)) (\<lambda>_.
                 RawMemory_dtor (v_data v))))"
    have eq: "Emplace T this pos a s =
        bindE ?grow (\<lambda>_.
        bindE (get_vec this) (\<lambda>v'.
        bindE (put_vec this (v'\<lparr>v_size := v_size v' + 1\<rparr>)) (\<lambda>_.
        returnE (rm_plus (v_data v') index)))) s"
      using 4 Some
      by (simp add: Emplace_def bindE_def[of "get_vec this"] get_vec_def Capacity_rm_def
            index_def c_def Let_def U_def)
    have g: "vecs (snd (?grow s)) = (vecs s)(this \<mapsto> v\<lparr>v_data := d\<rparr>) \<or>
             (fst (?grow s) \<noteq> Inr () \<and> vecs (snd (?grow s)) = vecs s)"
      using c0 by (simp add: bindE_alt fst_RawMemory_ctor k d_def split: sum.splits)
    then show ?thesis
    proof
      assume u: "vecs (snd (?grow s)) = (vecs s)(this \<mapsto> v\<lparr>v_data := d\<rparr>)"
      have i1: "size_le_capacity (snd (?grow s))"
        using inv sz cs by (auto simp: size_le_capacity_def u d_def)
      have sz1: "v_size (v\<lparr>v_data := d\<rparr>) + 1 \<le> rm_capacity (v_data (v\<lparr>v_data := d\<rparr>))"
        using cs by (simp add: d_def)
      have v1: "vecs (snd (?grow s)) this = Some (v\<lparr>v_data := d\<rparr>)"
        by (simp add: u)
      show ?thesis
        unfolding eq bindE_alt[of ?grow]
        using i1 inv_bump_size[OF i1 v1 sz1, of "\<lambda>v'. rm_plus (v_data v') index"]
        by (simp split: sum.splits)
    next
      assume u: "fst (?grow s) \<noteq> Inr () \<and> vecs (snd (?grow s)) = vecs s"
      then have i1: "size_le_capacity (snd (?grow s))"
        using inv by (simp add: size_le_capacity_def)
      show ?thesis
        unfolding eq bindE_alt[of ?grow]
        using i1 u by (simp split: sum.splits)
    qed
  qed
qed


lemma bindE_assoc: "bindE (bindE m f) g = bindE m (\<lambda>x. bindE (f x) g)"
  by (rule ext) (simp add: bindE_def split: prod.splits sum.splits)

lemma bindE_get_vec: "vecs s this = Some v \<Longrightarrow> bindE (get_vec this) f s = f v s"
  by (simp add: bindE_def get_vec_def)

lemma inv_assign_copy:
  "size_le_capacity s \<Longrightarrow> size_le_capacity (snd (assign_copy T this rhs s))"
proof -
  assume inv: "size_le_capacity s"
  let ?tail = "\<lambda>_::unit. bindE (get_vec rhs) (\<lambda>r.
     bindE (get_vec this) (\<lambda>v.
     put_vec this (v\<lparr>v_size := v_size r\<rparr>)))"
  show ?thesis
  proof (cases "this = rhs")
    case True
    with inv show ?thesis
      by (fastforce simp: assign_copy_def bindE_alt fst_get_vec size_le_capacity_def
            split: sum.splits option.splits)
  next
    case False
    show ?thesis
    proof (cases "vecs s rhs")
      case None
      with False inv show ?thesis
        by (simp add: assign_copy_def bindE_alt fst_get_vec)
    next
      case r: (Some r)
      show ?thesis
      proof (cases "vecs s this")
        case None
        with False r inv show ?thesis
          by (simp add: assign_copy_def bindE_alt fst_get_vec)
      next
        case v: (Some v)
        from inv v have sz: "v_size v \<le> rm_capacity (v_data v)"
          by (simp add: size_le_capacity_def)
        show ?thesis
        proof (cases "v_size r > rm_capacity (v_data v)")
          case True
          let ?first = "bindE (Vector_copy_value T r) (\<lambda>rhs_copy.
                bindE (put_vec this rhs_copy) (\<lambda>_.
                Vector_dtor_value T v))"
          have eq: "assign_copy T this rhs s = bindE ?first ?tail s"
            using True False r v
            by (simp add: assign_copy_def bindE_assoc bindE_get_vec Capacity_rm_def)
          have g: "(\<exists>c. vecs (snd (?first s)) = (vecs s)(this \<mapsto> c) \<and> v_size c = v_size r \<and>
                     rm_capacity (v_data c) = v_size r) \<or>
                   (fst (?first s) \<noteq> Inr () \<and> vecs (snd (?first s)) = vecs s)"
            by (auto simp: bindE_alt split: sum.splits dest: Vector_copy_value_result)
          then show ?thesis
          proof
            assume "\<exists>c. vecs (snd (?first s)) = (vecs s)(this \<mapsto> c) \<and> v_size c = v_size r \<and>
                     rm_capacity (v_data c) = v_size r"
            then obtain c where c: "vecs (snd (?first s)) = (vecs s)(this \<mapsto> c)"
              "v_size c = v_size r" "rm_capacity (v_data c) = v_size r" by blast
            with inv False r show ?thesis
              unfolding eq bindE_alt[of ?first]
              by (auto simp: bindE_alt fst_get_vec size_le_capacity_def split: sum.splits)
          next
            assume "fst (?first s) \<noteq> Inr () \<and> vecs (snd (?first s)) = vecs s"
            with inv show ?thesis
              unfolding eq bindE_alt[of ?first]
              by (auto simp: size_le_capacity_def split: sum.splits)
          qed
        next
          case False2: False
          define first where "first =
             (if v_size r < v_size v
              then
                bindE (copy_assign_n T (rm_plus (v_data v) 0) (rm_plus (v_data r) 0) (v_size r)) (\<lambda>_.
                destroy_n T (rm_plus (v_data v) (v_size r)) (v_size v - v_size r))
              else
                bindE (copy_assign_n T (rm_plus (v_data v) 0) (rm_plus (v_data r) 0) (v_size v)) (\<lambda>_.
                uninitialized_copy_n T (rm_plus (v_data r) (v_size v)) (v_size r - v_size v)
                  (rm_plus (v_data v) (v_size v))))"
          have eq: "assign_copy T this rhs s = bindE first ?tail s"
            using False2 False r v
            by (simp add: assign_copy_def bindE_assoc bindE_get_vec Capacity_rm_def first_def)
          have k: "vecs (snd (first s)) = vecs s"
            unfolding first_def by (intro keeps_vecsD keeps_intros)
          from inv False False2 r v show ?thesis
            unfolding eq bindE_alt[of first]
            by (auto simp: bindE_alt fst_get_vec size_le_capacity_def k split: sum.splits)
        qed
      qed
    qed
  qed
qed

lemma inv_perform:
  "size_le_capacity s \<Longrightarrow> size_le_capacity (snd (perform T c s))"
proof (cases c)
  case (OpPushBack this a)
  assume "size_le_capacity s"
  from inv_EmplaceBack[OF this, of T this a] OpPushBack show ?thesis
    by (simp add: discard_def bindE_alt returnE_def split: sum.splits)
next
  case (OpEmplace this pos a)
  assume "size_le_capacity s"
  from inv_Emplace[OF this, of T this pos a] OpEmplace show ?thesis
    by (simp add: discard_def bindE_alt returnE_def split: sum.splits)
next
  case (OpErase this pos)
  assume "size_le_capacity s"
  from inv_Erase[OF this, of T this pos] OpErase show ?thesis
    by (simp add: discard_def bindE_alt returnE_def split: sum.splits)
qed (simp_all add: inv_Vector_default inv_Vector_sized inv_Vector_copy inv_Vector_move
       inv_Vector_dtor inv_assign_copy inv_assign_move inv_Reserve inv_Resize inv_PopBack
       inv_Swap)

lemma inv_run: "size_le_capacity s \<Longrightarrow> size_le_capacity (run T cs s)"
  by (induction cs arbitrary: s) (simp_all add: inv_perform)

section \<open>Well-formed vectors\<close>

lemma length_block_of: "length xs \<le> c \<Longrightarrow> length (block_of xs c) = c"
  by (simp add: block_of_def)

lemma slice_block_of:
  "i + n \<le> length xs \<Longrightarrow> slice (block_of xs c) i n = map Live (slice xs i n)"
  by (simp add: block_of_def slice_def take_map drop_map)

lemma slice_block_of_all: "slice (block_of xs c) 0 (length xs) = map Live xs"
  by (simp add: block_of_def slice_def)

lemma slice_block_of_raw:
  "length xs + n \<le> c \<Longrightarrow> slice (block_of xs c) (length xs) n = replicate n Raw"
  by (simp add: block_of_def slice_def)

lemma nth_block_of:
  "k < c \<Longrightarrow> length xs \<le> c \<Longrightarrow>
   block_of xs c ! k = (if k < length xs then Live (xs ! k) else Raw)"
  by (simp add: block_of_def nth_append)

lemma block_of_butlast:
  assumes "xs \<noteq> []" "length xs \<le> c"
  shows "patch (block_of xs c) (length xs - 1) [Raw] = block_of (butlast xs) c"
proof -
  from assms obtain ys y where xs: "xs = ys @ [y]"
    by (metis append_butlast_last_id)
  have "Suc (c - Suc (length ys)) = c - length ys"
    using assms(2) by (simp add: xs)
  then have "Raw # replicate (c - Suc (length ys)) Raw = replicate (c - length ys) Raw"
    by (metis replicate_Suc)
  then show ?thesis
    by (simp add: xs patch_def block_of_def)
qed


lemma patch_raw_block_of:
  "length xs \<le> c \<Longrightarrow> patch (replicate c Raw) 0 (map Live xs) = block_of xs c"
  by (simp add: patch_def block_of_def)

lemma holds_size: "holds s v xs \<Longrightarrow> v_size v = length xs"
  by (simp add: holds_def)

lemma holds_capacity: "holds s v xs \<Longrightarrow> length xs \<le> rm_capacity (v_data v)"
  by (simp add: holds_def)

lemma holds_block:
  "holds s v xs \<Longrightarrow> rm_buffer (v_data v) = Some b \<Longrightarrow>
   heap s b = Some (block_of xs (rm_capacity (v_data v)))"
  by (simp add: holds_def)

lemma holds_buffer:
  "holds s v xs \<Longrightarrow> xs \<noteq> [] \<Longrightarrow> \<exists>b. rm_buffer (v_data v) = Some b"
  by (cases "rm_buffer (v_data v)") (auto simp: holds_def)

lemma holds_null: "holds s v xs \<Longrightarrow> rm_buffer (v_data v) = None \<Longrightarrow> xs = []"
  by (auto simp: holds_def)

lemma vector_eta: "\<lparr>v_data = v_data v, v_size = v_size v\<rparr> = v"
  by (cases v) simp

lemma vector_update_all: "y\<lparr>v_data := a, v_size := b\<rparr> = \<lparr>v_data = a, v_size = b\<rparr>"
  by simp

subsection \<open>\<^verbatim>\<open>PopBack\<close> and \<^verbatim>\<open>Erase\<close> at the end\<close>

lemma PopBack_empty:
  "vecs s this = Some v \<Longrightarrow> v_size v = 0 \<Longrightarrow> PopBack T this s = (Inr (), s)"
  by (simp add: PopBack_def bindE_def get_vec_def returnE_def)

lemma PopBack_nonempty:
  assumes "vecs s this = Some v" "holds s v xs" "xs \<noteq> []" "rm_buffer (v_data v) = Some b"
  shows "fst (PopBack T this s) = Inr () \<and>
         vecs (snd (PopBack T this s)) = (vecs s)(this \<mapsto> v\<lparr>v_size := length xs - 1\<rparr>) \<and>
         heap (snd (PopBack T this s)) =
           (heap s)(b \<mapsto> block_of (butlast xs) (rm_capacity (v_data v))) \<and>
         trace (snd (PopBack T this s)) = trace s @ [Dtor (Into (Some b, length xs - 1))] \<and>
         next_block (snd (PopBack T this s)) = next_block s"
proof -
  let ?c = "rm_capacity (v_data v)"
  let ?n = "length xs"
  have sz: "v_size v = ?n" "?n \<le> ?c" "0 < ?n"
    using assms by (simp_all add: holds_def)
  have blk: "heap s b = Some (block_of xs ?c)"
    using assms by (simp add: holds_block)
  have "slice xs (?n - 1) 1 = [last xs]"
    using assms(3) by (cases xs rule: rev_cases) (simp_all add: slice_def)
  then have sl: "slice (block_of xs ?c) (?n - 1) 1 = map Live [last xs]"
    using sz by (simp add: slice_block_of)
  have le: "?n - 1 + 1 \<le> length (block_of xs ?c)"
    using sz by (simp add: length_block_of)
  note d = destroy_n_live[OF blk sl le, of T]
  have eq: "PopBack T this s =
      bindE (destroy_n T (Some b, ?n - 1) 1) (\<lambda>_. put_vec this (v\<lparr>v_size := ?n - 1\<rparr>)) s"
    using assms(1,4) sz by (simp add: PopBack_def bindE_get_vec rm_plus_def del: destroy_n.simps)
  show ?thesis
    unfolding eq using d block_of_butlast[OF assms(3) sz(2)]
    by (simp add: bindE_alt put_vec_def transforms_def alters_def del: destroy_n.simps)
qed

section \<open>Size and capacity after appends that return\<close>

lemma EmplaceBack_success_vecs:
  assumes "vecs s this = Some v" "fst (EmplaceBack T this a s) = Inr p"
  shows "\<exists>d. vecs (snd (EmplaceBack T this a s)) this =
                Some \<lparr>v_data = d, v_size = v_size v + 1\<rparr> \<and>
             rm_capacity d =
               (if v_size v = rm_capacity (v_data v)
                then (if v_size v = 0 then 1 else v_size v * 2)
                else rm_capacity (v_data v))"
  using EmplaceBack_vecs[OF assms(1), of T a] assms(2) by fastforce

lemma push_all_Cons_success:
  assumes "fst (push_all T this (a # as) s) = Inr ()"
  shows "\<exists>p. fst (EmplaceBack T this a s) = Inr p \<and>
             push_all T this (a # as) s = push_all T this as (snd (EmplaceBack T this a s))"
  using assms by (auto simp: bindE_alt split: sum.splits)

lemma push_all_doubling:
  assumes "vecs s this = Some v" "fst (push_all T this as s) = Inr ()"
    "0 < v_size v" "rm_capacity (v_data v) = 2 ^ k" "v_size v \<le> 2 ^ k" "2 ^ k < 2 * v_size v"
  shows "\<exists>d k'. vecs (snd (push_all T this as s)) this =
                   Some \<lparr>v_data = d, v_size = v_size v + length as\<rparr> \<and>
                rm_capacity d = 2 ^ k' \<and> v_size v + length as \<le> 2 ^ k' \<and>
                2 ^ k' < 2 * (v_size v + length as)"
  using assms
proof (induction as arbitrary: s v k)
  case Nil
  then show ?case
    by (auto simp: returnE_def intro!: exI[of _ "v_data v"] exI[of _ k])
next
  case (Cons a as)
  from push_all_Cons_success[OF Cons.prems(2)] obtain p where
    p: "fst (EmplaceBack T this a s) = Inr p" and
    eq: "push_all T this (a # as) s = push_all T this as (snd (EmplaceBack T this a s))"
    by blast
  let ?s1 = "snd (EmplaceBack T this a s)"
  from EmplaceBack_success_vecs[OF Cons.prems(1) p] obtain d where
    d: "vecs ?s1 this = Some \<lparr>v_data = d, v_size = v_size v + 1\<rparr>" and
    cap: "rm_capacity d =
               (if v_size v = rm_capacity (v_data v)
                then (if v_size v = 0 then 1 else v_size v * 2)
                else rm_capacity (v_data v))"
    by blast
  let ?v1 = "\<lparr>v_data = d, v_size = v_size v + 1\<rparr>"
  have "\<exists>k1. rm_capacity (v_data ?v1) = 2 ^ k1 \<and> v_size ?v1 \<le> 2 ^ k1 \<and> 2 ^ k1 < 2 * v_size ?v1"
  proof (cases "v_size v = rm_capacity (v_data v)")
    case True
    with cap Cons.prems(3,4) have "rm_capacity d = 2 ^ Suc k" by simp
    moreover have "v_size v + 1 \<le> 2 ^ Suc k" "(2::nat) ^ Suc k < 2 * (v_size v + 1)"
      using True Cons.prems(3,4) by simp_all
    ultimately show ?thesis by (intro exI[of _ "Suc k"]) simp
  next
    case False
    with cap Cons.prems(4,5,6) show ?thesis by (intro exI[of _ k]) simp
  qed
  then obtain k1 where k1: "rm_capacity (v_data ?v1) = 2 ^ k1" "v_size ?v1 \<le> 2 ^ k1"
    "2 ^ k1 < 2 * v_size ?v1" by blast
  have run: "fst (push_all T this as ?s1) = Inr ()"
    using Cons.prems(2) eq by simp
  have pos: "0 < v_size ?v1" by simp
  from Cons.IH[OF d run pos k1] show ?case
    unfolding eq by (simp add: add.assoc)
qed

section \<open>Allocation, release and \<^verbatim>\<open>Reserve\<close>\<close>

lemma size_t_mul_small: "a * b < 2 ^ 64 \<Longrightarrow> size_t_mul a b = a * b"
  by (simp add: size_t_mul_def)

text \<open>A request that does not wrap and that the store grants.\<close>

lemma RawMemory_ctor_pos:
  assumes "n \<noteq> 0" "0 < size_of T" "n * size_of T < 2 ^ 64" "n * size_of T \<le> store_limit s"
  shows "RawMemory_ctor T n s =
     (Inr \<lparr>rm_buffer = Some (next_block s), rm_capacity = n\<rparr>,
      s\<lparr>heap := (heap s)(next_block s \<mapsto> replicate n Raw),
        next_block := Suc (next_block s),
        trace := trace s @ [Allocated (next_block s) n]\<rparr>)"
  using assms
  by (simp add: RawMemory_ctor_def Allocate_def operator_new_def bindE_def returnE_def
        size_t_mul_small)

text \<open>A request that the store refuses.\<close>

lemma RawMemory_ctor_refused:
  assumes "n \<noteq> 0" "store_limit s < size_t_mul n (size_of T)"
  shows "RawMemory_ctor T n s = (Inl BadAlloc, s)"
  using assms
  by (simp add: RawMemory_ctor_def Allocate_def operator_new_def bindE_def)

lemma RawMemory_ctor_0:
  "RawMemory_ctor T 0 s = (Inr \<lparr>rm_buffer = None, rm_capacity = 0\<rparr>, s)"
  by (simp add: RawMemory_ctor_def Allocate_def bindE_def returnE_def)

lemma RawMemory_dtor_some:
  "rm_buffer m = Some b \<Longrightarrow> heap s b = Some blk \<Longrightarrow>
   RawMemory_dtor m s =
     (Inr (), s\<lparr>heap := (heap s)(b := None), trace := trace s @ [Deallocated b]\<rparr>)"
  by (simp add: RawMemory_dtor_def Deallocate_def)

lemma RawMemory_dtor_none: "rm_buffer m = None \<Longrightarrow> RawMemory_dtor m s = (Inr (), s)"
  by (simp add: RawMemory_dtor_def Deallocate_def)

lemma CopyOrMove_0: "CopyOrMove T p q 0 s = (Inr (), s)"
  by (simp add: CopyOrMove_def uninitialized_move_n_def uninitialized_copy_n_def returnE_def)

lemma heap_ok_fresh: "heap_ok T s \<Longrightarrow> heap s (next_block s) = None"
  by (simp add: heap_ok_def)

lemma heap_ok_allocated: "heap_ok T s \<Longrightarrow> heap s b = Some blk \<Longrightarrow> b \<noteq> next_block s"
  by (auto simp: heap_ok_def)

lemma heap_ok_size: "heap_ok T s \<Longrightarrow> 0 < size_of T"
  by (simp add: heap_ok_def)

lemma heap_ok_block:
  "heap_ok T s \<Longrightarrow> heap s b = Some blk \<Longrightarrow> length blk * size_of T < 2 ^ 64"
  by (auto simp: heap_ok_def)




section \<open>Constructing the new element, and appending\<close>

lemma on_unwind_cases:
  "on_unwind m d s =
     (case fst (m s) of
        Inr x \<Rightarrow> (Inr x, snd (m s))
      | Inl e \<Rightarrow>
          if e = Undefined then (Inl Undefined, snd (m s))
          else (case fst (d (snd (m s))) of
                  Inr _ \<Rightarrow> (Inl e, snd (d (snd (m s))))
                | Inl e' \<Rightarrow> (Inl e', snd (d (snd (m s))))))"
  by (cases "m s"; cases "d (snd (m s))")
     (auto simp: on_unwind_def catchE_def bindE_def throwE_def split: sum.splits)

lemma on_unwind_cong: "m s = m' s' \<Longrightarrow> on_unwind m d s = on_unwind m' d s'"
  by (simp add: on_unwind_def catchE_def)

lemma length_after_construct [simp]: "length (after_construct T xs a) = length xs"
  by (cases "(T, xs, a)" rule: after_construct.cases) simp_all

lemma block_of_update:
  "i < length xs \<Longrightarrow> (block_of xs c)[i := Live y] = block_of (xs[i := y]) c"
  by (simp add: block_of_def list_update_append map_update)

lemma block_of_snoc:
  "length xs < c \<Longrightarrow> (block_of xs c)[length xs := Live y] = block_of (xs @ [y]) c"
proof -
  assume a: "length xs < c"
  then obtain d where d: "c - length xs = Suc d" by (cases "c - length xs") auto
  then have "c - Suc (length xs) = d" by simp
  with d show ?thesis by (simp add: block_of_def list_update_append)
qed

lemma raw_block_snoc:
  "length xs < c \<Longrightarrow> patch ((replicate c Raw)[length xs := Live y]) 0 (map Live xs) =
     block_of (xs @ [y]) c"
proof -
  assume a: "length xs < c"
  have "(replicate c Raw)[length xs := Live y] =
      replicate (length xs) Raw @ Live y # replicate (c - Suc (length xs)) Raw"
    using a by (simp add: list_eq_iff_nth_eq nth_append nth_list_update nth_Cons')
  then show ?thesis
    using a by (simp add: patch_def block_of_def)
qed

text \<open>
  The construction of the new element from the argument, in another block than the one
  the argument may refer to: it completes exactly when the constructor does.
\<close>

lemma construct_new_block:
  assumes "heap s nb = Some D" "n < length D"
    "operand_in buf (length xs) (arg_operand a)"
    "\<And>b. buf = Some b \<Longrightarrow> heap s b = Some (block_of xs cap) \<and> b \<noteq> nb" "length xs \<le> cap"
  shows "(fst (arg_ctor T a (operand_value xs (arg_operand a)) (world s)) \<and>
          fst (construct T (Into (Some nb, n)) a s) = Inr (operand_value xs (arg_operand a)) \<and>
          transforms s (snd (construct T (Into (Some nb, n)) a s))
            ((nb, D[n := Live (operand_value xs (arg_operand a))]) #
             (case buf of None \<Rightarrow> [] | Some b \<Rightarrow> [(b, block_of (after_construct T xs a) cap)]))
            [ctor_event (Into (Some nb, n)) a] \<and>
          world (snd (construct T (Into (Some nb, n)) a s)) =
            snd (arg_ctor T a (operand_value xs (arg_operand a)) (world s)))
       \<or> (\<not> fst (arg_ctor T a (operand_value xs (arg_operand a)) (world s)) \<and>
          fst (construct T (Into (Some nb, n)) a s) = Inl ElementThrew \<and>
          transforms s (snd (construct T (Into (Some nb, n)) a s)) [] [])"
proof -
  have idem: "(heap s)(b \<mapsto> block_of xs cap) = heap s" if "buf = Some b" for b
    using assms(4)[OF that] by (simp add: fun_upd_idem)
  have live: "load (Some b, i) s = (Inr (xs ! i), s)" if "buf = Some b" "i < length xs" for b i
    using that assms(4)[OF that(1)] assms(5)
    by (intro load_live[of s b "block_of xs cap"]) (simp_all add: nth_block_of length_block_of)
  have tw: "(heap s)(nb \<mapsto> X, b \<mapsto> Y) = (heap s)(b \<mapsto> Y, nb \<mapsto> X)"
    if "buf = Some b" for b X Y
    using assms(4)[OF that] by (simp add: fun_upd_twist)
  show ?thesis
  proof (cases a)
    case (Copying src)
    show ?thesis
    proof (cases src)
      case (At p)
      with Copying assms(3) obtain b i where p: "p = (Some b, i)" "buf = Some b" "i < length xs"
        by (cases p) auto
      show ?thesis
        using assms(1,2) idem[OF p(2)] tw[OF p(2)]
        by (simp add: Copying At p copy_construct_def bindE_def live attempt_def emit_def
              returnE_def place_def transforms_def alters_def)
    next
      case (Val x)
      show ?thesis
      proof (cases buf)
        case None
        with assms(1,2) show ?thesis
          by (simp add: Copying Val copy_construct_def bindE_def attempt_def emit_def
                returnE_def place_def transforms_def alters_def)
      next
        case (Some b)
        with assms(1,2) idem[OF Some] tw[OF Some] show ?thesis
          by (simp add: Copying Val copy_construct_def bindE_def attempt_def emit_def
                returnE_def place_def transforms_def alters_def)
      qed
    qed
  next
    case (Moving src)
    show ?thesis
    proof (cases src)
      case (At p)
      with Moving assms(3) obtain b i where p: "p = (Some b, i)" "buf = Some b" "i < length xs"
        by (cases p) auto
      have il: "i < length (block_of xs cap)" using p assms(5) by (simp add: length_block_of)
      show ?thesis
        using assms(1,2) assms(4)[OF p(2)] il tw[OF p(2)]
        by (simp add: Moving At p move_construct_def bindE_def live attempt_def emit_def
              returnE_def place_def transforms_def alters_def block_of_update)
    next
      case (Val x)
      show ?thesis
      proof (cases buf)
        case None
        with assms(1,2) show ?thesis
          by (simp add: Moving Val move_construct_def bindE_def attempt_def emit_def
                returnE_def place_def transforms_def alters_def)
      next
        case (Some b)
        with assms(1,2) idem[OF Some] tw[OF Some] show ?thesis
          by (simp add: Moving Val move_construct_def bindE_def attempt_def emit_def
                returnE_def place_def transforms_def alters_def)
      qed
    qed
  qed
qed

text \<open>The same in the raw slot behind the elements of the block the argument refers to.\<close>

lemma construct_own_block:
  assumes "heap s b = Some (block_of xs c)" "length xs < c"
    "operand_in (Some b) (length xs) (arg_operand a)"
  shows "(fst (arg_ctor T a (operand_value xs (arg_operand a)) (world s)) \<and>
          fst (construct T (Into (Some b, length xs)) a s) =
            Inr (operand_value xs (arg_operand a)) \<and>
          transforms s (snd (construct T (Into (Some b, length xs)) a s))
            [(b, block_of (after_construct T xs a @ [operand_value xs (arg_operand a)]) c)]
            [ctor_event (Into (Some b, length xs)) a] \<and>
          world (snd (construct T (Into (Some b, length xs)) a s)) =
            snd (arg_ctor T a (operand_value xs (arg_operand a)) (world s)))
       \<or> (\<not> fst (arg_ctor T a (operand_value xs (arg_operand a)) (world s)) \<and>
          fst (construct T (Into (Some b, length xs)) a s) = Inl ElementThrew \<and>
          transforms s (snd (construct T (Into (Some b, length xs)) a s)) [] [])"
proof -
  have len: "length (block_of xs c) = c" using assms(2) by (simp add: length_block_of)
  have live: "load (Some b, i) s = (Inr (xs ! i), s)" if "i < length xs" for i
    using that assms(2)
    by (intro load_live[OF assms(1)]) (simp_all add: nth_block_of length_block_of)
  have sn: "(block_of xs c)[length xs := Live y] = block_of (xs @ [y]) c" for y
    using assms(2) by (rule block_of_snoc)
  show ?thesis
  proof (cases a)
    case (Copying src)
    show ?thesis
    proof (cases src)
      case (At p)
      with Copying assms(3) obtain i where p: "p = (Some b, i)" "i < length xs"
        by (cases p) auto
      show ?thesis
        using assms(1,2) len
        by (simp add: Copying At p copy_construct_def bindE_def live attempt_def emit_def
              returnE_def place_def transforms_def alters_def sn)
    next
      case (Val x)
      show ?thesis
        using assms(1,2) len
        by (simp add: Copying Val copy_construct_def bindE_def attempt_def emit_def
              returnE_def place_def transforms_def alters_def sn)
    qed
  next
    case (Moving src)
    show ?thesis
    proof (cases src)
      case (At p)
      with Moving assms(3) obtain i where p: "p = (Some b, i)" "i < length xs"
        by (cases p) auto
      have up: "(block_of (xs @ [xs ! i]) c)[i := Live (moved_from T (xs ! i))] =
          block_of (xs[i := moved_from T (xs ! i)] @ [xs ! i]) c"
        using p(2) by (simp add: block_of_update list_update_append)
      have len2: "i < length (block_of (xs @ [xs ! i]) c)"
        using p(2) assms(2) by (simp add: length_block_of)
      show ?thesis
        using assms(1,2) len len2 p(2)
        by (simp add: Moving At p move_construct_def bindE_def live attempt_def emit_def
              returnE_def place_def transforms_def alters_def sn up)
    next
      case (Val x)
      show ?thesis
        using assms(1,2) len
        by (simp add: Moving Val move_construct_def bindE_def attempt_def emit_def
              returnE_def place_def transforms_def alters_def sn)
    qed
  qed
qed

text \<open>An append into spare capacity returns exactly when the constructor completes.\<close>

lemma EmplaceBack_spare_spec:
  assumes "vecs s this = Some v" "holds s v xs" "rm_buffer (v_data v) = Some b"
    "length xs < rm_capacity (v_data v)"
    "operand_in (Some b) (length xs) (arg_operand a)"
  shows "(fst (arg_ctor T a (operand_value xs (arg_operand a)) (world s)) \<and>
          fst (EmplaceBack T this a s) = Inr (Some b, length xs) \<and>
          vecs (snd (EmplaceBack T this a s)) = (vecs s)(this \<mapsto> v\<lparr>v_size := Suc (length xs)\<rparr>) \<and>
          heap (snd (EmplaceBack T this a s)) =
            (heap s)(b \<mapsto> block_of (after_construct T xs a @ [operand_value xs (arg_operand a)])
                             (rm_capacity (v_data v))) \<and>
          next_block (snd (EmplaceBack T this a s)) = next_block s \<and>
          store_limit (snd (EmplaceBack T this a s)) = store_limit s \<and>
          trace (snd (EmplaceBack T this a s)) =
            trace s @ [ctor_event (Into (Some b, length xs)) a])
       \<or> (\<not> fst (arg_ctor T a (operand_value xs (arg_operand a)) (world s)) \<and>
          fst (EmplaceBack T this a s) = Inl ElementThrew \<and>
          vecs (snd (EmplaceBack T this a s)) = vecs s \<and>
          heap (snd (EmplaceBack T this a s)) = heap s \<and>
          next_block (snd (EmplaceBack T this a s)) = next_block s \<and>
          store_limit (snd (EmplaceBack T this a s)) = store_limit s \<and>
          trace (snd (EmplaceBack T this a s)) = trace s)"
proof -
  let ?n = "length xs"
  let ?c = "rm_capacity (v_data v)"
  let ?x = "operand_value xs (arg_operand a)"
  let ?m = "construct T (Into (Some b, ?n)) a"
  let ?tail = "\<lambda>elem. bindE (get_vec this) (\<lambda>v'.
     bindE (put_vec this (v'\<lparr>v_size := v_size v' + 1\<rparr>)) (\<lambda>_.
     returnE elem))"
  have sz: "v_size v = ?n" using assms(2) by (simp add: holds_def)
  have hb: "heap s b = Some (block_of xs ?c)" using assms(2,3) by (rule holds_block)
  have eq: "EmplaceBack T this a s = bindE ?m (\<lambda>_. ?tail (Some b, ?n)) s"
    using assms(1,3,4) sz
    by (simp add: EmplaceBack_def bindE_get_vec Capacity_rm_def rm_plus_def bindE_assoc)
  obtain r1 s1 where run: "?m s = (r1, s1)" by (cases "?m s")
  from construct_own_block[OF hb assms(4,5), of T] show ?thesis
  proof
    assume "fst (arg_ctor T a ?x (world s)) \<and> fst (?m s) = Inr ?x \<and>
          transforms s (snd (?m s)) [(b, block_of (after_construct T xs a @ [?x]) ?c)]
            [ctor_event (Into (Some b, ?n)) a] \<and>
          world (snd (?m s)) = snd (arg_ctor T a ?x (world s))"
    with run have ok: "fst (arg_ctor T a ?x (world s))" and r1: "r1 = Inr ?x"
      and t1: "transforms s s1 [(b, block_of (after_construct T xs a @ [?x]) ?c)]
            [ctor_event (Into (Some b, ?n)) a]"
      by simp_all
    have v1: "vecs s1 this = Some v" using t1 assms(1) by (simp add: transforms_def alters_def)
    have "EmplaceBack T this a s =
        (Inr (Some b, ?n), s1\<lparr>vecs := (vecs s1)(this \<mapsto> v\<lparr>v_size := Suc ?n\<rparr>)\<rparr>)"
      unfolding eq
      by (simp add: bindE_def[of ?m] run r1 bindE_def get_vec_def v1 put_vec_def returnE_def sz)
    with t1 ok show ?thesis by (simp add: transforms_def alters_def)
  next
    assume "\<not> fst (arg_ctor T a ?x (world s)) \<and> fst (?m s) = Inl ElementThrew \<and>
          transforms s (snd (?m s)) [] []"
    with run have bad: "\<not> fst (arg_ctor T a ?x (world s))" and r1: "r1 = Inl ElementThrew"
      and t1: "transforms s s1 [] []"
      by simp_all
    have "EmplaceBack T this a s = (Inl ElementThrew, s1)"
      unfolding eq by (simp add: bindE_def[of ?m] run r1)
    with t1 bad show ?thesis by (simp add: transforms_def alters_def)
  qed
qed

text \<open>
  An append to a full vector asks for \<open>max 1 (2 * size)\<close> slots.  When the store refuses,
  nothing has happened.
\<close>

lemma EmplaceBack_full:
  assumes "vecs s this = Some v" "v_size v = rm_capacity (v_data v)"
    "c = (if v_size v = 0 then 1 else v_size v * 2)"
  shows "EmplaceBack T this a s =
     bindE (RawMemory_ctor T c) (\<lambda>new_data.
       bindE (on_unwind
                (bindE (construct T (Into (rm_plus new_data (v_size v))) a) (\<lambda>_.
                 CopyOrMove T (GetAddress (v_data v)) (GetAddress new_data) (v_size v)))
                (RawMemory_dtor new_data)) (\<lambda>_.
       bindE (put_vec this (v\<lparr>v_data := new_data\<rparr>)) (\<lambda>_.
       bindE (RawMemory_dtor (v_data v)) (\<lambda>_.
       bindE (get_vec this) (\<lambda>v'.
       bindE (put_vec this (v'\<lparr>v_size := v_size v' + 1\<rparr>)) (\<lambda>_.
       returnE (rm_plus new_data (v_size v)))))))) s"
  unfolding assms(3) using assms(1,2)
  by (simp add: EmplaceBack_def bindE_get_vec Capacity_rm_def bindE_assoc split del: if_split)

lemma EmplaceBack_refused:
  assumes "vecs s this = Some v" "v_size v = rm_capacity (v_data v)"
    "store_limit s < size_t_mul (if v_size v = 0 then 1 else v_size v * 2) (size_of T)"
  shows "EmplaceBack T this a s = (Inl BadAlloc, s)"
proof -
  define c where "c = (if v_size v = 0 then 1 else v_size v * 2)"
  have "c \<noteq> 0" by (simp add: c_def)
  from RawMemory_ctor_refused[OF this, of s T] assms(3)
  have "RawMemory_ctor T c s = (Inl BadAlloc, s)" by (simp add: c_def)
  then show ?thesis
    unfolding EmplaceBack_full[OF assms(1,2) c_def] by (simp add: bindE_def[of "RawMemory_ctor T c"])
qed

text \<open>
  When the request does not wrap and is granted, the append returns exactly when the
  construction of the new element and every relocation complete.  It then has adopted
  the new storage and released the old one; otherwise the new storage is released and
  the vector is not touched.
\<close>

lemma EmplaceBack_grow_spec:
  assumes "vecs s this = Some v" "holds s v xs" "heap_ok T s" "elem_type_ok T"
    "length xs = rm_capacity (v_data v)"
    "operand_in (rm_buffer (v_data v)) (length xs) (arg_operand a)"
    "c = (if length xs = 0 then 1 else length xs * 2)"
    "c * size_of T < 2 ^ 64" "c * size_of T \<le> store_limit s"
  shows "(fst (arg_ctor T a (operand_value xs (arg_operand a)) (world s)) \<and>
          succeed (map (relocation_ctor T) (after_construct T xs a))
            (snd (arg_ctor T a (operand_value xs (arg_operand a)) (world s))) \<and>
          fst (EmplaceBack T this a s) = Inr (Some (next_block s), length xs) \<and>
          vecs (snd (EmplaceBack T this a s)) =
            (vecs s)(this \<mapsto> \<lparr>v_data = \<lparr>rm_buffer = Some (next_block s), rm_capacity = c\<rparr>,
                              v_size = Suc (length xs)\<rparr>) \<and>
          heap (snd (EmplaceBack T this a s)) =
            (case rm_buffer (v_data v) of
               None \<Rightarrow> (heap s)(next_block s \<mapsto>
                         block_of (after_construct T xs a @ [operand_value xs (arg_operand a)]) c)
             | Some b \<Rightarrow> (heap s)(next_block s \<mapsto>
                         block_of (after_construct T xs a @ [operand_value xs (arg_operand a)]) c,
                         b := None)) \<and>
          next_block (snd (EmplaceBack T this a s)) = Suc (next_block s) \<and>
          store_limit (snd (EmplaceBack T this a s)) = store_limit s)
       \<or> (\<not> (fst (arg_ctor T a (operand_value xs (arg_operand a)) (world s)) \<and>
             succeed (map (relocation_ctor T) (after_construct T xs a))
               (snd (arg_ctor T a (operand_value xs (arg_operand a)) (world s)))) \<and>
          fst (EmplaceBack T this a s) = Inl ElementThrew \<and>
          vecs (snd (EmplaceBack T this a s)) = vecs s \<and>
          heap (snd (EmplaceBack T this a s)) (next_block s) = None \<and>
          next_block (snd (EmplaceBack T this a s)) = Suc (next_block s) \<and>
          store_limit (snd (EmplaceBack T this a s)) = store_limit s \<and>
          (\<not> fst (arg_ctor T a (operand_value xs (arg_operand a)) (world s)) \<longrightarrow>
             heap (snd (EmplaceBack T this a s)) = heap s) \<and>
          (fst (arg_ctor T a (operand_value xs (arg_operand a)) (world s)) \<and>
           copy_constructible T \<longrightarrow>
             heap (snd (EmplaceBack T this a s)) =
               (case rm_buffer (v_data v) of
                  None \<Rightarrow> heap s
                | Some b \<Rightarrow> (heap s)(b \<mapsto> block_of (after_construct T xs a)
                                              (rm_capacity (v_data v))))))"
proof -
  let ?n = "length xs"
  let ?cap = "rm_capacity (v_data v)"
  let ?buf = "rm_buffer (v_data v)"
  let ?x = "operand_value xs (arg_operand a)"
  let ?ys = "after_construct T xs a"
  let ?w1 = "snd (arg_ctor T a ?x (world s))"
  let ?nb = "next_block s"
  let ?nd = "\<lparr>rm_buffer = Some ?nb, rm_capacity = c\<rparr>"
  let ?D = "replicate c Raw"
  let ?D1 = "?D[?n := Live ?x]"
  let ?m = "construct T (Into (Some ?nb, ?n)) a"
  let ?cm = "CopyOrMove T (GetAddress (v_data v)) (Some ?nb, 0) ?n"
  define s1 where "s1 = s\<lparr>heap := (heap s)(?nb \<mapsto> ?D), next_block := Suc ?nb,
                 trace := trace s @ [Allocated ?nb c]\<rparr>"
  define U where "U = on_unwind (bindE ?m (\<lambda>_. ?cm)) (RawMemory_dtor ?nd)"
  let ?rest = "\<lambda>_::unit. bindE (put_vec this (v\<lparr>v_data := ?nd\<rparr>)) (\<lambda>_.
              bindE (RawMemory_dtor (v_data v)) (\<lambda>_.
              returnE (Some ?nb, ?n)))"
  let ?tail = "\<lambda>elem. bindE (get_vec this) (\<lambda>v'.
     bindE (put_vec this (v'\<lparr>v_size := v_size v' + 1\<rparr>)) (\<lambda>_.
     returnE elem))"
  have sz: "v_size v = ?n" using assms(2) by (simp add: holds_def)
  have c0: "c \<noteq> 0" and nc: "?n < c" using assms(7) by simp_all
  have s0: "0 < size_of T" using assms(3) by (rule heap_ok_size)
  have fresh: "(heap s)(?nb := None) = heap s"
    using heap_ok_fresh[OF assms(3)] by (simp add: fun_upd_idem)
  note fresh0 = heap_ok_fresh[OF assms(3)]
  have rc: "RawMemory_ctor T c s = (Inr ?nd, s1)"
    unfolding s1_def by (rule RawMemory_ctor_pos[OF c0 s0 assms(8,9)])
  have ceq: "c = (if v_size v = 0 then 1 else v_size v * 2)"
    using assms(7) sz by simp
  have eq: "EmplaceBack T this a s = bindE U (\<lambda>_. bindE (?rest ()) ?tail) s1"
    unfolding EmplaceBack_full[OF assms(1) _ ceq, unfolded sz, OF assms(5)]
    by (simp add: rm_plus_def GetAddress_def bindE_assoc bindE_def[of "RawMemory_ctor T c"] rc
          U_def)
  have h1: "heap s1 ?nb = Some ?D" "vecs s1 = vecs s" "heap s1 = (heap s)(?nb \<mapsto> ?D)"
    "world s1 = world s" "next_block s1 = Suc ?nb" "store_limit s1 = store_limit s"
    by (simp_all add: s1_def)
  have len: "?n < length ?D" using nc by simp
  have src: "heap s1 b = Some (block_of xs ?cap) \<and> b \<noteq> ?nb" if "?buf = Some b" for b
  proof -
    have hb: "heap s b = Some (block_of xs ?cap)" using assms(2) that by (rule holds_block)
    with heap_ok_allocated[OF assms(3) hb] show ?thesis by (simp add: s1_def)
  qed
  have release: "RawMemory_dtor ?nd s' =
      (Inr (), s'\<lparr>heap := (heap s')(?nb := None), trace := trace s' @ [Deallocated ?nb]\<rparr>)"
    if "heap s' ?nb = Some B" for s' :: "('a, 'b) state" and B
    by (rule RawMemory_dtor_some[of _ ?nb, OF _ that]) simp
  obtain r2 s2 where run: "?m s1 = (r2, s2)" by (cases "?m s1")
  have cap: "?n \<le> ?cap" using assms(5) by simp
  from construct_new_block[OF h1(1) len assms(6) src cap, of T] show ?thesis
  proof
    assume "\<not> fst (arg_ctor T a ?x (world s1)) \<and> fst (?m s1) = Inl ElementThrew \<and>
          transforms s1 (snd (?m s1)) [] []"
    with run h1 have bad: "\<not> fst (arg_ctor T a ?x (world s))" and r2: "r2 = Inl ElementThrew"
      and t2: "transforms s1 s2 [] []"
      by simp_all
    have hs2: "heap s2 = (heap s)(?nb \<mapsto> ?D)" "vecs s2 = vecs s" "next_block s2 = Suc ?nb"
      "store_limit s2 = store_limit s"
      using t2 h1 by (simp_all add: transforms_def alters_def)
    then have "heap s2 ?nb = Some ?D" by simp
    note d = release[OF this]
    have "U s1 = (Inl ElementThrew,
        s2\<lparr>heap := (heap s2)(?nb := None), trace := trace s2 @ [Deallocated ?nb]\<rparr>)"
      unfolding U_def
      by (simp add: on_unwind_def catchE_def bindE_def[of ?m] run r2 bindE_def d throwE_def)
    then have "EmplaceBack T this a s = (Inl ElementThrew,
        s2\<lparr>heap := (heap s2)(?nb := None), trace := trace s2 @ [Deallocated ?nb]\<rparr>)"
      unfolding eq by (simp add: bindE_def[of U])
    with bad hs2 fresh fresh0 show ?thesis by simp
  next
    assume "fst (arg_ctor T a ?x (world s1)) \<and> fst (?m s1) = Inr ?x \<and>
          transforms s1 (snd (?m s1))
            ((?nb, ?D1) # (case ?buf of None \<Rightarrow> [] | Some b \<Rightarrow> [(b, block_of ?ys ?cap)]))
            [ctor_event (Into (Some ?nb, ?n)) a] \<and>
          world (snd (?m s1)) = snd (arg_ctor T a ?x (world s1))"
    with run h1 have ok: "fst (arg_ctor T a ?x (world s))" and r2: "r2 = Inr ?x"
      and t2: "transforms s1 s2
            ((?nb, ?D1) # (case ?buf of None \<Rightarrow> [] | Some b \<Rightarrow> [(b, block_of ?ys ?cap)]))
            [ctor_event (Into (Some ?nb, ?n)) a]"
      and w2: "world s2 = ?w1"
      by simp_all
    have v2: "vecs s2 = vecs s" "next_block s2 = Suc ?nb" "store_limit s2 = store_limit s"
      using t2 h1 by (simp_all add: transforms_def alters_def)
    have Ueq: "U s1 = on_unwind ?cm (RawMemory_dtor ?nd) s2"
      unfolding U_def by (rule on_unwind_cong) (simp add: bindE_def run r2)
    show ?thesis
    proof (cases ?buf)
      case None
      with assms(2) have xs: "xs = []" by (rule holds_null)
      have "(block_of [] c)[length ([] :: 'a list) := Live y] = block_of ([] @ [y]) c" for y :: 'a
        using c0 by (intro block_of_snoc) simp
      then have one: "(replicate c Raw)[0 := Live y] = block_of [y] c" for y :: 'a
        by (simp add: block_of_def)
      have hs2: "heap s2 = (heap s)(?nb \<mapsto> block_of [?x] c)"
        using t2 h1 None
        by (simp add: transforms_def alters_def xs one)
      have "U s1 = (Inr (), s2)"
        by (simp add: Ueq xs CopyOrMove_0 on_unwind_def catchE_def)
      then have "EmplaceBack T this a s =
          (Inr (Some ?nb, ?n),
           s2\<lparr>vecs := (vecs s)(this \<mapsto> v\<lparr>v_data := ?nd, v_size := Suc ?n\<rparr>)\<rparr>)"
        unfolding eq
        by (simp add: bindE_def[of U] bindE_def put_vec_def get_vec_def returnE_def v2
              RawMemory_dtor_none[OF None] sz)
      moreover have "v\<lparr>v_data := ?nd, v_size := Suc ?n\<rparr> = \<lparr>v_data = ?nd, v_size = Suc ?n\<rparr>"
        by (cases v) simp
      moreover have "after_construct T [] a = []"
        by (cases "(T, [] :: 'a list, a)" rule: after_construct.cases) simp_all
      ultimately show ?thesis
        using ok hs2 v2 None by (simp add: xs vector_update_all)
    next
      case (Some b)
      let ?S = "block_of ?ys ?cap"
      from src[OF Some] have bnb: "b \<noteq> ?nb" by simp
      have hs2: "heap s2 = (heap s)(?nb \<mapsto> ?D1, b \<mapsto> ?S)"
        using t2 h1 Some bnb by (simp add: transforms_def alters_def fun_upd_twist)
      have pre: "heap s2 b = Some ?S" "heap s2 ?nb = Some ?D1" "b \<noteq> ?nb"
        "slice ?S 0 ?n = map Live ?ys" "0 + ?n \<le> length ?S" "0 + ?n \<le> length ?D1"
        "slice ?D1 0 ?n = replicate ?n Raw" "elem_type_ok T"
      proof -
        show "heap s2 b = Some ?S" "heap s2 ?nb = Some ?D1" "b \<noteq> ?nb" "elem_type_ok T"
          "0 + ?n \<le> length ?S" "0 + ?n \<le> length ?D1"
          using hs2 bnb cap nc assms(4) by (simp_all add: length_block_of)
        show "slice ?S 0 ?n = map Live ?ys"
          using slice_block_of_all[of ?ys ?cap] by simp
        show "slice ?D1 0 ?n = replicate ?n Raw"
          using nc by (simp add: slice_update_after) (simp add: slice_def)
      qed
      let ?cm' = "CopyOrMove T (Some b, 0) (Some ?nb, 0) ?n"
      have Ueq': "U s1 = on_unwind ?cm' (RawMemory_dtor ?nd) s2"
        by (simp add: Ueq GetAddress_def Some)
      obtain r3 s3 where run3: "?cm' s2 = (r3, s3)" by (cases "?cm' s2")
      from CopyOrMove_spec[OF pre] show ?thesis
      proof (elim disjE exE conjE)
        assume su: "succeed (map (relocation_ctor T) ?ys) (world s2)"
          and "fst (?cm' s2) = Inr ()"
          and "transforms s2 (snd (?cm' s2))
            [(b, patch ?S 0 (replicate ?n Raw)), (?nb, patch ?D1 0 (map Live ?ys))]
            (relocations T b 0 ?nb 0 ?n @ map (\<lambda>t. Dtor (Into (Some b, 0 + t))) [0..<?n])"
        with run3 have r3: "r3 = Inr ()"
          and t3: "transforms s2 s3
            [(b, patch ?S 0 (replicate ?n Raw)), (?nb, patch ?D1 0 (map Live ?ys))]
            (relocations T b 0 ?nb 0 ?n @ map (\<lambda>t. Dtor (Into (Some b, 0 + t))) [0..<?n])"
          by simp_all
        have nbk: "patch ?D1 0 (map Live ?ys) = block_of (?ys @ [?x]) c"
          using raw_block_snoc[of ?ys c ?x] nc by simp
        have hs3: "heap s3 = (heap s)(?nb \<mapsto> block_of (?ys @ [?x]) c,
                                    b \<mapsto> patch ?S 0 (replicate ?n Raw))"
          and v3: "vecs s3 = vecs s" "next_block s3 = Suc ?nb" "store_limit s3 = store_limit s"
          using t3 hs2 v2 bnb by (simp_all add: transforms_def alters_def nbk)
        have hb3: "heap s3 b = Some (patch ?S 0 (replicate ?n Raw))"
          using hs3 by simp
        let ?s4 = "s3\<lparr>vecs := (vecs s)(this \<mapsto> v\<lparr>v_data := ?nd\<rparr>)\<rparr>"
        have d: "RawMemory_dtor (v_data v) ?s4 =
            (Inr (), ?s4\<lparr>heap := (heap ?s4)(b := None), trace := trace ?s4 @ [Deallocated b]\<rparr>)"
          by (rule RawMemory_dtor_some[OF Some]) (simp add: hb3)
        have "U s1 = (Inr (), s3)"
          by (simp add: Ueq' on_unwind_def catchE_def run3 r3)
        then have "EmplaceBack T this a s =
            (Inr (Some ?nb, ?n),
             s3\<lparr>vecs := (vecs s)(this \<mapsto> v\<lparr>v_data := ?nd, v_size := Suc ?n\<rparr>),
                heap := (heap s3)(b := None), trace := trace s3 @ [Deallocated b]\<rparr>)"
          unfolding eq
          by (simp add: bindE_def[of U] bindE_def[of "put_vec this (v\<lparr>v_data := ?nd\<rparr>)"]
                put_vec_def v3 bindE_def[of "RawMemory_dtor (v_data v)"] d
                bindE_def get_vec_def returnE_def sz)
        moreover have "v\<lparr>v_data := ?nd, v_size := Suc ?n\<rparr> = \<lparr>v_data = ?nd, v_size = Suc ?n\<rparr>"
          by (cases v) simp
        ultimately show ?thesis
          using ok su w2 hs3 v3 Some by (simp add: vector_update_all)
      next
        fix S' D'
        assume su: "\<not> succeed (map (relocation_ctor T) ?ys) (world s2)"
          and "fst (?cm' s2) = Inl ElementThrew"
          and "alters s2 (snd (?cm' s2)) [(b, S'), (?nb, D')]"
          and cc: "copy_constructible T \<longrightarrow> heap (snd (?cm' s2)) = heap s2"
        with run3 have r3: "r3 = Inl ElementThrew"
          and a3: "alters s2 s3 [(b, S'), (?nb, D')]"
          and h3: "copy_constructible T \<longrightarrow> heap s3 = heap s2"
          by simp_all
        have nb3: "heap s3 ?nb = Some D'"
          and v3: "vecs s3 = vecs s" "next_block s3 = Suc ?nb" "store_limit s3 = store_limit s"
          using a3 v2 bnb by (simp_all add: alters_def)
        note d = release[OF nb3]
        have "U s1 = (Inl ElementThrew,
            s3\<lparr>heap := (heap s3)(?nb := None), trace := trace s3 @ [Deallocated ?nb]\<rparr>)"
          by (simp add: Ueq' on_unwind_def catchE_def run3 r3 bindE_def d throwE_def)
        then have res: "EmplaceBack T this a s = (Inl ElementThrew,
            s3\<lparr>heap := (heap s3)(?nb := None), trace := trace s3 @ [Deallocated ?nb]\<rparr>)"
          unfolding eq by (simp add: bindE_def[of U])
        have "heap s3 = heap s2 \<Longrightarrow> (heap s3)(?nb := None) = (heap s)(b \<mapsto> ?S)"
          using hs2 bnb fresh by (simp add: fun_upd_twist)
        with su w2 ok v3 h3 Some fresh0 show ?thesis
          unfolding res by simp
      qed
    qed
  qed
qed

section \<open>Copy construction, destruction and copy assignment\<close>

lemma Vector_copy_value_spec:
  assumes "holds s r ys" "heap_ok T s" "ys \<noteq> []"
  shows "Vector_copy_value T r s = (Inl BadAlloc, s)
       \<or> (fst (Vector_copy_value T r s) =
            Inr \<lparr>v_data = \<lparr>rm_buffer = Some (next_block s), rm_capacity = length ys\<rparr>,
                 v_size = length ys\<rparr> \<and>
          heap (snd (Vector_copy_value T r s)) =
            (heap s)(next_block s \<mapsto> block_of ys (length ys)))
       \<or> (fst (Vector_copy_value T r s) = Inl ElementThrew \<and>
          heap (snd (Vector_copy_value T r s)) = heap s)"
proof -
  let ?nb = "next_block s"
  let ?m = "length ys"
  let ?nd = "\<lparr>rm_buffer = Some ?nb, rm_capacity = ?m\<rparr>"
  let ?s1 = "s\<lparr>heap := (heap s)(?nb \<mapsto> replicate ?m Raw), next_block := Suc ?nb,
               trace := trace s @ [Allocated ?nb ?m]\<rparr>"
  let ?c = "rm_capacity (v_data r)"
  let ?S = "block_of ys ?c"
  let ?D = "replicate ?m Raw"
  have m0: "?m \<noteq> 0" using assms(3) by simp
  have sz: "v_size r = ?m" "?m \<le> ?c" using assms(1) by (simp_all add: holds_def)
  from holds_buffer[OF assms(1,3)] obtain br where br: "rm_buffer (v_data r) = Some br" ..
  have hbr: "heap s br = Some ?S" using assms(1) br by (rule holds_block)
  have ne: "br \<noteq> ?nb" using assms(2) hbr by (rule heap_ok_allocated)
  let ?u = "ucopy_from T (Some br, 0) (Some ?nb, 0) 0 ?m"
  have s0: "0 < size_of T" using assms(2) by (rule heap_ok_size)
  have "?m * size_of T \<le> length ?S * size_of T"
    using sz by (intro mult_le_mono1) (simp add: length_block_of)
  then have nw: "?m * size_of T < 2 ^ 64"
    using heap_ok_block[OF assms(2) hbr] by (rule le_less_trans)
  show ?thesis
  proof (cases "?m * size_of T \<le> store_limit s")
    case False
    then have "store_limit s < size_t_mul ?m (size_of T)"
      using nw by (simp add: size_t_mul_small)
    from RawMemory_ctor_refused[OF m0 this] show ?thesis
      by (simp add: Vector_copy_value_def sz bindE_def[of "RawMemory_ctor T ?m"])
  next
    case True
  note rc = RawMemory_ctor_pos[OF m0 s0 nw True]
  have eq: "Vector_copy_value T r s =
      bindE (on_unwind ?u (RawMemory_dtor ?nd)) (\<lambda>_. returnE \<lparr>v_data = ?nd, v_size = ?m\<rparr>) ?s1"
    by (simp add: Vector_copy_value_def sz bindE_def[of "RawMemory_ctor T ?m"] rc GetAddress_def br
          uninitialized_copy_n_def ucopy_from_def)
  have pre: "heap ?s1 br = Some ?S" "heap ?s1 ?nb = Some ?D" "br \<noteq> ?nb"
      "slice ?S (0 + 0) ?m = map Live ys" "0 + 0 + ?m \<le> length ?S" "0 + 0 + ?m \<le> length ?D"
      "slice ?D 0 0 = map Live []" "slice ?D (0 + 0) ?m = replicate ?m Raw"
  proof -
    show "heap ?s1 br = Some ?S" "heap ?s1 ?nb = Some ?D" "br \<noteq> ?nb"
      "0 + 0 + ?m \<le> length ?S" "0 + 0 + ?m \<le> length ?D"
      using hbr ne sz by (simp_all add: length_block_of)
    show "slice ?S (0 + 0) ?m = map Live ys" using slice_block_of_all[of ys ?c] by simp
    show "slice ?D 0 0 = map Live []" "slice ?D (0 + 0) ?m = replicate ?m Raw"
      by (simp_all add: slice_def)
  qed
  note u = ucopy_from_spec[OF pre, of T]
  obtain r2 s2 where run: "?u ?s1 = (r2, s2)" by (cases "?u ?s1")
  from u show ?thesis
  proof
    assume "succeed (map (copy_ctor T) ys) (world ?s1) \<and> fst (?u ?s1) = Inr () \<and>
          transforms ?s1 (snd (?u ?s1)) [(?nb, patch ?D (0 + 0) (map Live ys))]
            (map (\<lambda>t. CopyCtor (At (Some br, 0 + t)) (Into (Some ?nb, 0 + t))) [0..<0 + ?m])"
    with run have r2: "r2 = Inr ()"
      and t2: "alters ?s1 s2 [(?nb, patch ?D (0 + 0) (map Live ys))]"
      by (simp_all add: transforms_def)
    have h2: "heap s2 = (heap s)(?nb \<mapsto> block_of ys ?m)"
      using t2 by (simp add: alters_def patch_raw_block_of)
    have "Vector_copy_value T r s = (Inr \<lparr>v_data = ?nd, v_size = ?m\<rparr>, s2)"
      unfolding eq by (simp add: bindE_def on_unwind_def catchE_def run r2 returnE_def)
    with h2 show ?thesis by simp
  next
    assume "\<not> succeed (map (copy_ctor T) ys) (world ?s1) \<and>
          fst (?u ?s1) = Inl ElementThrew \<and>
          alters ?s1 (snd (?u ?s1)) [(?nb, patch ?D 0 (replicate (0 + ?m) Raw))]"
    with run have r2: "r2 = Inl ElementThrew"
      and a2: "alters ?s1 s2 [(?nb, patch ?D 0 (replicate (0 + ?m) Raw))]"
      by simp_all
    have nb2: "heap s2 ?nb = Some (patch ?D 0 (replicate (0 + ?m) Raw))"
      and h2: "(heap s2)(?nb := None) = (heap s)(?nb := None)"
      using a2 by (simp_all add: alters_def)
    let ?s3 = "s2\<lparr>heap := (heap s2)(?nb := None), trace := trace s2 @ [Deallocated ?nb]\<rparr>"
    have d: "RawMemory_dtor ?nd s2 = (Inr (), ?s3)"
      by (rule RawMemory_dtor_some[of _ ?nb, OF _ nb2]) simp
    have res: "Vector_copy_value T r s = (Inl ElementThrew, ?s3)"
      unfolding eq by (simp add: bindE_def on_unwind_def catchE_def run r2 throwE_def d)
    have "(heap s)(?nb := None) = heap s"
      using heap_ok_fresh[OF assms(2)] by (simp add: fun_upd_idem)
    with h2 show ?thesis unfolding res by simp
  qed
  qed
qed

lemma Vector_dtor_value_spec:
  assumes "holds s v xs"
  shows "fst (Vector_dtor_value T v s) = Inr () \<and>
         vecs (snd (Vector_dtor_value T v s)) = vecs s \<and>
         heap (snd (Vector_dtor_value T v s)) =
           (case rm_buffer (v_data v) of None \<Rightarrow> heap s | Some b \<Rightarrow> (heap s)(b := None))"
proof (cases "rm_buffer (v_data v)")
  case None
  with assms have "xs = []" by (rule holds_null)
  with assms have "v_size v = 0" by (simp add: holds_def)
  then have "Vector_dtor_value T v s = (Inr (), s)"
    using None by (simp add: Vector_dtor_value_def returnE_def RawMemory_dtor_none)
  then show ?thesis using None by simp
next
  case (Some b)
  let ?c = "rm_capacity (v_data v)"
  let ?S = "block_of xs ?c"
  let ?n = "length xs"
  let ?d = "destroy_n T (Some b, 0) ?n"
  have sz: "v_size v = ?n" "?n \<le> ?c" using assms by (simp_all add: holds_def)
  have hb: "heap s b = Some ?S" using assms Some by (rule holds_block)
  have "slice ?S 0 ?n = map Live xs" by (rule slice_block_of_all)
  moreover have "0 + ?n \<le> length ?S" using sz by (simp add: length_block_of)
  ultimately have d: "fst (?d s) = Inr () \<and>
      transforms s (snd (?d s)) [(b, patch ?S 0 (replicate ?n Raw))]
        (map (\<lambda>k. Dtor (Into (Some b, 0 + k))) [0..<?n])"
    using destroy_n_live[OF hb, of 0 ?n xs T] by simp
  obtain r2 s2 where run: "?d s = (r2, s2)" by (cases "?d s")
  with d have r2: "r2 = Inr ()" and a2: "alters s s2 [(b, patch ?S 0 (replicate ?n Raw))]"
    by (simp_all add: transforms_def)
  have h2: "heap s2 b = Some (patch ?S 0 (replicate ?n Raw))"
    and v2: "vecs s2 = vecs s" and h3: "(heap s2)(b := None) = (heap s)(b := None)"
    using a2 by (simp_all add: alters_def)
  have "Vector_dtor_value T v s =
      (Inr (), s2\<lparr>heap := (heap s2)(b := None), trace := trace s2 @ [Deallocated b]\<rparr>)"
    by (simp add: Vector_dtor_value_def GetAddress_def Some sz bindE_def run r2
          RawMemory_dtor_some[OF Some h2] del: destroy_n.simps)
  then show ?thesis using Some v2 h3 by simp
qed

text \<open>Copy assignment from a source that has more elements than the destination has slots.\<close>

lemma assign_copy_grow_spec:
  assumes "vecs s this = Some v" "vecs s rhs = Some r" "holds s v xs" "holds s r ys"
    "heap_ok T s" "rm_capacity (v_data v) < length ys"
  shows "assign_copy T this rhs s = (Inl BadAlloc, s)
       \<or> (fst (assign_copy T this rhs s) = Inr () \<and>
          vecs (snd (assign_copy T this rhs s)) =
            (vecs s)(this \<mapsto>
               \<lparr>v_data = \<lparr>rm_buffer = Some (next_block s), rm_capacity = length ys\<rparr>,
                v_size = length ys\<rparr>) \<and>
          heap (snd (assign_copy T this rhs s)) =
            (case rm_buffer (v_data v) of
               None \<Rightarrow> (heap s)(next_block s \<mapsto> block_of ys (length ys))
             | Some b \<Rightarrow> (heap s)(next_block s \<mapsto> block_of ys (length ys), b := None)))
       \<or> (fst (assign_copy T this rhs s) = Inl ElementThrew \<and>
          vecs (snd (assign_copy T this rhs s)) = vecs s \<and>
          heap (snd (assign_copy T this rhs s)) = heap s)"
proof -
  let ?nb = "next_block s"
  let ?m = "length ys"
  let ?nv = "\<lparr>v_data = \<lparr>rm_buffer = Some ?nb, rm_capacity = ?m\<rparr>, v_size = ?m\<rparr>"
  let ?tail = "\<lambda>_::unit. bindE (get_vec rhs) (\<lambda>r.
     bindE (get_vec this) (\<lambda>v. put_vec this (v\<lparr>v_size := v_size r\<rparr>)))"
  let ?cp = "Vector_copy_value T r"
  have ys: "ys \<noteq> []" using assms(6) by auto
  have szr: "v_size r = ?m" using assms(4) by (simp add: holds_def)
  have szv: "length xs \<le> rm_capacity (v_data v)" using assms(3) by (simp add: holds_def)
  have ne: "this \<noteq> rhs"
  proof
    assume "this = rhs"
    with assms(1,2) have "v = r" by simp
    with assms(4) have "?m \<le> rm_capacity (v_data v)" by (simp add: holds_def)
    with assms(6) show False by simp
  qed
  have eq: "assign_copy T this rhs s =
      bindE ?cp (\<lambda>rhs_copy. bindE (put_vec this rhs_copy) (\<lambda>_.
        bindE (Vector_dtor_value T v) ?tail)) s"
    using ne assms(1,2,6)
    by (simp add: assign_copy_def bindE_assoc bindE_get_vec Capacity_rm_def szr)
  obtain r1 s1 where run: "?cp s = (r1, s1)" by (cases "?cp s")
  have v1: "vecs s1 = vecs s" using vecs_Vector_copy_value[of T r s] run by simp
  from Vector_copy_value_spec[OF assms(4,5) ys] show ?thesis
  proof (elim disjE)
    assume "?cp s = (Inl BadAlloc, s)"
    then have "assign_copy T this rhs s = (Inl BadAlloc, s)"
      unfolding eq by (simp add: bindE_def[of ?cp])
    then show ?thesis by simp
  next
    assume "fst (?cp s) = Inr ?nv \<and> heap (snd (?cp s)) = (heap s)(?nb \<mapsto> block_of ys ?m)"
    with run have r1: "r1 = Inr ?nv" and h1: "heap s1 = (heap s)(?nb \<mapsto> block_of ys ?m)"
      by simp_all
    let ?s2 = "s1\<lparr>vecs := (vecs s)(this \<mapsto> ?nv)\<rparr>"
    have hv: "holds ?s2 v xs"
    proof (cases "rm_buffer (v_data v)")
      case None
      with assms(3) show ?thesis by (auto simp: holds_def)
    next
      case (Some b)
      from heap_ok_allocated[OF assms(5) holds_block[OF assms(3) Some]] assms(3) Some h1
      show ?thesis by (simp add: holds_def)
    qed
    note d = Vector_dtor_value_spec[OF hv, of T]
    obtain r3 s3 where run3: "Vector_dtor_value T v ?s2 = (r3, s3)"
      by (cases "Vector_dtor_value T v ?s2")
    with d have r3: "r3 = Inr ()" and v3: "vecs s3 = (vecs s)(this \<mapsto> ?nv)"
      and h3: "heap s3 =
           (case rm_buffer (v_data v) of None \<Rightarrow> heap s1 | Some b \<Rightarrow> (heap s1)(b := None))"
      by (simp_all split: option.splits)
    have t: "?tail () s3 = (Inr (), s3)"
    proof -
      have a: "vecs s3 rhs = Some r" using v3 ne assms(2) by simp
      have b: "vecs s3 this = Some ?nv" using v3 by simp
      have "s3\<lparr>vecs := (vecs s3)(this \<mapsto> ?nv)\<rparr> = s3"
        using b by (simp add: fun_upd_idem)
      then show ?thesis
        by (simp add: bindE_get_vec[OF a] bindE_get_vec[OF b] put_vec_def szr)
    qed
    have "assign_copy T this rhs s = (Inr (), s3)"
      unfolding eq
      by (simp add: bindE_def[of ?cp] run r1 bindE_def[of "put_vec this ?nv"] put_vec_def v1
            bindE_def[of "Vector_dtor_value T v"] run3 r3 t)
    with v3 h3 h1 show ?thesis by (simp split: option.splits)
  next
    assume "fst (?cp s) = Inl ElementThrew \<and> heap (snd (?cp s)) = heap s"
    with run have r1: "r1 = Inl ElementThrew" and h1: "heap s1 = heap s" by simp_all
    have "assign_copy T this rhs s = (Inl ElementThrew, s1)"
      unfolding eq by (simp add: bindE_def[of ?cp] run r1)
    with v1 h1 show ?thesis by simp
  qed
qed

section \<open>Insertion into spare capacity\<close>

lemma transforms_same_block:
  "transforms s s1 [(b, X)] e1 \<Longrightarrow> transforms s1 s2 [(b, Y)] e2 \<Longrightarrow>
   transforms s s2 [(b, Y)] (e1 @ e2)"
  by (simp add: transforms_def alters_def)

lemma length_insert_at: "length (insert_at xs p x) = Suc (length xs)"
  by (simp add: insert_at_def)

lemma length_gap: "length (gap T xs q) = Suc (length xs)"
  by (simp add: gap_def length_insert_at)

lemma nth_insert_at: "p \<le> length xs \<Longrightarrow> insert_at xs p x ! p = x"
  by (simp add: insert_at_def nth_append)

lemma nth_insert_at_below: "k < p \<Longrightarrow> p \<le> length xs \<Longrightarrow> insert_at xs p x ! k = xs ! k"
  by (simp add: insert_at_def nth_append)

lemma succeed_append:
  "succeed (fs @ gs) w \<longleftrightarrow> succeed fs w \<and> succeed gs (after_all fs w)"
  by (induction fs arbitrary: w) (simp_all add: after_all_def)

lemma after_all_Cons: "after_all (f # fs) w = after_all fs (snd (f w))"
  by (simp add: after_all_def)

lemma after_all_Nil: "after_all [] w = w"
  by (simp add: after_all_def)

lemma insert_at_update: "q \<le> length xs \<Longrightarrow> (insert_at xs q y)[q := x] = insert_at xs q x"
  by (simp add: insert_at_def list_update_append)

lemma gap_last:
  assumes "xs \<noteq> []"
  shows "(xs @ [last xs])[length xs - 1 := moved_from T (last xs)] = gap T xs (length xs - 1)"
proof -
  from assms obtain ys y where xs: "xs = ys @ [y]" by (metis append_butlast_last_id)
  show ?thesis by (simp add: xs gap_def insert_at_def list_update_append nth_append)
qed

lemma gap_step:
  assumes "Suc q < length xs"
  shows "(gap T xs (Suc q))[Suc q := xs ! q, q := moved_from T (xs ! q)] = gap T xs q"
proof -
  have q: "q < length xs" using assms by simp
  have t: "take (Suc q) xs = take q xs @ [xs ! q]" using q by (rule take_Suc_conv_app_nth)
  have d: "drop q xs = xs ! q # drop (Suc q) xs" using q by (simp add: Cons_nth_drop_Suc)
  have l: "length (take q xs) = q" using q by simp
  show ?thesis
    unfolding gap_def insert_at_def t d
    using l by (simp add: list_update_append nth_append)
qed

lemma nth_gap_below: "Suc q < length xs \<Longrightarrow> gap T xs (Suc q) ! q = xs ! q"
  by (simp add: gap_def nth_insert_at_below)

lemma nth_gap: "q < length xs \<Longrightarrow> gap T xs q ! q = moved_from T (xs ! q)"
  by (simp add: gap_def nth_insert_at)

subsection \<open>Single steps inside one block\<close>

lemma move_assign_within:
  assumes "heap s b = Some B" "i < length B" "j < length B" "B ! i = Live old" "B ! j = Live v"
  shows "(fst (move_asgn T old v (world s)) \<and>
          fst (move_assign T (Some b, i) (At (Some b, j)) s) = Inr () \<and>
          transforms s (snd (move_assign T (Some b, i) (At (Some b, j)) s))
            [(b, B[i := Live v, j := Live (moved_from T v)])]
            [MoveAssign (At (Some b, j)) (Some b, i)] \<and>
          world (snd (move_assign T (Some b, i) (At (Some b, j)) s)) =
            snd (move_asgn T old v (world s)))
       \<or> (\<not> fst (move_asgn T old v (world s)) \<and>
          fst (move_assign T (Some b, i) (At (Some b, j)) s) = Inl ElementThrew \<and>
          transforms s (snd (move_assign T (Some b, i) (At (Some b, j)) s)) [] [])"
  using assms
  by (simp add: move_assign_def bindE_def load_live[OF assms(1)] attempt_def place_def emit_def
        transforms_def alters_def)

lemma move_assign_val:
  assumes "heap s b = Some B" "i < length B" "B ! i = Live old"
  shows "(fst (move_asgn T old x (world s)) \<and>
          fst (move_assign T (Some b, i) (Val x) s) = Inr () \<and>
          transforms s (snd (move_assign T (Some b, i) (Val x) s))
            [(b, B[i := Live x])] [MoveAssign (Val x) (Some b, i)] \<and>
          world (snd (move_assign T (Some b, i) (Val x) s)) = snd (move_asgn T old x (world s)))
       \<or> (\<not> fst (move_asgn T old x (world s)) \<and>
          fst (move_assign T (Some b, i) (Val x) s) = Inl ElementThrew \<and>
          transforms s (snd (move_assign T (Some b, i) (Val x) s)) [] [])"
  using assms
  by (simp add: move_assign_def bindE_def load_live[OF assms(1)] attempt_def place_def emit_def
        returnE_def transforms_def alters_def)

lemma move_construct_within:
  assumes "heap s b = Some B" "i < length B" "j < length B" "B ! j = Live v"
  shows "(fst (move_ctor T v (world s)) \<and>
          fst (move_construct T (Into (Some b, i)) (At (Some b, j)) s) = Inr v \<and>
          transforms s (snd (move_construct T (Into (Some b, i)) (At (Some b, j)) s))
            [(b, B[i := Live v, j := Live (moved_from T v)])]
            [MoveCtor (At (Some b, j)) (Into (Some b, i))] \<and>
          world (snd (move_construct T (Into (Some b, i)) (At (Some b, j)) s)) =
            snd (move_ctor T v (world s)))
       \<or> (\<not> fst (move_ctor T v (world s)) \<and>
          fst (move_construct T (Into (Some b, i)) (At (Some b, j)) s) = Inl ElementThrew \<and>
          transforms s (snd (move_construct T (Into (Some b, i)) (At (Some b, j)) s)) [] [])"
  using assms
  by (simp add: move_construct_def bindE_def load_live[OF assms(1)] attempt_def place_def
        emit_def returnE_def transforms_def alters_def)

lemma construct_local_spec:
  assumes "heap s b = Some (block_of xs c)" "length xs \<le> c"
    "operand_in (Some b) (length xs) (arg_operand a)"
  shows "(fst (arg_ctor T a (operand_value xs (arg_operand a)) (world s)) \<and>
          fst (construct T Local a s) = Inr (operand_value xs (arg_operand a)) \<and>
          transforms s (snd (construct T Local a s))
            [(b, block_of (after_construct T xs a) c)] [ctor_event Local a] \<and>
          world (snd (construct T Local a s)) =
            snd (arg_ctor T a (operand_value xs (arg_operand a)) (world s)))
       \<or> (\<not> fst (arg_ctor T a (operand_value xs (arg_operand a)) (world s)) \<and>
          fst (construct T Local a s) = Inl ElementThrew \<and>
          transforms s (snd (construct T Local a s)) [] [])"
proof -
  have idem: "(heap s)(b \<mapsto> block_of xs c) = heap s"
    using assms(1) by (simp add: fun_upd_idem)
  have live: "load (Some b, i) s = (Inr (xs ! i), s)" if "i < length xs" for i
    using that assms(2) by (intro load_live[OF assms(1)]) (simp_all add: nth_block_of length_block_of)
  show ?thesis
  proof (cases a)
    case (Copying src)
    show ?thesis
    proof (cases src)
      case (At p)
      with Copying assms(3) obtain i where p: "p = (Some b, i)" "i < length xs"
        by (cases p) auto
      show ?thesis
        by (simp add: Copying At p copy_construct_def bindE_def live attempt_def emit_def
              returnE_def transforms_def alters_def idem)
    next
      case (Val x)
      show ?thesis
        by (simp add: Copying Val copy_construct_def bindE_def attempt_def emit_def
              returnE_def transforms_def alters_def idem)
    qed
  next
    case (Moving src)
    show ?thesis
    proof (cases src)
      case (At p)
      with Moving assms(3) obtain i where p: "p = (Some b, i)" "i < length xs"
        by (cases p) auto
      have il: "i < length (block_of xs c)" using p assms(2) by (simp add: length_block_of)
      show ?thesis
        using assms(1) il
        by (simp add: Moving At p move_construct_def bindE_def live attempt_def emit_def
              returnE_def place_def transforms_def alters_def block_of_update)
    next
      case (Val x)
      show ?thesis
        by (simp add: Moving Val move_construct_def bindE_def attempt_def emit_def
              returnE_def transforms_def alters_def idem)
    qed
  qed
qed

subsection \<open>The shift\<close>

lemma move_backward_n_spec:
  assumes "heap s b = Some (block_of (gap T xs (p + k)) c)" "p + k < length xs" "length xs < c"
  shows "(succeed (map (\<lambda>t. move_asgn T (moved_from T (xs ! (p + k - t))) (xs ! (p + k - 1 - t)))
                     [0..<k]) (world s) \<and>
          fst (move_backward_n T (Some b, p) k (Some b, p + k + 1) s) = Inr () \<and>
          transforms s (snd (move_backward_n T (Some b, p) k (Some b, p + k + 1) s))
            [(b, block_of (gap T xs p) c)]
            (map (\<lambda>t. MoveAssign (At (Some b, p + k - 1 - t)) (Some b, p + k - t)) [0..<k]) \<and>
          world (snd (move_backward_n T (Some b, p) k (Some b, p + k + 1) s)) =
            after_all (map (\<lambda>t. move_asgn T (moved_from T (xs ! (p + k - t)))
                                    (xs ! (p + k - 1 - t))) [0..<k]) (world s))
       \<or> (\<not> succeed (map (\<lambda>t. move_asgn T (moved_from T (xs ! (p + k - t)))
                                  (xs ! (p + k - 1 - t))) [0..<k]) (world s) \<and>
          fst (move_backward_n T (Some b, p) k (Some b, p + k + 1) s) = Inl ElementThrew \<and>
          (\<exists>evs. trace (snd (move_backward_n T (Some b, p) k (Some b, p + k + 1) s)) =
                   trace s @ evs))"
  using assms
proof (induction k arbitrary: s)
  case 0
  then show ?case
    by (simp add: returnE_def transforms_def alters_def fun_upd_idem after_all_Nil)
next
  case (Suc k)
  let ?q = "p + k"
  let ?B = "block_of (gap T xs (Suc ?q)) c"
  let ?m = "move_assign T (Some b, Suc ?q) (At (Some b, ?q))"
  let ?rest = "move_backward_n T (Some b, p) k (Some b, p + k + 1)"
  let ?f = "move_asgn T (moved_from T (xs ! Suc ?q)) (xs ! ?q)"
  let ?A = "map (\<lambda>t. move_asgn T (moved_from T (xs ! (p + k - t))) (xs ! (p + k - 1 - t)))
              [0..<k]"
  from Suc.prems have q: "Suc ?q < length xs" and c: "length xs < c"
    and hb: "heap s b = Some ?B" by simp_all
  have len: "length ?B = c" using c by (simp add: length_block_of length_gap)
  have eq: "move_backward_n T (Some b, p) (Suc k) (Some b, p + Suc k + 1) s = bindE ?m (\<lambda>_. ?rest) s"
    by (simp add: ptr_add_def)
  have att: "map (\<lambda>t. move_asgn T (moved_from T (xs ! (p + Suc k - t)))
                        (xs ! (p + Suc k - 1 - t))) [0..<Suc k] = ?f # ?A"
    by (simp add: upt_conv_Cons map_Suc_upt[symmetric] del: upt_Suc)
  have st: "(fst (?f (world s)) \<and> fst (?m s) = Inr () \<and>
          transforms s (snd (?m s))
            [(b, ?B[Suc ?q := Live (xs ! ?q), ?q := Live (moved_from T (xs ! ?q))])]
            [MoveAssign (At (Some b, ?q)) (Some b, Suc ?q)] \<and>
          world (snd (?m s)) = snd (?f (world s)))
       \<or> (\<not> fst (?f (world s)) \<and> fst (?m s) = Inl ElementThrew \<and>
          transforms s (snd (?m s)) [] [])"
  proof (rule move_assign_within[OF hb])
    show "Suc ?q < length ?B" "?q < length ?B" using q c len by simp_all
    show "?B ! Suc ?q = Live (moved_from T (xs ! Suc ?q))"
      using q c by (simp add: nth_block_of length_gap nth_gap)
    show "?B ! ?q = Live (xs ! ?q)"
      using q c by (simp add: nth_block_of length_gap nth_gap_below)
  qed
  have upd: "?B[Suc ?q := Live (xs ! ?q), ?q := Live (moved_from T (xs ! ?q))] =
      block_of (gap T xs ?q) c"
    using q gap_step[OF q, of T] by (simp add: block_of_update length_gap)
  obtain r1 s1 where run: "?m s = (r1, s1)" by (cases "?m s")
  from st show ?case
  proof
    assume "fst (?f (world s)) \<and> fst (?m s) = Inr () \<and>
          transforms s (snd (?m s))
            [(b, ?B[Suc ?q := Live (xs ! ?q), ?q := Live (moved_from T (xs ! ?q))])]
            [MoveAssign (At (Some b, ?q)) (Some b, Suc ?q)] \<and>
          world (snd (?m s)) = snd (?f (world s))"
    with run upd have ok: "fst (?f (world s))" and r1: "r1 = Inr ()"
      and t1: "transforms s s1 [(b, block_of (gap T xs ?q) c)]
                 [MoveAssign (At (Some b, ?q)) (Some b, Suc ?q)]"
      and w1: "world s1 = snd (?f (world s))"
      by simp_all
    have h1: "heap s1 b = Some (block_of (gap T xs ?q) c)"
      using t1 by (simp add: transforms_def alters_def)
    have q': "p + k < length xs" using q by simp
    note ih = Suc.IH[OF h1 q' c]
    have res: "move_backward_n T (Some b, p) (Suc k) (Some b, p + Suc k + 1) s = ?rest s1"
      unfolding eq by (simp add: bindE_def run r1)
    have ev: "map (\<lambda>t. MoveAssign (At (Some b, p + Suc k - 1 - t)) (Some b, p + Suc k - t))
                [0..<Suc k] =
        [MoveAssign (At (Some b, ?q)) (Some b, Suc ?q)] @
        map (\<lambda>t. MoveAssign (At (Some b, p + k - 1 - t)) (Some b, p + k - t)) [0..<k]"
      by (simp add: upt_conv_Cons map_Suc_upt[symmetric] del: upt_Suc)
    have su: "succeed (?f # ?A) (world s) = succeed ?A (world s1)"
      using ok w1 by simp
    have aa: "after_all (?f # ?A) (world s) = after_all ?A (world s1)"
      using w1 by (simp add: after_all_Cons)
    from ih show ?thesis
    proof
      assume "succeed ?A (world s1) \<and> fst (?rest s1) = Inr () \<and>
          transforms s1 (snd (?rest s1)) [(b, block_of (gap T xs p) c)]
            (map (\<lambda>t. MoveAssign (At (Some b, p + k - 1 - t)) (Some b, p + k - t)) [0..<k]) \<and>
          world (snd (?rest s1)) = after_all ?A (world s1)"
      then have a: "succeed ?A (world s1)" "fst (?rest s1) = Inr ()"
        "world (snd (?rest s1)) = after_all ?A (world s1)"
        and t2: "transforms s1 (snd (?rest s1)) [(b, block_of (gap T xs p) c)]
            (map (\<lambda>t. MoveAssign (At (Some b, p + k - 1 - t)) (Some b, p + k - t)) [0..<k])"
        by simp_all
      from transforms_same_block[OF t1 t2] a show ?thesis
        unfolding res ev att su aa by simp
    next
      assume "\<not> succeed ?A (world s1) \<and> fst (?rest s1) = Inl ElementThrew \<and>
          (\<exists>evs. trace (snd (?rest s1)) = trace s1 @ evs)"
      then obtain evs where a: "\<not> succeed ?A (world s1)" "fst (?rest s1) = Inl ElementThrew"
        "trace (snd (?rest s1)) = trace s1 @ evs"
        by blast
      have "trace s1 = trace s @ [MoveAssign (At (Some b, ?q)) (Some b, Suc ?q)]"
        using t1 by (simp add: transforms_def)
      with a show ?thesis unfolding res att su by simp
    qed
  next
    assume "\<not> fst (?f (world s)) \<and> fst (?m s) = Inl ElementThrew \<and>
          transforms s (snd (?m s)) [] []"
    with run have bad: "\<not> fst (?f (world s))" and r1: "r1 = Inl ElementThrew"
      and t1: "transforms s s1 [] []" by simp_all
    have "move_backward_n T (Some b, p) (Suc k) (Some b, p + Suc k + 1) s =
        (Inl ElementThrew, s1)"
      unfolding eq by (simp add: bindE_def run r1)
    with bad t1 show ?thesis unfolding att by (simp add: transforms_def)
  qed
qed

lemma shift_events_unfold:
  assumes "p < n"
  shows "shift_events b n p =
     MoveCtor (At (Some b, n - 1)) (Into (Some b, n)) #
     map (\<lambda>t. MoveAssign (At (Some b, p + (n - 1 - p) - 1 - t)) (Some b, p + (n - 1 - p) - t))
       [0..<n - 1 - p]"
proof -
  from assms have np: "n - p = Suc (n - 1 - p)" and pk: "p + (n - 1 - p) = n - 1" by simp_all
  show ?thesis
    unfolding shift_events_def np pk
    by (simp add: upt_conv_Cons map_Suc_upt[symmetric] del: upt_Suc)
qed

text \<open>
  The three statements that open slot \<open>p\<close> and fill it from the temporary, on a block
  with a raw slot behind the elements \<open>ys\<close>: they complete exactly when every one of
  their element operations does.
\<close>

lemma open_slot_spec:
  assumes "heap s b = Some (block_of ys c)" "p < length ys" "length ys < c"
  shows "(succeed (shift_attempts T ys p x) (world s) \<and>
          fst (bindE (move_construct T (Into (Some b, length ys)) (At (Some b, length ys - 1)))
                 (\<lambda>_. bindE (move_backward T (Some b, p) (Some b, length ys - 1)
                                (Some b, length ys))
                 (\<lambda>_. move_assign T (Some b, p) (Val x))) s) = Inr () \<and>
          transforms s
            (snd (bindE (move_construct T (Into (Some b, length ys)) (At (Some b, length ys - 1)))
                 (\<lambda>_. bindE (move_backward T (Some b, p) (Some b, length ys - 1)
                                (Some b, length ys))
                 (\<lambda>_. move_assign T (Some b, p) (Val x))) s))
            [(b, block_of (insert_at ys p x) c)]
            (shift_events b (length ys) p @ [MoveAssign (Val x) (Some b, p)]))
       \<or> (\<not> succeed (shift_attempts T ys p x) (world s) \<and>
          fst (bindE (move_construct T (Into (Some b, length ys)) (At (Some b, length ys - 1)))
                 (\<lambda>_. bindE (move_backward T (Some b, p) (Some b, length ys - 1)
                                (Some b, length ys))
                 (\<lambda>_. move_assign T (Some b, p) (Val x))) s) = Inl ElementThrew \<and>
          (\<exists>evs. trace
             (snd (bindE (move_construct T (Into (Some b, length ys)) (At (Some b, length ys - 1)))
                 (\<lambda>_. bindE (move_backward T (Some b, p) (Some b, length ys - 1)
                                (Some b, length ys))
                 (\<lambda>_. move_assign T (Some b, p) (Val x))) s)) = trace s @ evs))"
proof -
  let ?n = "length ys"
  let ?k = "?n - 1 - p"
  let ?B = "block_of ys c"
  let ?v = "ys ! (?n - 1)"
  let ?A = "move_construct T (Into (Some b, ?n)) (At (Some b, ?n - 1))"
  let ?S = "move_backward_n T (Some b, p) ?k (Some b, p + ?k + 1)"
  let ?F = "move_assign T (Some b, p) (Val x)"
  let ?M = "bindE ?A (\<lambda>_. bindE (move_backward T (Some b, p) (Some b, ?n - 1) (Some b, ?n))
                 (\<lambda>_. ?F))"
  let ?ev2 = "map (\<lambda>t. MoveAssign (At (Some b, p + ?k - 1 - t)) (Some b, p + ?k - t)) [0..<?k]"
  let ?f1 = "move_ctor T ?v"
  let ?fs = "map (\<lambda>t. move_asgn T (moved_from T (ys ! (p + ?k - t))) (ys ! (p + ?k - 1 - t)))
               [0..<?k]"
  let ?f3 = "move_asgn T (moved_from T (ys ! p)) x"
  have ne: "ys \<noteq> []" using assms(2) by auto
  have pk: "p + ?k = ?n - 1" "p + ?k + 1 = ?n" using assms(2) by simp_all
  have lenB: "length ?B = c" using assms(3) by (simp add: length_block_of)
  have le: "p \<le> ?n - Suc 0" and sn: "Suc (p + (?n - Suc p)) = ?n"
    using assms(2) by simp_all
  have mb: "move_backward T (Some b, p) (Some b, ?n - 1) (Some b, ?n) = ?S"
    by (simp add: move_backward_def le sn)
  have eq: "?M = bindE ?A (\<lambda>_. bindE ?S (\<lambda>_. ?F))" by (simp only: mb)
  have sa: "shift_attempts T ys p x = ?f1 # ?fs @ [?f3]"
    unfolding shift_attempts_def pk by (simp add: diff_diff_eq)
  have lv: "last ys = ?v" using ne by (simp add: last_conv_nth)
  have B1: "?B[?n := Live ?v, ?n - 1 := Live (moved_from T ?v)] = block_of (gap T ys (?n - 1)) c"
  proof -
    have "?B[?n := Live ?v] = block_of (ys @ [?v]) c" using assms(3) by (rule block_of_snoc)
    moreover have "(block_of (ys @ [?v]) c)[?n - 1 := Live (moved_from T ?v)] =
        block_of ((ys @ [?v])[?n - 1 := moved_from T ?v]) c"
      using ne by (intro block_of_update) simp
    moreover have "(ys @ [?v])[?n - 1 := moved_from T ?v] = gap T ys (?n - 1)"
      using gap_last[OF ne, of T] by (simp only: lv)
    ultimately show ?thesis by simp
  qed
  have a: "(fst (?f1 (world s)) \<and> fst (?A s) = Inr ?v \<and>
          transforms s (snd (?A s)) [(b, ?B[?n := Live ?v, ?n - 1 := Live (moved_from T ?v)])]
            [MoveCtor (At (Some b, ?n - 1)) (Into (Some b, ?n))] \<and>
          world (snd (?A s)) = snd (?f1 (world s)))
       \<or> (\<not> fst (?f1 (world s)) \<and> fst (?A s) = Inl ElementThrew \<and>
          transforms s (snd (?A s)) [] [])"
  proof (rule move_construct_within[OF assms(1)])
    show "?n < length ?B" "?n - 1 < length ?B" using assms(3) lenB by simp_all
    show "?B ! (?n - 1) = Live ?v" using ne assms(3) by (simp add: nth_block_of)
  qed
  obtain r1 s1 where run1: "?A s = (r1, s1)" by (cases "?A s")
  from a show ?thesis
  proof
    assume "fst (?f1 (world s)) \<and> fst (?A s) = Inr ?v \<and>
          transforms s (snd (?A s)) [(b, ?B[?n := Live ?v, ?n - 1 := Live (moved_from T ?v)])]
            [MoveCtor (At (Some b, ?n - 1)) (Into (Some b, ?n))] \<and>
          world (snd (?A s)) = snd (?f1 (world s))"
    with run1 B1 have ok1: "fst (?f1 (world s))" and r1: "r1 = Inr ?v"
      and t1: "transforms s s1 [(b, block_of (gap T ys (?n - 1)) c)]
                 [MoveCtor (At (Some b, ?n - 1)) (Into (Some b, ?n))]"
      and w1: "world s1 = snd (?f1 (world s))"
      by simp_all
    have tr1: "trace s1 = trace s @ [MoveCtor (At (Some b, ?n - 1)) (Into (Some b, ?n))]"
      using t1 by (simp add: transforms_def)
    have h1: "heap s1 b = Some (block_of (gap T ys (p + ?k)) c)"
    proof -
      have "heap s1 b = Some (block_of (gap T ys (?n - 1)) c)"
        using t1 by (simp add: transforms_def alters_def)
      then show ?thesis by (simp only: pk)
    qed
    have pkl: "p + ?k < ?n" using assms(2) by simp
    note sh = move_backward_n_spec[OF h1 pkl assms(3)]
    obtain r2 s2 where run2: "?S s1 = (r2, s2)" by (cases "?S s1")
    from sh show ?thesis
    proof
      assume "succeed ?fs (world s1) \<and> fst (?S s1) = Inr () \<and>
          transforms s1 (snd (?S s1)) [(b, block_of (gap T ys p) c)] ?ev2 \<and>
          world (snd (?S s1)) = after_all ?fs (world s1)"
      with run2 have ok2: "succeed ?fs (world s1)" and r2: "r2 = Inr ()"
        and t2: "transforms s1 s2 [(b, block_of (gap T ys p) c)] ?ev2"
        and w2: "world s2 = after_all ?fs (world s1)"
        by simp_all
      note t12 = transforms_same_block[OF t1 t2]
      have h2: "heap s2 b = Some (block_of (gap T ys p) c)"
        using t2 by (simp add: transforms_def alters_def)
      have f: "(fst (?f3 (world s2)) \<and> fst (?F s2) = Inr () \<and>
          transforms s2 (snd (?F s2)) [(b, (block_of (gap T ys p) c)[p := Live x])]
            [MoveAssign (Val x) (Some b, p)] \<and>
          world (snd (?F s2)) = snd (?f3 (world s2)))
       \<or> (\<not> fst (?f3 (world s2)) \<and> fst (?F s2) = Inl ElementThrew \<and>
          transforms s2 (snd (?F s2)) [] [])"
      proof (rule move_assign_val[OF h2])
        show "p < length (block_of (gap T ys p) c)"
          using assms(2,3) by (simp add: length_block_of length_gap)
        show "block_of (gap T ys p) c ! p = Live (moved_from T (ys ! p))"
          using assms(2,3) by (simp add: nth_block_of length_gap nth_gap)
      qed
      have B3: "(block_of (gap T ys p) c)[p := Live x] = block_of (insert_at ys p x) c"
        using assms(2) by (simp add: block_of_update length_insert_at gap_def insert_at_update)
      have res: "?M s = ?F s2"
        unfolding eq by (simp only: bindE_def run1 r1 run2 r2 prod.case sum.case)
      have su: "succeed (shift_attempts T ys p x) (world s) = fst (?f3 (world s2))"
        unfolding sa using ok1 ok2 w1 w2 by (simp add: succeed_append)
      from f show ?thesis
      proof
        assume "fst (?f3 (world s2)) \<and> fst (?F s2) = Inr () \<and>
          transforms s2 (snd (?F s2)) [(b, (block_of (gap T ys p) c)[p := Live x])]
            [MoveAssign (Val x) (Some b, p)] \<and>
          world (snd (?F s2)) = snd (?f3 (world s2))"
        then have ok3: "fst (?f3 (world s2))" and ok: "fst (?F s2) = Inr ()"
          and t3: "transforms s2 (snd (?F s2)) [(b, block_of (insert_at ys p x) c)]
            [MoveAssign (Val x) (Some b, p)]"
          by (simp_all add: B3)
        from transforms_same_block[OF t12 t3] ok ok3 show ?thesis
          unfolding res su shift_events_unfold[OF assms(2)] by simp
      next
        assume "\<not> fst (?f3 (world s2)) \<and> fst (?F s2) = Inl ElementThrew \<and>
          transforms s2 (snd (?F s2)) [] []"
        then have bad: "\<not> fst (?f3 (world s2))" "fst (?F s2) = Inl ElementThrew"
          and t3: "transforms s2 (snd (?F s2)) [] []" by simp_all
        from transforms_trans[OF t12 t3] have "\<exists>evs. trace (snd (?F s2)) = trace s @ evs"
          by (simp add: transforms_def)
        with bad show ?thesis unfolding res su by simp
      qed
    next
      assume "\<not> succeed ?fs (world s1) \<and> fst (?S s1) = Inl ElementThrew \<and>
          (\<exists>evs. trace (snd (?S s1)) = trace s1 @ evs)"
      with run2 obtain evs where bad: "\<not> succeed ?fs (world s1)" and r2: "r2 = Inl ElementThrew"
        and tr2: "trace s2 = trace s1 @ evs" by auto
      have "?M s = (Inl ElementThrew, s2)"
        unfolding eq by (simp only: bindE_def run1 r1 run2 r2 prod.case sum.case)
      moreover have "\<not> succeed (shift_attempts T ys p x) (world s)"
        unfolding sa using bad w1 by (simp add: succeed_append)
      ultimately show ?thesis using tr1 tr2 by simp
    qed
  next
    assume "\<not> fst (?f1 (world s)) \<and> fst (?A s) = Inl ElementThrew \<and>
          transforms s (snd (?A s)) [] []"
    with run1 have bad: "\<not> fst (?f1 (world s))" and r1: "r1 = Inl ElementThrew"
      and t1: "transforms s s1 [] []" by simp_all
    have "?M s = (Inl ElementThrew, s1)"
      unfolding eq by (simp only: bindE_def run1 r1 prod.case sum.case)
    moreover have "\<not> succeed (shift_attempts T ys p x) (world s)"
      unfolding sa using bad by simp
    ultimately show ?thesis using t1 by (simp add: transforms_def)
  qed
qed

text \<open>
  \<^verbatim>\<open>Emplace\<close> before an element of a vector with spare capacity returns exactly when the
  construction of the temporary and every operation of the shift complete.  When it
  throws, the object store and the allocator are untouched, and what it has recorded
  starts with the construction of the temporary, if that completed.
\<close>

lemma Emplace_spare_spec:
  assumes "vecs s this = Some v" "holds s v xs" "rm_buffer (v_data v) = Some b"
    "length xs < rm_capacity (v_data v)" "p < length xs"
    "operand_in (Some b) (length xs) (arg_operand a)"
  shows "(succeed (arg_ctor T a (operand_value xs (arg_operand a)) #
                   shift_attempts T (after_construct T xs a) p (operand_value xs (arg_operand a)))
            (world s) \<and>
          fst (Emplace T this (Some b, p) a s) = Inr (Some b, p) \<and>
          vecs (snd (Emplace T this (Some b, p) a s)) =
            (vecs s)(this \<mapsto> v\<lparr>v_size := Suc (length xs)\<rparr>) \<and>
          heap (snd (Emplace T this (Some b, p) a s)) b =
            Some (block_of (insert_at (after_construct T xs a) p
                    (operand_value xs (arg_operand a))) (rm_capacity (v_data v))) \<and>
          next_block (snd (Emplace T this (Some b, p) a s)) = next_block s \<and>
          trace (snd (Emplace T this (Some b, p) a s)) =
            trace s @ ctor_event Local a # shift_events b (length xs) p @
              [MoveAssign (Val (operand_value xs (arg_operand a))) (Some b, p), Dtor Local])
       \<or> (\<not> succeed (arg_ctor T a (operand_value xs (arg_operand a)) #
                     shift_attempts T (after_construct T xs a) p
                       (operand_value xs (arg_operand a))) (world s) \<and>
          fst (Emplace T this (Some b, p) a s) = Inl ElementThrew \<and>
          vecs (snd (Emplace T this (Some b, p) a s)) = vecs s \<and>
          next_block (snd (Emplace T this (Some b, p) a s)) = next_block s \<and>
          (if fst (arg_ctor T a (operand_value xs (arg_operand a)) (world s))
           then \<exists>evs. trace (snd (Emplace T this (Some b, p) a s)) =
                        trace s @ ctor_event Local a # evs
           else snd (Emplace T this (Some b, p) a s) =
                  s\<lparr>world := snd (arg_ctor T a (operand_value xs (arg_operand a)) (world s))\<rparr>))"
proof -
  let ?n = "length xs"
  let ?c = "rm_capacity (v_data v)"
  let ?x = "operand_value xs (arg_operand a)"
  let ?ys = "after_construct T xs a"
  let ?C = "construct T Local a"
  let ?f0 = "arg_ctor T a ?x"
  let ?tail = "\<lambda>_::unit. bindE (get_vec this) (\<lambda>v'.
        bindE (put_vec this (v'\<lparr>v_size := v_size v' + 1\<rparr>)) (\<lambda>_.
        returnE (rm_plus (v_data v') p)))"
  define M where "M = (\<lambda>tmp.
      bindE (move_construct T (Into (Some b, ?n)) (At (Some b, ?n - 1)))
        (\<lambda>_. bindE (move_backward T (Some b, p) (Some b, ?n - 1) (Some b, ?n))
        (\<lambda>_. move_assign T (Some b, p) (Val tmp))))"
  have qM: "quiet (M tmp)" for tmp
    unfolding M_def by (intro quiet_intros)
  have sz: "v_size v = ?n" using assms(2) by (simp add: holds_def)
  have hb: "heap s b = Some (block_of xs ?c)" using assms(2,3) by (rule holds_block)
  have eq: "Emplace T this (Some b, p) a s =
      bindE (bindE ?C (\<lambda>tmp. bindE (on_unwind (M tmp) (destroy_local T tmp)) (\<lambda>_.
               destroy_local T (moved_from T tmp)))) ?tail s"
    using assms(3,4,5)
    by (simp add: Emplace_def bindE_get_vec[OF assms(1)] valid_pos_def begin_ptr_def
          end_ptr_def GetAddress_def rm_plus_def Capacity_rm_def sz M_def Let_def)
  have c0: "(fst (?f0 (world s)) \<and> fst (?C s) = Inr ?x \<and>
          transforms s (snd (?C s)) [(b, block_of ?ys ?c)] [ctor_event Local a] \<and>
          world (snd (?C s)) = snd (?f0 (world s)))
       \<or> (\<not> fst (?f0 (world s)) \<and> fst (?C s) = Inl ElementThrew \<and>
          transforms s (snd (?C s)) [] [])"
    using hb assms(4,6) by (intro construct_local_spec) simp_all
  obtain r0 s0 where run0: "?C s = (r0, s0)" by (cases "?C s")
  from c0 show ?thesis
  proof
    assume "fst (?f0 (world s)) \<and> fst (?C s) = Inr ?x \<and>
          transforms s (snd (?C s)) [(b, block_of ?ys ?c)] [ctor_event Local a] \<and>
          world (snd (?C s)) = snd (?f0 (world s))"
    with run0 have ok0: "fst (?f0 (world s))" and r0: "r0 = Inr ?x"
      and t0: "transforms s s0 [(b, block_of ?ys ?c)] [ctor_event Local a]"
      and w0: "world s0 = snd (?f0 (world s))"
      by simp_all
    have h0: "heap s0 b = Some (block_of ?ys ?c)"
      using t0 by (simp add: transforms_def alters_def)
    have tr0: "trace s0 = trace s @ [ctor_event Local a]" and v0: "vecs s0 = vecs s"
      and n0: "next_block s0 = next_block s"
      using t0 by (simp_all add: transforms_def alters_def)
    have su: "succeed (?f0 # shift_attempts T ?ys p ?x) (world s) =
        succeed (shift_attempts T ?ys p ?x) (world s0)"
      using ok0 w0 by simp
    have os: "(succeed (shift_attempts T ?ys p ?x) (world s0) \<and> fst (M ?x s0) = Inr () \<and>
          transforms s0 (snd (M ?x s0)) [(b, block_of (insert_at ?ys p ?x) ?c)]
            (shift_events b ?n p @ [MoveAssign (Val ?x) (Some b, p)]))
       \<or> (\<not> succeed (shift_attempts T ?ys p ?x) (world s0) \<and>
          fst (M ?x s0) = Inl ElementThrew \<and>
          (\<exists>evs. trace (snd (M ?x s0)) = trace s0 @ evs))"
      unfolding M_def
      using open_slot_spec[OF h0, of p T ?x] assms(4,5) by simp
    obtain r1 s1 where run1: "M ?x s0 = (r1, s1)" by (cases "M ?x s0")
    have q1: "vecs s1 = vecs s" "next_block s1 = next_block s"
      using quietD[OF qM, of ?x s0] run1 v0 n0 by simp_all
    from os show ?thesis
    proof
      assume "succeed (shift_attempts T ?ys p ?x) (world s0) \<and> fst (M ?x s0) = Inr () \<and>
          transforms s0 (snd (M ?x s0)) [(b, block_of (insert_at ?ys p ?x) ?c)]
            (shift_events b ?n p @ [MoveAssign (Val ?x) (Some b, p)])"
      with run1 have ok1: "succeed (shift_attempts T ?ys p ?x) (world s0)" and r1: "r1 = Inr ()"
        and t1: "transforms s0 s1 [(b, block_of (insert_at ?ys p ?x) ?c)]
            (shift_events b ?n p @ [MoveAssign (Val ?x) (Some b, p)])"
        by simp_all
      note t = transforms_same_block[OF t0 t1]
      let ?s2 = "s1\<lparr>world := dtor T (moved_from T ?x) (world s1),
                    trace := trace s1 @ [Dtor Local]\<rparr>"
      have d: "destroy_local T (moved_from T ?x) s1 = (Inr (), ?s2)"
        by (simp add: destroy_local_def bindE_def effect_def emit_def)
      have v2: "vecs s1 this = Some v" using t assms(1) by (simp add: transforms_def alters_def)
      have tl: "?tail () ?s2 =
          (Inr (Some b, p), ?s2\<lparr>vecs := (vecs ?s2)(this \<mapsto> v\<lparr>v_size := Suc ?n\<rparr>)\<rparr>)"
        by (simp add: bindE_def get_vec_def v2 put_vec_def returnE_def rm_plus_def
              assms(3) sz)
      have ou: "on_unwind (M ?x) (destroy_local T ?x) s0 = (Inr (), s1)"
        by (simp add: on_unwind_def catchE_def run1 r1)
      have "Emplace T this (Some b, p) a s =
          (Inr (Some b, p), ?s2\<lparr>vecs := (vecs ?s2)(this \<mapsto> v\<lparr>v_size := Suc ?n\<rparr>)\<rparr>)"
        unfolding eq tl[symmetric] bindE_assoc
        by (simp add: bindE_def[of ?C] run0 r0 bindE_def[of "on_unwind (M ?x) (destroy_local T ?x)"]
              ou bindE_def[of "destroy_local T (moved_from T ?x)"] d)
      with t ok1 show ?thesis
        unfolding su by (simp add: transforms_def alters_def)
    next
      assume "\<not> succeed (shift_attempts T ?ys p ?x) (world s0) \<and>
          fst (M ?x s0) = Inl ElementThrew \<and>
          (\<exists>evs. trace (snd (M ?x s0)) = trace s0 @ evs)"
      with run1 obtain evs where bad: "\<not> succeed (shift_attempts T ?ys p ?x) (world s0)"
        and r1: "r1 = Inl ElementThrew" and tr1: "trace s1 = trace s0 @ evs"
        by auto
      let ?s2 = "s1\<lparr>world := dtor T ?x (world s1), trace := trace s1 @ [Dtor Local]\<rparr>"
      have d: "destroy_local T ?x s1 = (Inr (), ?s2)"
        by (simp add: destroy_local_def bindE_def effect_def emit_def)
      have ou: "on_unwind (M ?x) (destroy_local T ?x) s0 = (Inl ElementThrew, ?s2)"
        by (simp add: on_unwind_def catchE_def run1 r1 bindE_def d throwE_def)
      have "Emplace T this (Some b, p) a s = (Inl ElementThrew, ?s2)"
        unfolding eq bindE_assoc
        by (simp add: bindE_def[of ?C] run0 r0 bindE_def[of "on_unwind (M ?x) (destroy_local T ?x)"]
              ou)
      with bad ok0 q1 tr0 tr1 show ?thesis
        unfolding su by simp
    qed
  next
    assume "\<not> fst (?f0 (world s)) \<and> fst (?C s) = Inl ElementThrew \<and>
          transforms s (snd (?C s)) [] []"
    with run0 have bad: "\<not> fst (?f0 (world s))" and r0: "r0 = Inl ElementThrew"
      and t0: "transforms s s0 [] []" by simp_all
    have s0: "s0 = s\<lparr>world := snd (?f0 (world s))\<rparr>"
    proof -
      have "?C s = (Inl ElementThrew, s\<lparr>world := snd (?f0 (world s))\<rparr>)"
      proof (cases a)
        case (Copying src)
        with bad assms(6) hb assms(4) show ?thesis
          by (cases src)
             (auto simp: copy_construct_def bindE_def attempt_def returnE_def load_def
                nth_block_of length_block_of)
      next
        case (Moving src)
        with bad assms(6) hb assms(4) show ?thesis
          by (cases src)
             (auto simp: move_construct_def bindE_def attempt_def returnE_def load_def
                nth_block_of length_block_of)
      qed
      with run0 show ?thesis by simp
    qed
    have "Emplace T this (Some b, p) a s = (Inl ElementThrew, s0)"
      unfolding eq bindE_assoc
      by (simp add: bindE_def[of ?C] run0 r0)
    with bad t0 s0 show ?thesis by (simp add: transforms_def alters_def)
  qed
qed

lemma after_construct_unmoved: "\<forall>q. a \<noteq> Moving (At q) \<Longrightarrow> after_construct T xs a = xs"
  by (cases "(T, xs, a)" rule: after_construct.cases) auto

lemma holds_after_insert:
  assumes "rm_buffer (v_data v) = Some b" "length ys < rm_capacity (v_data v)"
    "heap s' b = Some (block_of (insert_at ys p x) (rm_capacity (v_data v)))"
  shows "holds s' (v\<lparr>v_size := Suc (length ys)\<rparr>) (insert_at ys p x)"
  using assms by (simp add: holds_def length_insert_at)

section \<open>A run of appends\<close>

lemma schedule_ge: "n \<le> schedule n"
  by (induction n) (auto simp: max_def)

lemma schedule_mono_Suc: "schedule n \<le> schedule (Suc n)"
  using schedule_ge[of n] by (auto simp: max_def)

lemma schedule_mono: "schedule n \<le> schedule (n + j)"
proof (induction j)
  case 0
  show ?case by simp
next
  case (Suc j)
  from Suc schedule_mono_Suc[of "n + j"] show ?case by simp
qed

text \<open>From the first append on, the schedule is the least power of two not below \<open>n\<close>.\<close>

lemma schedule_power:
  "0 < n \<Longrightarrow> \<exists>k. schedule n = 2 ^ k \<and> n \<le> 2 ^ k \<and> 2 ^ k < 2 * n"
proof (induction n)
  case 0
  then show ?case by simp
next
  case (Suc n)
  show ?case
  proof (cases "n = 0")
    case True
    then show ?thesis by (intro exI[of _ 0]) simp
  next
    case False
    with Suc.IH obtain k where k: "schedule n = 2 ^ k" "n \<le> 2 ^ k" "2 ^ k < 2 * n" by auto
    show ?thesis
    proof (cases "n = schedule n")
      case True
      with k False show ?thesis by (intro exI[of _ "Suc k"]) (simp add: max_def)
    next
      case ne: False
      with k show ?thesis by (intro exI[of _ k]) simp
    qed
  qed
qed

lemma schedule_full: "n = schedule n \<Longrightarrow> schedule (Suc n) = max 1 (2 * n)"
  by simp

lemma schedule_spare: "n \<noteq> schedule n \<Longrightarrow> schedule (Suc n) = schedule n"
  by simp

declare schedule.simps(2) [simp del]

lemma outside_operand [simp]: "outside a \<Longrightarrow> operand_in buf n (arg_operand a)"
  by (cases a rule: outside.cases) simp_all

lemma outside_unmoved [simp]: "outside a \<Longrightarrow> after_construct T xs a = xs"
  by (cases a rule: outside.cases) simp_all

lemma outside_value [simp]: "outside a \<Longrightarrow> operand_value xs (arg_operand a) = arg_value a"
  by (cases a rule: outside.cases) (simp_all add: arg_value_def)

lemma never_throw_relocation:
  "ctors_never_throw T \<Longrightarrow> succeed (map (relocation_ctor T) xs) w"
  by (induction xs arbitrary: w) (simp_all add: ctors_never_throw_def relocation_ctor_def)

lemma never_throw_arg: "ctors_never_throw T \<Longrightarrow> fst (arg_ctor T a x w)"
  by (cases a) (simp_all add: ctors_never_throw_def)


text \<open>A construction in a slot that the block does not have does not return.\<close>

lemma construct_beyond:
  assumes "heap s nb = Some D" "length D \<le> n"
  shows "\<forall>x. fst (construct T (Into (Some nb, n)) a s) \<noteq> Inr x"
proof -
  have pl: "fst (place (Some nb, n) y (snd (attempt f s))) \<noteq> Inr u" for y f u
    using assms by (simp add: place_def attempt_def)
  have ld: "fst (load q s) = Inr y \<Longrightarrow> snd (load q s) = s" for q y
    by (auto simp: load_def split: option.splits if_splits slot.splits)
  have ft: "fst (fetch src s) = Inr y \<Longrightarrow> snd (fetch src s) = s" for src y
    by (cases src) (simp_all add: ld returnE_def)
  show ?thesis
  proof (cases a)
    case (Copying src)
    show ?thesis
      unfolding Copying construct.simps copy_construct_def settle.simps
      by (auto simp: bindE_alt ft pl split: sum.splits)
  next
    case (Moving src)
    show ?thesis
      unfolding Moving construct.simps move_construct_def settle.simps
      by (auto simp: bindE_alt ft pl split: sum.splits)
  qed
qed

lemma bindE_no_return: "\<forall>x. fst (m s) \<noteq> Inr x \<Longrightarrow> \<forall>y. fst (bindE m f s) \<noteq> Inr y"
  by (auto simp: bindE_alt split: sum.splits)

lemma on_unwind_no_return:
  "\<forall>x. fst (m s) \<noteq> Inr x \<Longrightarrow> \<forall>y. fst (on_unwind m d s) \<noteq> Inr y"
  by (auto simp: on_unwind_cases split: sum.splits)

text \<open>
  When the byte count of the grown storage wraps around, the block that \<^verbatim>\<open>operator new\<close>
  returns has no slot for the new element: the append does not return.
\<close>

lemma wrapped_slots:
  assumes "0 < z" "n * z < 2 ^ 64" "c = (if n = 0 then 1 else n * 2)" "\<not> c * z < 2 ^ 64"
  shows "size_t_mul c z div z \<le> (n::nat)"
proof (cases "n = 0")
  case True
  with assms(3,4) have "(2::nat) ^ 64 \<le> z" by simp
  moreover have "z mod 2 ^ 64 < (2::nat) ^ 64" by simp
  ultimately have "z mod 2 ^ 64 < z" by (rule less_le_trans[rotated])
  with True assms(3) show ?thesis by (simp add: size_t_mul_def)
next
  case False
  let ?X = "n * 2 * z"
  from False assms(3,4) have big: "(2::nat) ^ 64 \<le> ?X" by simp
  have "?X mod 2 ^ 64 = (?X - 2 ^ 64) mod 2 ^ 64" using big by (rule le_mod_geq)
  also have "\<dots> \<le> ?X - 2 ^ 64" by (rule mod_less_eq_dividend)
  also have "\<dots> < n * z" using assms(2) big by simp
  finally have "?X mod 2 ^ 64 < n * z" .
  then have "?X mod 2 ^ 64 div z < n" using assms(1) by (simp add: less_mult_imp_div_less)
  with False assms(3) show ?thesis by (simp add: size_t_mul_def)
qed

lemma EmplaceBack_wrapped:
  assumes "vecs s this = Some v" "holds s v xs" "heap_ok T s"
    "length xs = rm_capacity (v_data v)"
    "c = (if length xs = 0 then 1 else length xs * 2)" "\<not> c * size_of T < 2 ^ 64"
  shows "fst (EmplaceBack T this a s) \<noteq> Inr p"
proof -
  let ?n = "length xs"
  have sz: "v_size v = ?n" using assms(2) by (simp add: holds_def)
  have s0: "0 < size_of T" using assms(3) by (rule heap_ok_size)
  have fit: "?n * size_of T < 2 ^ 64"
  proof (cases "rm_buffer (v_data v)")
    case None
    with assms(2,4) show ?thesis by (simp add: holds_def)
  next
    case (Some b)
    from heap_ok_block[OF assms(3) holds_block[OF assms(2) Some]] assms(4)
    show ?thesis by (simp add: length_block_of)
  qed
  define m where "m = size_t_mul c (size_of T) div size_of T"
  have m: "m \<le> ?n" unfolding m_def using s0 fit assms(5,6) by (rule wrapped_slots)
  have c0: "c \<noteq> 0" using assms(5) by simp
  have ceq: "c = (if v_size v = 0 then 1 else v_size v * 2)" using assms(5) sz by simp
  have full: "v_size v = rm_capacity (v_data v)" using assms(4) sz by simp
  note unf = EmplaceBack_full[OF assms(1) full ceq, of T a]
  show ?thesis
  proof (cases "store_limit s < size_t_mul c (size_of T)")
    case True
    from RawMemory_ctor_refused[OF c0 True] show ?thesis
      unfolding unf by (simp add: bindE_def)
  next
    case False
    let ?s1 = "s\<lparr>heap := (heap s)(next_block s \<mapsto> replicate m Raw),
                 next_block := Suc (next_block s),
                 trace := trace s @ [Allocated (next_block s) c]\<rparr>"
    have run: "RawMemory_ctor T c s =
        (Inr \<lparr>rm_buffer = Some (next_block s), rm_capacity = c\<rparr>, ?s1)"
      using c0 False
      by (simp add: RawMemory_ctor_def Allocate_def operator_new_def bindE_def returnE_def
          m_def)
    have h1: "heap ?s1 (next_block s) = Some (replicate m Raw)" by simp
    have "\<forall>x. fst (construct T (Into (Some (next_block s), ?n)) a ?s1) \<noteq> Inr x"
      using construct_beyond[OF h1, of ?n T a] m by simp
    then have "\<forall>x. fst (bindE (construct T (Into (Some (next_block s), ?n)) a) (\<lambda>_.
        CopyOrMove T (GetAddress (v_data v))
          (GetAddress \<lparr>rm_buffer = Some (next_block s), rm_capacity = c\<rparr>) ?n) ?s1) \<noteq> Inr x"
      by (rule bindE_no_return)
    then have "\<forall>x. fst (on_unwind
        (bindE (construct T (Into (Some (next_block s), ?n)) a) (\<lambda>_.
           CopyOrMove T (GetAddress (v_data v))
             (GetAddress \<lparr>rm_buffer = Some (next_block s), rm_capacity = c\<rparr>) ?n))
        (RawMemory_dtor \<lparr>rm_buffer = Some (next_block s), rm_capacity = c\<rparr>) ?s1) \<noteq> Inr x"
      by (rule on_unwind_no_return)
    then have nr: "\<forall>y. fst (bindE (on_unwind
        (bindE (construct T (Into (Some (next_block s), ?n)) a) (\<lambda>_.
           CopyOrMove T (GetAddress (v_data v))
             (GetAddress \<lparr>rm_buffer = Some (next_block s), rm_capacity = c\<rparr>) ?n))
        (RawMemory_dtor \<lparr>rm_buffer = Some (next_block s), rm_capacity = c\<rparr>)) g ?s1) \<noteq> Inr y"
      for g :: "unit \<Rightarrow> ('a, 'b, ptr) prog"
      by (rule bindE_no_return)
    show ?thesis
      unfolding unf
      using nr by (cases p) (simp add: bindE_def[of "RawMemory_ctor T c"] run rm_plus_def sz)
  qed
qed

lemma Emplace_at_end:
  assumes "vecs s this = Some v"
  shows "Emplace T this (end_ptr v) a s = EmplaceBack T this a s"
  using assms
  by (simp add: Emplace_def bindE_get_vec valid_pos_def begin_ptr_def end_ptr_def
      GetAddress_def rm_plus_def)

text \<open>
  One append of an object outside the heap to a vector on the schedule: it does not run
  into undefined behaviour; it returns when no constructor throws and the store grants
  the request; and when it returns, the vector is on the schedule again.
\<close>

lemma EmplaceBack_on_schedule:
  assumes "vecs s this = Some v" "holds s v xs" "heap_ok T s" "elem_type_ok T" "outside a"
    "rm_capacity (v_data v) = schedule (length xs)"
  shows "(schedule (Suc (length xs)) * size_of T < 2 ^ 64 \<longrightarrow>
            fst (EmplaceBack T this a s) \<noteq> Inl Undefined \<and>
            (ctors_never_throw T \<and>
             schedule (Suc (length xs)) * size_of T \<le> store_limit s \<longrightarrow>
               (\<exists>p. fst (EmplaceBack T this a s) = Inr p))) \<and>
         ((\<exists>p. fst (EmplaceBack T this a s) = Inr p) \<longrightarrow>
            (\<exists>v'. vecs (snd (EmplaceBack T this a s)) this = Some v' \<and>
                  holds (snd (EmplaceBack T this a s)) v' (xs @ [arg_value a]) \<and>
                  rm_capacity (v_data v') = schedule (Suc (length xs))) \<and>
            heap_ok T (snd (EmplaceBack T this a s)) \<and>
            store_limit (snd (EmplaceBack T this a s)) = store_limit s)"
proof -
  let ?n = "length xs"
  let ?cap = "rm_capacity (v_data v)"
  let ?res = "EmplaceBack T this a s"
  let ?x = "arg_value a"
  have sz: "v_size v = ?n" using assms(2) by (simp add: holds_def)
  have s0: "0 < size_of T" using assms(3) by (rule heap_ok_size)
  show ?thesis
  proof (cases "?n = ?cap")
    case False
    with schedule_ge[of ?n] assms(6) have lt: "?n < ?cap" by simp
    then obtain b where b: "rm_buffer (v_data v) = Some b"
      using assms(2) by (cases "rm_buffer (v_data v)") (auto simp: holds_def)
    have hb: "heap s b = Some (block_of xs ?cap)" using assms(2) b by (rule holds_block)
    have sch: "schedule (Suc ?n) = ?cap" using False assms(6) by (simp add: schedule_spare)
    have op: "operand_in (Some b) ?n (arg_operand a)" using assms(5) by simp
    from EmplaceBack_spare_spec[OF assms(1,2) b lt op, of T] show ?thesis
    proof (elim disjE conjE)
      assume ok: "fst ?res = Inr (Some b, ?n)"
        and vs: "vecs (snd ?res) = (vecs s)(this \<mapsto> v\<lparr>v_size := Suc ?n\<rparr>)"
        and hp: "heap (snd ?res) =
            (heap s)(b \<mapsto> block_of (after_construct T xs a @ [operand_value xs (arg_operand a)])
                             ?cap)"
        and nb: "next_block (snd ?res) = next_block s"
        and sl: "store_limit (snd ?res) = store_limit s"
      have hp': "heap (snd ?res) = (heap s)(b \<mapsto> block_of (xs @ [?x]) ?cap)"
        using hp assms(5) by simp
      have h1: "holds (snd ?res) (v\<lparr>v_size := Suc ?n\<rparr>) (xs @ [?x])"
        using lt b hp' by (simp add: holds_def)
      have "length (block_of (xs @ [?x]) ?cap) * size_of T < 2 ^ 64"
        using heap_ok_block[OF assms(3) hb] lt by (simp add: length_block_of)
      then have h2: "heap_ok T (snd ?res)"
        using assms(3) hp' nb hb by (auto simp: heap_ok_def)
      from ok vs h1 h2 sl sch show ?thesis by auto
    next
      assume "\<not> fst (arg_ctor T a (operand_value xs (arg_operand a)) (world s))"
        and "fst ?res = Inl ElementThrew"
      then show ?thesis using never_throw_arg[of T a] by auto
    qed
  next
    case True
    define c where "c = (if ?n = 0 then 1 else ?n * 2)"
    have "?n = schedule ?n" using True assms(6) by simp
    then have "schedule (Suc ?n) = max 1 (2 * ?n)" by (rule schedule_full)
    moreover have "c = max 1 (2 * ?n)" by (cases xs) (simp_all add: c_def)
    ultimately have sch: "schedule (Suc ?n) = c" by simp
    have op: "operand_in (rm_buffer (v_data v)) ?n (arg_operand a)" using assms(5) by simp
    have wrapped: ?thesis if "\<not> c * size_of T < 2 ^ 64"
      using EmplaceBack_wrapped[OF assms(1-3) True c_def that, of a] sch that by simp
    have refused: ?thesis if nw: "c * size_of T < 2 ^ 64" and "\<not> c * size_of T \<le> store_limit s"
    proof -
      from that have "store_limit s < size_t_mul c (size_of T)"
        by (simp add: size_t_mul_small)
      then have "store_limit s < size_t_mul (if v_size v = 0 then 1 else v_size v * 2) (size_of T)"
        by (cases xs) (simp_all add: c_def sz)
      from EmplaceBack_refused[OF assms(1) _ this, of a] True sz that sch show ?thesis
        by simp
    qed
    show ?thesis
    proof (cases "c * size_of T < 2 ^ 64 \<and> c * size_of T \<le> store_limit s")
      case False
      with wrapped refused show ?thesis by blast
    next
      case both: True
      then have nw: "c * size_of T < 2 ^ 64" and granted: "c * size_of T \<le> store_limit s"
        by simp_all
      from EmplaceBack_grow_spec[OF assms(1-4) True op c_def nw granted] show ?thesis
      proof (elim disjE conjE)
        assume ok: "fst ?res = Inr (Some (next_block s), ?n)"
          and vs: "vecs (snd ?res) =
              (vecs s)(this \<mapsto> \<lparr>v_data = \<lparr>rm_buffer = Some (next_block s), rm_capacity = c\<rparr>,
                                v_size = Suc ?n\<rparr>)"
          and hp: "heap (snd ?res) =
            (case rm_buffer (v_data v) of
               None \<Rightarrow> (heap s)(next_block s \<mapsto>
                         block_of (after_construct T xs a @ [operand_value xs (arg_operand a)]) c)
             | Some b \<Rightarrow> (heap s)(next_block s \<mapsto>
                         block_of (after_construct T xs a @ [operand_value xs (arg_operand a)]) c,
                         b := None))"
          and nb: "next_block (snd ?res) = Suc (next_block s)"
          and sl: "store_limit (snd ?res) = store_limit s"
        let ?v' = "\<lparr>v_data = \<lparr>rm_buffer = Some (next_block s), rm_capacity = c\<rparr>,
                    v_size = Suc ?n\<rparr>"
        have nc: "Suc ?n \<le> c" by (cases xs) (simp_all add: c_def)
        have new: "heap (snd ?res) (next_block s) = Some (block_of (xs @ [?x]) c)"
        proof (cases "rm_buffer (v_data v)")
          case None
          with hp assms(5) show ?thesis by simp
        next
          case (Some b)
          from heap_ok_allocated[OF assms(3) holds_block[OF assms(2) Some]] hp Some assms(5)
          show ?thesis by simp
        qed
        have h1: "holds (snd ?res) ?v' (xs @ [?x])"
          using new nc by (simp add: holds_def)
        have old: "heap (snd ?res) b' = Some blk \<Longrightarrow> b' \<noteq> next_block s \<Longrightarrow>
            heap s b' = Some blk" for b' blk
          using hp by (auto split: option.splits if_splits)
        have h2: "heap_ok T (snd ?res)"
          unfolding heap_ok_def
        proof (intro conjI allI impI)
          show "0 < size_of T" by (rule s0)
          show "heap (snd ?res) b' = None" if "next_block (snd ?res) \<le> b'" for b'
          proof -
            from that nb have "next_block s \<le> b'" "b' \<noteq> next_block s" by simp_all
            with assms(3) hp show ?thesis
              by (auto simp: heap_ok_def split: option.splits)
          qed
          show "length blk * size_of T < 2 ^ 64" if "heap (snd ?res) b' = Some blk" for b' blk
          proof (cases "b' = next_block s")
            case True
            with that new have "blk = block_of (xs @ [?x]) c" by simp
            with nc nw show ?thesis by (simp add: length_block_of)
          next
            case False
            from heap_ok_block[OF assms(3) old[OF that False]] show ?thesis .
          qed
        qed
        from ok vs h1 h2 sl sch show ?thesis by auto
      next
        assume bad: "\<not> (fst (arg_ctor T a (operand_value xs (arg_operand a)) (world s)) \<and>
             succeed (map (relocation_ctor T) (after_construct T xs a))
               (snd (arg_ctor T a (operand_value xs (arg_operand a)) (world s))))"
          and "fst ?res = Inl ElementThrew"
        then show ?thesis
          using never_throw_arg[of T a] never_throw_relocation[of T] by auto
      qed
    qed
  qed
qed

lemma push_all_on_schedule:
  assumes "vecs s this = Some v" "holds s v xs" "heap_ok T s" "elem_type_ok T"
    "list_all outside as" "rm_capacity (v_data v) = schedule (length xs)"
  shows "(schedule (length xs + length as) * size_of T < 2 ^ 64 \<longrightarrow>
            fst (push_all T this as s) \<noteq> Inl Undefined \<and>
            (ctors_never_throw T \<and>
             schedule (length xs + length as) * size_of T \<le> store_limit s \<longrightarrow>
               fst (push_all T this as s) = Inr ())) \<and>
         (fst (push_all T this as s) = Inr () \<longrightarrow>
            (\<exists>v'. vecs (snd (push_all T this as s)) this = Some v' \<and>
                  holds (snd (push_all T this as s)) v' (xs @ map arg_value as) \<and>
                  rm_capacity (v_data v') = schedule (length xs + length as)))"
  using assms
proof (induction as arbitrary: s v xs)
  case Nil
  then show ?case by (simp add: returnE_def)
next
  case (Cons a as)
  let ?n = "length xs"
  let ?e = "EmplaceBack T this a s"
  let ?s1 = "snd ?e"
  have out: "outside a" "list_all outside as" using Cons.prems(5) by simp_all
  have le: "schedule (Suc ?n) \<le> schedule (?n + length (a # as))"
    using schedule_mono[of "Suc ?n" "length as"] by simp
  then have "schedule (Suc ?n) * size_of T \<le> schedule (?n + length (a # as)) * size_of T"
    by (rule mult_le_mono1)
  note bound = this
  note step = EmplaceBack_on_schedule[OF Cons.prems(1-4) out(1) Cons.prems(6)]
  have eq: "push_all T this (a # as) s =
      (case fst ?e of Inl e \<Rightarrow> (Inl e, ?s1) | Inr p \<Rightarrow> push_all T this as ?s1)"
    by (simp add: bindE_alt)
  show ?case
  proof (cases "fst ?e")
    case (Inl e)
    have "e \<noteq> Undefined \<and> \<not> (ctors_never_throw T \<and>
          schedule (?n + length (a # as)) * size_of T \<le> store_limit s)"
      if nwN: "schedule (?n + length (a # as)) * size_of T < 2 ^ 64"
    proof
      from bound nwN have nw: "schedule (Suc ?n) * size_of T < 2 ^ 64"
        by (rule le_less_trans)
      with step Inl show "e \<noteq> Undefined" by auto
      show "\<not> (ctors_never_throw T \<and>
          schedule (?n + length (a # as)) * size_of T \<le> store_limit s)"
      proof
        assume h: "ctors_never_throw T \<and>
            schedule (?n + length (a # as)) * size_of T \<le> store_limit s"
        from bound h have "schedule (Suc ?n) * size_of T \<le> store_limit s"
          by (elim conjE) (rule le_trans)
        with step nw h Inl show False by auto
      qed
    qed
    then show ?thesis unfolding eq using Inl by simp
  next
    case (Inr p)
    with step obtain v' where v': "vecs ?s1 this = Some v'"
      "holds ?s1 v' (xs @ [arg_value a])" "rm_capacity (v_data v') = schedule (Suc ?n)"
      and hk: "heap_ok T ?s1" and sl: "store_limit ?s1 = store_limit s"
      by auto
    have c1: "rm_capacity (v_data v') = schedule (length (xs @ [arg_value a]))"
      using v'(3) by simp
    note ih = Cons.IH[OF v'(1,2) hk Cons.prems(4) out(2) c1]
    from ih sl Inr show ?thesis unfolding eq by simp
  qed
qed

lemma schedule_less_double: "0 < n \<Longrightarrow> schedule n < 2 * n"
  using schedule_power[of n] by auto

lemma schedule_bytes:
  assumes "0 < z" "2 * n * z \<le> B"
  shows "schedule n * z \<le> B" "B \<le> 2 ^ 64 \<Longrightarrow> schedule n * z < 2 ^ 64"
proof -
  have le: "schedule n * z \<le> 2 * n * z"
  proof (cases "n = 0")
    case True
    then show ?thesis by simp
  next
    case False
    then have "schedule n \<le> 2 * n" using schedule_less_double[of n] by simp
    then show ?thesis by (rule mult_le_mono1)
  qed
  from le assms(2) show "schedule n * z \<le> B" by (rule le_trans)
  show "schedule n * z < 2 ^ 64" if "B \<le> 2 ^ 64"
  proof (cases "n = 0")
    case True
    then show ?thesis by simp
  next
    case False
    then have "schedule n < 2 * n" using schedule_less_double[of n] by simp
    then have "schedule n * z < 2 * n * z" using assms(1) by simp
    also have "\<dots> \<le> B" by (rule assms(2))
    also have "\<dots> \<le> 2 ^ 64" by (rule that)
    finally show ?thesis .
  qed
qed

text \<open>
  A run of appends of objects outside the heap, from size 0 and capacity 0, when twice
  the bytes of the elements fit in \<^verbatim>\<open>size_t\<close>.
\<close>

lemma push_all_from_empty:
  assumes "vecs s this = Some v" "holds s v []" "rm_capacity (v_data v) = 0" "heap_ok T s"
    "elem_type_ok T" "list_all outside as" "2 * length as * size_of T \<le> 2 ^ 64"
  shows "fst (push_all T this as s) \<noteq> Inl Undefined \<and>
         (ctors_never_throw T \<and> 2 * length as * size_of T \<le> store_limit s \<longrightarrow>
            fst (push_all T this as s) = Inr ()) \<and>
         (fst (push_all T this as s) = Inr () \<longrightarrow>
            (\<exists>v'. vecs (snd (push_all T this as s)) this = Some v' \<and>
                  holds (snd (push_all T this as s)) v' (map arg_value as)))"
proof -
  have s0: "0 < size_of T" using assms(4) by (rule heap_ok_size)
  have c0: "rm_capacity (v_data v) = schedule (length ([] :: 'a list))"
    using assms(3) by simp
  note sp = push_all_on_schedule[OF assms(1,2,4,5,6) c0]
  have nw: "schedule (length as) * size_of T < 2 ^ 64"
    using schedule_bytes(2)[OF s0 le_refl assms(7)] .
  have gr: "schedule (length as) * size_of T \<le> store_limit s"
    if "2 * length as * size_of T \<le> store_limit s"
    using schedule_bytes(1)[OF s0 that] .
  from sp nw gr show ?thesis by auto
qed

lemma EmplaceBack_overflow_returns:
  assumes "vecs s this = Some v" "holds s v xs" "heap_ok T s" "elem_type_ok T"
    "length xs = rm_capacity (v_data v)" "outside a" "ctors_never_throw T"
    "max 1 (2 * length xs) * size_of T < 2 ^ 64"
    "max 1 (2 * length xs) * size_of T \<le> store_limit s"
  shows "fst (EmplaceBack T this a s) = Inr (Some (next_block s), length xs)"
proof -
  define c where "c = (if length xs = 0 then 1 else length xs * 2)"
  have c: "c = max 1 (2 * length xs)" by (cases xs) (simp_all add: c_def)
  have op: "operand_in (rm_buffer (v_data v)) (length xs) (arg_operand a)"
    using assms(6) by simp
  from EmplaceBack_grow_spec[OF assms(1-5) op c_def assms(8,9)[folded c]]
    never_throw_arg[OF assms(7)] never_throw_relocation[OF assms(7)]
  show ?thesis by auto
qed

section \<open>The invariant \<open>size \<le> capacity\<close>\<close>

text \<open>
  Claim C4.  Whatever public operations are applied to whatever vectors, in whatever
  order and with whatever outcome (normal return, exception, or a violated
  precondition), every vector has \<open>size \<le> capacity\<close> when the operation is left,
  provided this held before the first of them.  It holds trivially before any vector
  exists.
\<close>

theorem C4_size_le_capacity_invariant:
  "size_le_capacity s \<Longrightarrow> size_le_capacity (run T cs s)"
  by (rule inv_run)

theorem C4_size_le_capacity_invariant_witness:
  "size_le_capacity s_full \<and>
   size_le_capacity
     (run T_fragile
        [OpPushBack 0 (Copying (Val 5)), OpEmplace 0 (Some 1, 0) (Copying (Val 13)),
         OpSized 1 3, OpAssignCopy 1 0, OpErase 0 (Some 1, 1), OpResize 0 9, OpSwap 0 1,
         OpReserve 1 20, OpPopBack 0, OpAssignMove 1 0]
        s_full)"
proof -
  have h: "size_le_capacity s_full"
    by (simp add: size_le_capacity_def s_full_def v_full_def)
  from h C4_size_le_capacity_invariant [OF h] show ?thesis by (rule conjI)
qed

section \<open>Move construction and move assignment\<close>

text \<open>
  Claim C8.  Moving from a vector \<open>src\<close> into another vector \<open>dst\<close>, by the move
  constructor or by move assignment: afterwards the source has size 0, capacity 0 and
  no storage; the destination owns the very storage, capacity and size the source had,
  so it holds the source's elements in their order; the heap and the trace are as
  before, that is, no element was copied, moved or destroyed and nothing was allocated
  or released.
\<close>

theorem C8_move_transfers_storage:
  assumes "vecs s src = Some v" and "dst \<noteq> src"
  shows "fst (Vector_move dst src s) = Inr () \<and>
         vecs (snd (Vector_move dst src s)) dst = Some v \<and>
         vecs (snd (Vector_move dst src s)) src =
           Some \<lparr>v_data = \<lparr>rm_buffer = None, rm_capacity = 0\<rparr>, v_size = 0\<rparr> \<and>
         heap (snd (Vector_move dst src s)) = heap s \<and>
         trace (snd (Vector_move dst src s)) = trace s \<and>
         (holds s v xs \<longrightarrow> holds (snd (Vector_move dst src s)) v xs) \<and>
         (vecs s dst \<noteq> None \<longrightarrow>
            fst (assign_move dst src s) = Inr () \<and>
            vecs (snd (assign_move dst src s)) dst = Some v \<and>
            vecs (snd (assign_move dst src s)) src =
              Some \<lparr>v_data = \<lparr>rm_buffer = None, rm_capacity = 0\<rparr>, v_size = 0\<rparr> \<and>
            heap (snd (assign_move dst src s)) = heap s \<and>
            trace (snd (assign_move dst src s)) = trace s \<and>
            (holds s v xs \<longrightarrow> holds (snd (assign_move dst src s)) v xs))"
proof -
  have eta: "\<lparr>v_data = v_data v, v_size = v_size v\<rparr> = v" by (cases v) simp
  have all: "\<And>y a b. y\<lparr>v_data := a, v_size := b\<rparr> = \<lparr>v_data = a, v_size = b\<rparr>"
    by simp
  have ctor: "Vector_move dst src s =
      (Inr (), s\<lparr>vecs := (vecs s)(src \<mapsto> \<lparr>v_data = RawMemory_default, v_size = 0\<rparr>,
                                    dst \<mapsto> v)\<rparr>)"
    using assms by (simp add: Vector_move_def bindE_def get_vec_def put_vec_def eta)
  have asg: "vecs s dst \<noteq> None \<Longrightarrow> assign_move dst src s =
      (Inr (), s\<lparr>vecs := (vecs s)(src \<mapsto> \<lparr>v_data = RawMemory_default, v_size = 0\<rparr>,
                                    dst \<mapsto> v)\<rparr>)"
    using assms
    by (auto simp: assign_move_def bindE_def get_vec_def put_vec_def fun_upd_twist eta all)
  show ?thesis
    using assms asg
    by (auto simp: ctor RawMemory_default_def holds_def split: option.splits)
qed

theorem C8_move_transfers_storage_witness:
  "vecs s_pair 0 = Some v_full \<and> (1::nat) \<noteq> 0 \<and> holds s_pair v_full [7, 13] \<and>
   vecs s_pair 1 \<noteq> None \<and>
   vecs (snd (assign_move 1 0 s_pair)) 1 = Some v_full \<and>
   vecs (snd (assign_move 1 0 s_pair)) 0 =
     Some \<lparr>v_data = \<lparr>rm_buffer = None, rm_capacity = 0\<rparr>, v_size = 0\<rparr> \<and>
   holds (snd (assign_move 1 0 s_pair)) v_full [7, 13] \<and>
   vecs (snd (Vector_move 1 0 s_pair)) 1 = Some v_full \<and>
   trace (snd (Vector_move 1 0 s_pair)) = []"
proof -
  have h1: "vecs s_pair 0 = Some v_full" by (simp add: s_pair_def)
  have h2: "(1::nat) \<noteq> 0" by simp
  have h3: "holds s_pair v_full [7, 13]"
    by (simp add: holds_def s_pair_def v_full_def block_of_def)
  have h4: "vecs s_pair 1 \<noteq> None" by (simp add: s_pair_def)
  from C8_move_transfers_storage [OF h1 h2, of "[7, 13]"] h1 h3 h4 show ?thesis
    by (simp add: s_pair_def)
qed

section \<open>The failure path of a reallocating insertion\<close>

text \<open>
  Claim C1 requires that a relocation failure during a positional insert leaves the
  original storage intact, releases the new storage and reaches the caller.  The code
  does so when the elements before the insertion index fail to relocate.  When an
  element at or after the index fails, the second handler of \<^verbatim>\<open>Emplace\<close> destroys
  \<open>index + 1\<close> elements of the new storage but does not rethrow, and the code after it
  adopts the new storage.  The run below inserts 5 at the front of the full vector
  \<open>[7, 13]\<close> of a type whose copy of 13 throws: \<^verbatim>\<open>Emplace\<close> returns normally, the vector
  has size 3 and capacity 4, none of its slots holds an object, and the original
  storage has been released.
\<close>

theorem C1_emplace_swallows_relocation_failure:
  "fst (Emplace T_fragile 0 (Some 0, 0) (Copying (Val 5)) s_full) = Inr (Some 1, 0) \<and>
   vecs (snd (Emplace T_fragile 0 (Some 0, 0) (Copying (Val 5)) s_full)) 0 =
     Some \<lparr>v_data = \<lparr>rm_buffer = Some 1, rm_capacity = 4\<rparr>, v_size = 3\<rparr> \<and>
   heap (snd (Emplace T_fragile 0 (Some 0, 0) (Copying (Val 5)) s_full)) 1 =
     Some [Raw, Raw, Raw, Raw] \<and>
   heap (snd (Emplace T_fragile 0 (Some 0, 0) (Copying (Val 5)) s_full)) 0 = None \<and>
   heap s_full 0 = Some [Live 7, Live 13] \<and> vecs s_full 0 = Some v_full"
  by code_simp

section \<open>\<^verbatim>\<open>Erase\<close> at the end position\<close>

text \<open>
  Claim C9 says that \<^verbatim>\<open>Erase(end())\<close> changes nothing, also on a non-empty vector.  It
  does not hold: \<^verbatim>\<open>Erase\<close> calls \<^verbatim>\<open>PopBack\<close> for the end position.  On the vector
  \<open>[7, 13]\<close> it returns normally, and the vector is \<open>[7]\<close> with size 1 afterwards.
\<close>

theorem C9_erase_end_counterexample:
  "vecs s_full 0 = Some v_full \<and> end_ptr v_full = (Some 0, 2) \<and> v_size v_full = 2 \<and>
   heap s_full 0 = Some [Live 7, Live 13] \<and>
   fst (Erase T_int 0 (Some 0, 2) s_full) = Inr (Some 0, 1) \<and>
   vecs (snd (Erase T_int 0 (Some 0, 2) s_full)) 0 =
     Some \<lparr>v_data = \<lparr>rm_buffer = Some 0, rm_capacity = 2\<rparr>, v_size = 1\<rparr> \<and>
   heap (snd (Erase T_int 0 (Some 0, 2) s_full)) 0 = Some [Live 7, Raw]"
  by code_simp

text \<open>
  Claim C9, amended.  \<^verbatim>\<open>Erase\<close> at the end position of a well-formed vector is not an
  error and does what \<^verbatim>\<open>PopBack\<close> does: it returns normally; a non-empty vector loses
  its last element (size decreases by one, the other elements and the capacity stay);
  an empty vector is left as it was.
\<close>

theorem C9_erase_end_is_pop_back:
  assumes "vecs s this = Some v" and "holds s v xs"
  shows "fst (Erase T this (end_ptr v) s) = Inr (rm_plus (v_data v) (length xs - 1)) \<and>
         snd (Erase T this (end_ptr v) s) = snd (PopBack T this s) \<and>
         vecs (snd (Erase T this (end_ptr v) s)) this = Some (v\<lparr>v_size := length xs - 1\<rparr>) \<and>
         holds (snd (Erase T this (end_ptr v) s)) (v\<lparr>v_size := length xs - 1\<rparr>) (butlast xs) \<and>
         (xs = [] \<longrightarrow> snd (Erase T this (end_ptr v) s) = s)"
proof (cases "xs = []")
  case True
  with assms(2) have sz: "v_size v = 0" by (simp add: holds_def)
  then have v0: "v\<lparr>v_size := 0\<rparr> = v" by (cases v) simp
  have pop: "PopBack T this s = (Inr (), s)"
    using assms(1) sz by (rule PopBack_empty)
  have "Erase T this (end_ptr v) s = (Inr (end_ptr v), s)"
    using assms(1)
    by (simp add: Erase_def bindE_get_vec valid_pos_def begin_ptr_def end_ptr_def
          GetAddress_def rm_plus_def bindE_def pop get_vec_def returnE_def)
  with True assms sz show ?thesis
    by (simp add: pop v0 end_ptr_def)
next
  case False
  from holds_buffer[OF assms(2) False] obtain b where b: "rm_buffer (v_data v) = Some b"
    by blast
  note pop = PopBack_nonempty[OF assms False b, of T]
  let ?s1 = "snd (PopBack T this s)"
  let ?v1 = "v\<lparr>v_size := length xs - 1\<rparr>"
  have v1: "vecs ?s1 this = Some ?v1" using pop by simp
  have eq: "Erase T this (end_ptr v) s = (Inr (end_ptr ?v1), ?s1)"
    using assms(1) pop v1
    by (simp add: Erase_def bindE_get_vec valid_pos_def begin_ptr_def end_ptr_def
          GetAddress_def rm_plus_def bindE_alt fst_get_vec returnE_def)
  have "holds ?s1 ?v1 (butlast xs)"
    using pop assms(2) b by (auto simp: holds_def)
  with False v1 show ?thesis
    unfolding eq by (simp add: end_ptr_def)
qed

theorem C9_erase_end_is_pop_back_witness:
  "vecs s_full 0 = Some v_full \<and> holds s_full v_full [7, 13] \<and>
   fst (Erase T_int 0 (end_ptr v_full) s_full) = Inr (Some 0, 1) \<and>
   vecs (snd (Erase T_int 0 (end_ptr v_full) s_full)) 0 = Some (v_full\<lparr>v_size := 1\<rparr>) \<and>
   holds (snd (Erase T_int 0 (end_ptr v_full) s_full)) (v_full\<lparr>v_size := 1\<rparr>) [7]"
proof -
  have h1: "vecs s_full 0 = Some v_full" by (simp add: s_full_def)
  have h2: "holds s_full v_full [7, 13]"
    by (simp add: holds_def s_full_def v_full_def block_of_def)
  note t = C9_erase_end_is_pop_back [OF h1 h2, of T_int]
  have "fst (Erase T_int 0 (end_ptr v_full) s_full) = Inr (Some 0, 1)"
    using t [THEN conjunct1] by (simp add: rm_plus_def v_full_def)
  moreover have
    "vecs (snd (Erase T_int 0 (end_ptr v_full) s_full)) 0 = Some (v_full\<lparr>v_size := 1\<rparr>)"
    using t [THEN conjunct2, THEN conjunct2, THEN conjunct1] by simp
  moreover have
    "holds (snd (Erase T_int 0 (end_ptr v_full) s_full)) (v_full\<lparr>v_size := 1\<rparr>) [7]"
    using t [THEN conjunct2, THEN conjunct2, THEN conjunct2, THEN conjunct1] by simp
  ultimately show ?thesis using h1 h2 by simp
qed


section \<open>\<^verbatim>\<open>Reserve\<close>\<close>




section \<open>Failure of a relocation during \<^verbatim>\<open>Reserve\<close> and append\<close>




section \<open>Copy assignment from a larger source\<close>

text \<open>
  Claim C2.  Let the destination hold \<open>xs\<close> and the source hold \<open>ys\<close>, both well formed,
  with more elements in the source than the destination has capacity.  Copy assignment
  never runs into undefined behaviour.  If an element copy throws, the exception reaches
  the caller with the object store and the whole heap as before the call: the
  destination has its storage, size, capacity and elements.  If the assignment returns,
  the destination holds \<open>ys\<close> in a new storage, and the source still holds \<open>ys\<close>.  If
  \<^verbatim>\<open>operator new\<close> refuses the storage for the copy, \<^verbatim>\<open>std::bad_alloc\<close> reaches the caller
  and nothing at all has changed.
\<close>

theorem C2_copy_assign_strong_guarantee:
  assumes "vecs s this = Some v" and "vecs s rhs = Some r"
    and "holds s v xs" and "holds s r ys" and "heap_ok T s"
    and "rm_capacity (v_data v) < v_size r"
  shows "fst (assign_copy T this rhs s) \<noteq> Inl Undefined \<and>
         (fst (assign_copy T this rhs s) = Inl BadAlloc \<longrightarrow>
            snd (assign_copy T this rhs s) = s) \<and>
         (fst (assign_copy T this rhs s) = Inl ElementThrew \<longrightarrow>
            vecs (snd (assign_copy T this rhs s)) = vecs s \<and>
            heap (snd (assign_copy T this rhs s)) = heap s \<and>
            holds (snd (assign_copy T this rhs s)) v xs) \<and>
         (fst (assign_copy T this rhs s) = Inr () \<longrightarrow>
            vecs (snd (assign_copy T this rhs s)) this =
              Some \<lparr>v_data = \<lparr>rm_buffer = Some (next_block s), rm_capacity = length ys\<rparr>,
                    v_size = length ys\<rparr> \<and>
            holds (snd (assign_copy T this rhs s))
              \<lparr>v_data = \<lparr>rm_buffer = Some (next_block s), rm_capacity = length ys\<rparr>,
               v_size = length ys\<rparr> ys \<and>
            vecs (snd (assign_copy T this rhs s)) rhs = Some r \<and>
            holds (snd (assign_copy T this rhs s)) r ys)"
proof -
  let ?res = "assign_copy T this rhs s"
  let ?nb = "next_block s"
  let ?nv = "\<lparr>v_data = \<lparr>rm_buffer = Some ?nb, rm_capacity = length ys\<rparr>, v_size = length ys\<rparr>"
  have szr: "v_size r = length ys" using assms(4) by (simp add: holds_def)
  have lt: "rm_capacity (v_data v) < length ys" using assms(6) szr by simp
  have ys: "ys \<noteq> []" using lt by auto
  have ne: "this \<noteq> rhs"
  proof
    assume "this = rhs"
    with assms(1,2) have "v = r" by simp
    with assms(4) have "length ys \<le> rm_capacity (v_data v)" by (simp add: holds_def)
    with lt show False by simp
  qed
  from holds_buffer[OF assms(4) ys] obtain br where br: "rm_buffer (v_data r) = Some br" ..
  have hbr: "heap s br = Some (block_of ys (rm_capacity (v_data r)))"
    using assms(4) br by (rule holds_block)
  have brnb: "br \<noteq> ?nb" using assms(5) hbr by (rule heap_ok_allocated)
  have cr: "length ys \<le> rm_capacity (v_data r)" using assms(4) by (simp add: holds_def)
  have cv: "length xs \<le> rm_capacity (v_data v)" using assms(3) by (simp add: holds_def)
  have brb: "br \<noteq> b" if "rm_buffer (v_data v) = Some b" for b
  proof
    assume "br = b"
    with holds_block[OF assms(3) that] hbr
    have "block_of ys (rm_capacity (v_data r)) = block_of xs (rm_capacity (v_data v))" by simp
    then have "length (block_of ys (rm_capacity (v_data r))) =
        length (block_of xs (rm_capacity (v_data v)))" by simp
    with cr cv lt show False by (simp add: length_block_of)
  qed
  note sp = assign_copy_grow_spec[OF assms(1-5) lt]
  show ?thesis
  proof (intro conjI impI)
    from sp show "fst ?res \<noteq> Inl Undefined" by auto
  next
    assume "fst ?res = Inl BadAlloc"
    with sp show "snd ?res = s" by auto
  next
    assume f: "fst ?res = Inl ElementThrew"
    with sp show "vecs (snd ?res) = vecs s" and h: "heap (snd ?res) = heap s" by auto
    from assms(3) h show "holds (snd ?res) v xs"
      by (simp add: holds_def split: option.splits)
  next
    assume ok: "fst ?res = Inr ()"
    with sp have a: "vecs (snd ?res) = (vecs s)(this \<mapsto> ?nv)"
      and h: "heap (snd ?res) =
            (case rm_buffer (v_data v) of
               None \<Rightarrow> (heap s)(?nb \<mapsto> block_of ys (length ys))
             | Some b \<Rightarrow> (heap s)(?nb \<mapsto> block_of ys (length ys), b := None))"
      by auto
    from a show "vecs (snd ?res) this = Some ?nv" by simp
    from a ne assms(2) show "vecs (snd ?res) rhs = Some r" by simp
    have "heap (snd ?res) ?nb = Some (block_of ys (length ys))"
    proof (cases "rm_buffer (v_data v)")
      case None
      with h show ?thesis by simp
    next
      case (Some b)
      from heap_ok_allocated[OF assms(5) holds_block[OF assms(3) Some]] h Some
      show ?thesis by simp
    qed
    then show "holds (snd ?res) ?nv ys" by (simp add: holds_def)
    have "heap (snd ?res) br = heap s br"
    proof (cases "rm_buffer (v_data v)")
      case None
      with h brnb show ?thesis by simp
    next
      case (Some b)
      with h brnb brb[OF Some] show ?thesis by simp
    qed
    with assms(4) br show "holds (snd ?res) r ys" by (simp add: holds_def)
  qed
qed

theorem C2_copy_assign_strong_guarantee_witness:
  "vecs s_pair 1 = Some v_one \<and> vecs s_pair 0 = Some v_full \<and>
   holds s_pair v_one [1] \<and> holds s_pair v_full [7, 13] \<and>
   heap_ok T_fragile s_pair \<and> heap_ok T_int s_pair \<and>
   rm_capacity (v_data v_one) < v_size v_full \<and>
   fst (assign_copy T_fragile 1 0 s_pair) = Inl ElementThrew \<and>
   vecs (snd (assign_copy T_fragile 1 0 s_pair)) = vecs s_pair \<and>
   heap (snd (assign_copy T_fragile 1 0 s_pair)) = heap s_pair \<and>
   holds (snd (assign_copy T_fragile 1 0 s_pair)) v_one [1] \<and>
   fst (assign_copy T_int 1 0 s_pair) = Inr () \<and>
   vecs (snd (assign_copy T_int 1 0 s_pair)) 1 =
     Some \<lparr>v_data = \<lparr>rm_buffer = Some 2, rm_capacity = 2\<rparr>, v_size = 2\<rparr> \<and>
   holds (snd (assign_copy T_int 1 0 s_pair))
     \<lparr>v_data = \<lparr>rm_buffer = Some 2, rm_capacity = 2\<rparr>, v_size = 2\<rparr> [7, 13] \<and>
   vecs (snd (assign_copy T_int 1 0 s_pair)) 0 = Some v_full \<and>
   holds (snd (assign_copy T_int 1 0 s_pair)) v_full [7, 13]"
proof -
  have h1: "vecs s_pair 1 = Some v_one" by (simp add: s_pair_def)
  have h2: "vecs s_pair 0 = Some v_full" by (simp add: s_pair_def)
  have h3: "holds s_pair v_one [1]"
    by (simp add: holds_def s_pair_def v_one_def block_of_def)
  have h4: "holds s_pair v_full [7, 13]"
    by (simp add: holds_def s_pair_def v_full_def block_of_def)
  have h5: "heap_ok T_fragile s_pair"
    by (auto simp: heap_ok_def s_pair_def T_fragile_def split: if_splits)
  have i5: "heap_ok T_int s_pair"
    by (auto simp: heap_ok_def s_pair_def T_int_def split: if_splits)
  have h6: "rm_capacity (v_data v_one) < v_size v_full" by (simp add: v_one_def v_full_def)
  have f: "fst (assign_copy T_fragile 1 0 s_pair) = Inl ElementThrew" by code_simp
  have g: "fst (assign_copy T_int 1 0 s_pair) = Inr ()" by code_simp
  have n: "next_block s_pair = 2" by (simp add: s_pair_def)
  have len: "length [7, 13::nat] = 2" by simp
  note t = C2_copy_assign_strong_guarantee [OF h1 h2 h3 h4 h5 h6,
      THEN conjunct2, THEN conjunct2, THEN conjunct1]
  note u = C2_copy_assign_strong_guarantee [OF h1 h2 h3 h4 i5 h6,
      THEN conjunct2, THEN conjunct2, THEN conjunct2, unfolded n len]
  have a: "vecs (snd (assign_copy T_fragile 1 0 s_pair)) = vecs s_pair \<and>
           heap (snd (assign_copy T_fragile 1 0 s_pair)) = heap s_pair \<and>
           holds (snd (assign_copy T_fragile 1 0 s_pair)) v_one [1]"
    using t f by blast
  have b: "vecs (snd (assign_copy T_int 1 0 s_pair)) 1 =
     Some \<lparr>v_data = \<lparr>rm_buffer = Some 2, rm_capacity = 2\<rparr>, v_size = 2\<rparr> \<and>
   holds (snd (assign_copy T_int 1 0 s_pair))
     \<lparr>v_data = \<lparr>rm_buffer = Some 2, rm_capacity = 2\<rparr>, v_size = 2\<rparr> [7, 13] \<and>
   vecs (snd (assign_copy T_int 1 0 s_pair)) 0 = Some v_full \<and>
   holds (snd (assign_copy T_int 1 0 s_pair)) v_full [7, 13]"
    using u g by blast
  from h1 h2 h3 h4 h5 i5 h6 f a g b show ?thesis by blast
qed

section \<open>Amortised growth\<close>

text \<open>
  Claim C6 promises, for every \<open>N\<close>, a final capacity equal to the smallest power of two
  that is at least \<open>N\<close>.  For \<open>N = 0\<close> that power is \<open>2 ^ 0 = 1\<close>, but no append runs and
  the capacity of the vector stays 0.
\<close>

theorem C6_no_append_counterexample:
  "vecs s_fresh 0 = Some \<lparr>v_data = \<lparr>rm_buffer = None, rm_capacity = 0\<rparr>, v_size = 0\<rparr> \<and>
   fst (push_all T_int 0 [] s_fresh) = Inr () \<and>
   vecs (snd (push_all T_int 0 [] s_fresh)) 0 =
     Some \<lparr>v_data = \<lparr>rm_buffer = None, rm_capacity = 0\<rparr>, v_size = 0\<rparr> \<and>
   length ([] :: nat arg list) \<le> 2 ^ 0 \<and> (0::nat) < 2 ^ 0"
  by code_simp

text \<open>
  Claim C6, amended.  Take a vector of size 0 and capacity 0 and append \<open>N\<close> arguments,
  one after the other.

  When every append returns, the vector has size \<open>N\<close> and, for \<open>N \<ge> 1\<close>, capacity \<open>2 ^ k\<close>
  for the least \<open>k\<close> with \<open>N \<le> 2 ^ k\<close>, the end of the schedule 1, 2, 4, 8, ...; for
  \<open>N = 0\<close> the capacity is 0.

  When the arguments are objects outside the heap and \<open>2 * N * sizeof(T)\<close> does not
  exceed \<open>2 ^ 64\<close>, the run of appends does not run into undefined behaviour; it returns
  when, moreover, no constructor of the element type throws and the store grants
  \<open>2 * N * sizeof(T)\<close> bytes; and when it returns the vector holds the values of the
  arguments in their order.

  Each append to a full vector that returns has grown the capacity to
  \<open>max 1 (2 * size)\<close>; an append of an object outside the heap to a full, well-formed
  vector returns when no constructor throws, the byte count of the new capacity does
  not wrap around and the store grants it.
\<close>

theorem C6_doubling_schedule:
  assumes "vecs s this = Some v" and "v_size v = 0" and "rm_capacity (v_data v) = 0"
  shows "(fst (push_all T this as s) = Inr () \<longrightarrow>
            (\<exists>d. vecs (snd (push_all T this as s)) this =
                   Some \<lparr>v_data = d, v_size = length as\<rparr> \<and>
                 (if as = [] then rm_capacity d = 0
                  else \<exists>k. rm_capacity d = 2 ^ k \<and> length as \<le> 2 ^ k \<and>
                           (\<forall>j. length as \<le> 2 ^ j \<longrightarrow> k \<le> j)))) \<and>
         (holds s v [] \<and> heap_ok T s \<and> elem_type_ok T \<and> list_all outside as \<and>
          2 * length as * size_of T \<le> 2 ^ 64 \<longrightarrow>
            fst (push_all T this as s) \<noteq> Inl Undefined \<and>
            (ctors_never_throw T \<and> 2 * length as * size_of T \<le> store_limit s \<longrightarrow>
               fst (push_all T this as s) = Inr ()) \<and>
            (fst (push_all T this as s) = Inr () \<longrightarrow>
               (\<exists>v'. vecs (snd (push_all T this as s)) this = Some v' \<and>
                     holds (snd (push_all T this as s)) v' (map arg_value as)))) \<and>
         (vecs s0 this = Some v0 \<and> v_size v0 = rm_capacity (v_data v0) \<and>
          fst (EmplaceBack T this a0 s0) = Inr p0 \<longrightarrow>
            (\<exists>d. vecs (snd (EmplaceBack T this a0 s0)) this =
                   Some \<lparr>v_data = d, v_size = v_size v0 + 1\<rparr> \<and>
                 rm_capacity d = max 1 (2 * v_size v0))) \<and>
         (vecs s0 this = Some v0 \<and> holds s0 v0 xs0 \<and> heap_ok T s0 \<and> elem_type_ok T \<and>
          length xs0 = rm_capacity (v_data v0) \<and> outside a0 \<and> ctors_never_throw T \<and>
          max 1 (2 * length xs0) * size_of T < 2 ^ 64 \<and>
          max 1 (2 * length xs0) * size_of T \<le> store_limit s0 \<longrightarrow>
            fst (EmplaceBack T this a0 s0) = Inr (Some (next_block s0), length xs0))"
proof (intro conjI impI; (elim conjE)?)
  assume run: "fst (push_all T this as s) = Inr ()"
  show "\<exists>d. vecs (snd (push_all T this as s)) this =
                Some \<lparr>v_data = d, v_size = length as\<rparr> \<and>
              (if as = [] then rm_capacity d = 0
               else \<exists>k. rm_capacity d = 2 ^ k \<and> length as \<le> 2 ^ k \<and>
                        (\<forall>j. length as \<le> 2 ^ j \<longrightarrow> k \<le> j))"
  proof (cases as)
    case Nil
    have "\<lparr>v_data = v_data v, v_size = 0\<rparr> = v"
      using assms(2) by (cases v) simp
    with Nil assms(1,3) show ?thesis
      by (auto simp: returnE_def intro!: exI[of _ "v_data v"])
  next
    case (Cons a as')
    from push_all_Cons_success[of T this a as' s] run Cons obtain p where
      p: "fst (EmplaceBack T this a s) = Inr p" and
      eq: "push_all T this (a # as') s = push_all T this as' (snd (EmplaceBack T this a s))"
      by blast
    let ?s1 = "snd (EmplaceBack T this a s)"
    from EmplaceBack_success_vecs[OF assms(1) p] assms(2,3) obtain d where
      d: "vecs ?s1 this = Some \<lparr>v_data = d, v_size = 1\<rparr>" and cap: "rm_capacity d = 1"
      by auto
    let ?v1 = "\<lparr>v_data = d, v_size = 1\<rparr>"
    have run1: "fst (push_all T this as' ?s1) = Inr ()"
      using run Cons eq by simp
    have "\<exists>d' k'. vecs (snd (push_all T this as' ?s1)) this =
                   Some \<lparr>v_data = d', v_size = v_size ?v1 + length as'\<rparr> \<and>
                rm_capacity d' = 2 ^ k' \<and> v_size ?v1 + length as' \<le> 2 ^ k' \<and>
                2 ^ k' < 2 * (v_size ?v1 + length as')"
      by (rule push_all_doubling[OF d run1, of 0]) (simp_all add: cap)
    then obtain d' k' where
      fin: "vecs (snd (push_all T this as' ?s1)) this =
              Some \<lparr>v_data = d', v_size = Suc (length as')\<rparr>"
        "rm_capacity d' = 2 ^ k'" "Suc (length as') \<le> 2 ^ k'" "2 ^ k' < 2 * Suc (length as')"
      by auto
    have least: "k' \<le> j" if "Suc (length as') \<le> 2 ^ j" for j
    proof -
      from that fin(4) have "(2::nat) ^ k' < 2 ^ Suc j" by simp
      then have "k' < Suc j"
        by (simp only: power_strict_increasing_iff one_less_numeral_iff semiring_norm)
      then show ?thesis by simp
    qed
    show ?thesis
      unfolding Cons eq using fin least by (auto intro!: exI[of _ d'] exI[of _ k'])
  qed
next
  assume h: "holds s v []" "heap_ok T s" "elem_type_ok T" "list_all outside as"
    "2 * length as * size_of T \<le> 2 ^ 64"
  note sp = push_all_from_empty[OF assms(1) h(1) assms(3) h(2-5)]
  from sp show "fst (push_all T this as s) \<noteq> Inl Undefined" by simp
  from sp show "fst (push_all T this as s) = Inr ()"
    if "ctors_never_throw T" "2 * length as * size_of T \<le> store_limit s"
    using that by simp
  from sp show "\<exists>v'. vecs (snd (push_all T this as s)) this = Some v' \<and>
      holds (snd (push_all T this as s)) v' (map arg_value as)"
    if "fst (push_all T this as s) = Inr ()"
    using that by simp
next
  assume a: "vecs s0 this = Some v0" "v_size v0 = rm_capacity (v_data v0)"
    "fst (EmplaceBack T this a0 s0) = Inr p0"
  from EmplaceBack_success_vecs[OF a(1,3)] a(2) show
    "\<exists>d. vecs (snd (EmplaceBack T this a0 s0)) this =
            Some \<lparr>v_data = d, v_size = v_size v0 + 1\<rparr> \<and>
          rm_capacity d = max 1 (2 * v_size v0)"
    by (auto simp: max_def mult.commute)
next
  assume "vecs s0 this = Some v0" "holds s0 v0 xs0" "heap_ok T s0" "elem_type_ok T"
    "length xs0 = rm_capacity (v_data v0)" "outside a0" "ctors_never_throw T"
    "max 1 (2 * length xs0) * size_of T < 2 ^ 64"
    "max 1 (2 * length xs0) * size_of T \<le> store_limit s0"
  then show "fst (EmplaceBack T this a0 s0) = Inr (Some (next_block s0), length xs0)"
    by (rule EmplaceBack_overflow_returns)
qed

theorem C6_doubling_schedule_witness:
  "vecs s_fresh 0 = Some \<lparr>v_data = RawMemory_default, v_size = 0\<rparr> \<and>
   holds s_fresh \<lparr>v_data = RawMemory_default, v_size = 0\<rparr> ([] :: nat list) \<and>
   heap_ok T_int s_fresh \<and> elem_type_ok T_int \<and> ctors_never_throw T_int \<and>
   list_all outside (map (\<lambda>x. Copying (Val x)) [0, 1, 2, 3, 4::nat]) \<and>
   fst (push_all T_int 0 (map (\<lambda>x. Copying (Val x)) [0, 1, 2, 3, 4]) s_fresh) = Inr () \<and>
   (\<exists>d. vecs (snd (push_all T_int 0 (map (\<lambda>x. Copying (Val x)) [0, 1, 2, 3, 4]) s_fresh)) 0 =
          Some \<lparr>v_data = d, v_size = 5\<rparr> \<and>
        (\<exists>k. rm_capacity d = 2 ^ k \<and> 5 \<le> (2::nat) ^ k \<and> (\<forall>j. 5 \<le> (2::nat) ^ j \<longrightarrow> k \<le> j))) \<and>
   (\<exists>v'. vecs (snd (push_all T_int 0 (map (\<lambda>x. Copying (Val x)) [0, 1, 2, 3, 4]) s_fresh)) 0 =
          Some v' \<and>
        holds (snd (push_all T_int 0 (map (\<lambda>x. Copying (Val x)) [0, 1, 2, 3, 4]) s_fresh)) v'
          [0, 1, 2, 3, 4]) \<and>
   vecs (snd (push_all T_int 0 (map (\<lambda>x. Copying (Val x)) [0, 1, 2, 3, 4]) s_fresh)) 0 =
     Some \<lparr>v_data = \<lparr>rm_buffer = Some 3, rm_capacity = 8\<rparr>, v_size = 5\<rparr> \<and>
   heap (snd (push_all T_int 0 (map (\<lambda>x. Copying (Val x)) [0, 1, 2, 3, 4]) s_fresh)) 3 =
     Some [Live 0, Live 1, Live 2, Live 3, Live 4, Raw, Raw, Raw] \<and>
   vecs s_full 0 = Some v_full \<and> holds s_full v_full [7, 13] \<and> heap_ok T_int s_full \<and>
   fst (EmplaceBack T_int 0 (Copying (Val 5)) s_full) = Inr (Some 1, 2) \<and>
   (\<exists>d. vecs (snd (EmplaceBack T_int 0 (Copying (Val 5)) s_full)) 0 =
          Some \<lparr>v_data = d, v_size = 3\<rparr> \<and> rm_capacity d = 4)"
proof -
  let ?as = "map (\<lambda>x. Copying (Val x)) [0, 1, 2, 3, 4::nat]"
  let ?v = "\<lparr>v_data = RawMemory_default, v_size = 0\<rparr>"
  have h1: "vecs s_fresh 0 = Some ?v" by (simp add: s_fresh_def)
  have h2: "v_size ?v = 0" by simp
  have h3: "rm_capacity (v_data ?v) = 0" by (simp add: RawMemory_default_def)
  have h4: "holds s_fresh ?v ([] :: nat list)"
    by (simp add: holds_def RawMemory_default_def)
  have h5: "heap_ok T_int s_fresh" by (simp add: heap_ok_def s_fresh_def T_int_def)
  have h6: "elem_type_ok T_int" by (simp add: elem_type_ok_def T_int_def)
  have h7: "ctors_never_throw T_int" by (simp add: ctors_never_throw_def T_int_def)
  have h8: "list_all outside ?as" by simp
  have z: "size_of T_int = 4" "store_limit s_fresh = 2 ^ 40" "store_limit s_full = 2 ^ 40"
    "next_block s_full = 1"
    by (simp_all add: T_int_def s_fresh_def s_full_def)
  have g1: "vecs s_full 0 = Some v_full" by (simp add: s_full_def)
  have g2: "v_size v_full = rm_capacity (v_data v_full)" by (simp add: v_full_def)
  have g3: "holds s_full v_full [7, 13]"
    by (simp add: holds_def s_full_def v_full_def block_of_def)
  have g4: "heap_ok T_int s_full"
    by (auto simp: heap_ok_def s_full_def T_int_def split: if_splits)
  have g5: "length [7, 13::nat] = rm_capacity (v_data v_full)" by (simp add: v_full_def)
  have g6: "outside (Copying (Val (5::nat)))" by simp
  have e1: "vecs (snd (push_all T_int 0 ?as s_fresh)) 0 =
     Some \<lparr>v_data = \<lparr>rm_buffer = Some 3, rm_capacity = 8\<rparr>, v_size = 5\<rparr>" by code_simp
  have e2: "heap (snd (push_all T_int 0 ?as s_fresh)) 3 =
     Some [Live 0, Live 1, Live 2, Live 3, Live 4, Raw, Raw, Raw]" by code_simp
  have len: "length ?as = 5" by simp
  have ne: "(?as = []) = False" by simp
  have vals: "map arg_value ?as = [0, 1, 2, 3, 4]" by (simp add: arg_value_def)
  note t = C6_doubling_schedule
    [OF h1 h2 h3, of T_int ?as s_full v_full "Copying (Val 5)" "(Some 1, 2)" "[7, 13]",
     unfolded len ne if_False vals]
  have run: "fst (push_all T_int 0 ?as s_fresh) = Inr ()"
    using t [THEN conjunct2, THEN conjunct1] h4 h5 h6 h7 h8 by (simp add: z)
  have a: "\<exists>d. vecs (snd (push_all T_int 0 ?as s_fresh)) 0 = Some \<lparr>v_data = d, v_size = 5\<rparr> \<and>
        (\<exists>k. rm_capacity d = 2 ^ k \<and> 5 \<le> (2::nat) ^ k \<and> (\<forall>j. 5 \<le> (2::nat) ^ j \<longrightarrow> k \<le> j))"
    using t [THEN conjunct1] run by blast
  have b: "\<exists>v'. vecs (snd (push_all T_int 0 ?as s_fresh)) 0 = Some v' \<and>
        holds (snd (push_all T_int 0 ?as s_fresh)) v' [0, 1, 2, 3, 4]"
    using t [THEN conjunct2, THEN conjunct1] h4 h5 h6 h8 run by (simp add: z)
  have c: "fst (EmplaceBack T_int 0 (Copying (Val 5)) s_full) = Inr (Some 1, 2)"
    using t [THEN conjunct2, THEN conjunct2, THEN conjunct2] g1 g3 g4 h6 g5 g6 h7
    by (simp add: z)
  have "\<exists>d. vecs (snd (EmplaceBack T_int 0 (Copying (Val 5)) s_full)) 0 =
          Some \<lparr>v_data = d, v_size = v_size v_full + 1\<rparr> \<and>
        rm_capacity d = max 1 (2 * v_size v_full)"
    using t [THEN conjunct2, THEN conjunct2, THEN conjunct1] g1 g2 c by blast
  then have d: "\<exists>d. vecs (snd (EmplaceBack T_int 0 (Copying (Val 5)) s_full)) 0 =
          Some \<lparr>v_data = d, v_size = 3\<rparr> \<and> rm_capacity d = 4"
    by (simp add: v_full_def)
  from h1 h4 h5 h6 h7 h8 run a b e1 e2 g1 g3 g4 c d show ?thesis by blast
qed

section \<open>Insertion into spare capacity\<close>

text \<open>
  Claim C7 also covers the position \<open>p = n\<close>, the end.  There \<^verbatim>\<open>Emplace\<close> hands over to
  \<^verbatim>\<open>EmplaceBack\<close>, which constructs the new element in the raw slot \<open>n\<close> directly from the
  argument: no temporary is made and nothing is moved.  Inserting a copy of 5 at the end
  of the vector \<open>[7, 13]\<close> of capacity 4 records one copy construction and no move.
\<close>

theorem C7_insert_at_end_counterexample:
  "vecs s_spare 0 = Some v_spare \<and> v_size v_spare = 2 \<and> rm_capacity (v_data v_spare) = 4 \<and>
   fst (Insert_copy T_int 0 (Some 0, 2) (Val 5) s_spare) = Inr (Some 0, 2) \<and>
   heap (snd (Insert_copy T_int 0 (Some 0, 2) (Val 5) s_spare)) 0 =
     Some [Live 7, Live 13, Live 5, Raw] \<and>
   trace (snd (Insert_copy T_int 0 (Some 0, 2) (Val 5) s_spare)) =
     [CopyCtor (Val 5) (Into (Some 0, 2))]"
  by code_simp

text \<open>
  Claim C7, amended.  Let the vector hold \<open>xs\<close> (\<open>n\<close> elements) in the block \<open>b\<close> with a
  capacity above \<open>n\<close>, and let the argument refer to an object outside the heap or to one
  of the elements; \<open>x\<close> is its value, and \<open>ys\<close> are the elements once the new object is
  constructed from it (\<open>xs\<close>, with the element moved from if the argument is an rvalue
  of an element).

  At a position \<open>p < n\<close>, \<^verbatim>\<open>Emplace\<close> returns exactly when these operations succeed, in
  this order: the construction of the temporary, the move construction of the last
  element, the move assignments of the shift, the move assignment from the temporary.
  Then it returns the position \<open>p\<close>; nothing was allocated and the vector has its storage
  and capacity; it holds \<open>ys[0..p) @ x # ys[p..n)\<close>; the events are the construction of
  the temporary, the \<open>n - p\<close> relocations of \<open>shift_events\<close> (element \<open>n - 1 - t\<close> to slot
  \<open>n - t\<close>), one move assignment from the temporary to slot \<open>p\<close>, and the destruction of
  the temporary.  Otherwise the exception of the element leaves the call, with the
  size, the storage and the capacity as before.

  At the position \<open>p = n\<close>, \<^verbatim>\<open>Emplace\<close> returns exactly when the construction of the new
  element from the argument succeeds.  Then it returns the position \<open>n\<close>; nothing was
  allocated; the vector holds \<open>ys @ [x]\<close>; and the only event is that construction, in
  slot \<open>n\<close>: no element is relocated, no temporary is made, and the value is not moved
  again.  Otherwise the exception leaves the call, and the object store, the heap and
  the recorded events are as before.
\<close>

theorem C7_insert_spare_capacity:
  assumes "vecs s this = Some v" and "holds s v (xs :: 'a list)"
    and "rm_buffer (v_data v) = Some b" and "length xs < rm_capacity (v_data v)"
    and "operand_in (Some b) (length xs) (arg_operand a)"
  shows "(p < length xs \<longrightarrow>
            (if succeed (arg_ctor T a (operand_value xs (arg_operand a)) #
                         shift_attempts T (after_construct T xs a) p
                           (operand_value xs (arg_operand a))) (world s)
             then fst (Emplace T this (Some b, p) a s) = Inr (Some b, p) \<and>
                  vecs (snd (Emplace T this (Some b, p) a s)) this =
                    Some (v\<lparr>v_size := Suc (length xs)\<rparr>) \<and>
                  holds (snd (Emplace T this (Some b, p) a s)) (v\<lparr>v_size := Suc (length xs)\<rparr>)
                    (take p (after_construct T xs a) @ operand_value xs (arg_operand a) #
                     drop p (after_construct T xs a)) \<and>
                  next_block (snd (Emplace T this (Some b, p) a s)) = next_block s \<and>
                  trace (snd (Emplace T this (Some b, p) a s)) =
                    trace s @ ctor_event Local a # shift_events b (length xs) p @
                      [MoveAssign (Val (operand_value xs (arg_operand a))) (Some b, p),
                       Dtor Local] \<and>
                  length (shift_events b (length xs) p :: 'a event list) = length xs - p
             else fst (Emplace T this (Some b, p) a s) = Inl ElementThrew \<and>
                  vecs (snd (Emplace T this (Some b, p) a s)) = vecs s \<and>
                  next_block (snd (Emplace T this (Some b, p) a s)) = next_block s)) \<and>
         (p = length xs \<longrightarrow>
            (if fst (arg_ctor T a (operand_value xs (arg_operand a)) (world s))
             then fst (Emplace T this (Some b, p) a s) = Inr (Some b, p) \<and>
                  vecs (snd (Emplace T this (Some b, p) a s)) this =
                    Some (v\<lparr>v_size := Suc (length xs)\<rparr>) \<and>
                  holds (snd (Emplace T this (Some b, p) a s)) (v\<lparr>v_size := Suc (length xs)\<rparr>)
                    (after_construct T xs a @ [operand_value xs (arg_operand a)]) \<and>
                  next_block (snd (Emplace T this (Some b, p) a s)) = next_block s \<and>
                  trace (snd (Emplace T this (Some b, p) a s)) =
                    trace s @ [ctor_event (Into (Some b, p)) a]
             else fst (Emplace T this (Some b, p) a s) = Inl ElementThrew \<and>
                  vecs (snd (Emplace T this (Some b, p) a s)) = vecs s \<and>
                  heap (snd (Emplace T this (Some b, p) a s)) = heap s \<and>
                  next_block (snd (Emplace T this (Some b, p) a s)) = next_block s \<and>
                  trace (snd (Emplace T this (Some b, p) a s)) = trace s))"
proof (intro conjI impI)
  let ?res = "Emplace T this (Some b, p) a s"
  let ?x = "operand_value xs (arg_operand a)"
  let ?ys = "after_construct T xs a"
  let ?v' = "v\<lparr>v_size := Suc (length xs)\<rparr>"
  let ?ok = "succeed (arg_ctor T a ?x # shift_attempts T ?ys p ?x) (world s)"
  assume p: "p < length xs"
  have len: "length (shift_events b (length xs) p :: 'a event list) = length xs - p"
    by (simp add: shift_events_def)
  note sp = Emplace_spare_spec[OF assms(1-4) p assms(5), of T]
  show "if ?ok
        then fst ?res = Inr (Some b, p) \<and> vecs (snd ?res) this = Some ?v' \<and>
             holds (snd ?res) ?v' (take p ?ys @ ?x # drop p ?ys) \<and>
             next_block (snd ?res) = next_block s \<and>
             trace (snd ?res) =
               trace s @ ctor_event Local a # shift_events b (length xs) p @
                 [MoveAssign (Val ?x) (Some b, p), Dtor Local] \<and>
             length (shift_events b (length xs) p :: 'a event list) = length xs - p
        else fst ?res = Inl ElementThrew \<and> vecs (snd ?res) = vecs s \<and>
             next_block (snd ?res) = next_block s"
  proof (cases ?ok)
    case False
    with sp show ?thesis by auto
  next
    case True
    with sp have ok: "fst ?res = Inr (Some b, p)"
      and a: "vecs (snd ?res) = (vecs s)(this \<mapsto> ?v')"
      and h: "heap (snd ?res) b =
            Some (block_of (insert_at ?ys p ?x) (rm_capacity (v_data v)))"
      and n: "next_block (snd ?res) = next_block s"
      and t: "trace (snd ?res) =
            trace s @ ctor_event Local a # shift_events b (length xs) p @
              [MoveAssign (Val ?x) (Some b, p), Dtor Local]"
      by auto
    have "holds (snd ?res) (v\<lparr>v_size := Suc (length ?ys)\<rparr>) (insert_at ?ys p ?x)"
      using assms(3) _ h by (rule holds_after_insert) (simp add: assms(4))
    then have "holds (snd ?res) ?v' (take p ?ys @ ?x # drop p ?ys)"
      by (simp add: insert_at_def)
    with True ok a n t len show ?thesis by simp
  qed
next
  let ?res = "Emplace T this (Some b, p) a s"
  let ?x = "operand_value xs (arg_operand a)"
  let ?ys = "after_construct T xs a"
  let ?v' = "v\<lparr>v_size := Suc (length xs)\<rparr>"
  assume p: "p = length xs"
  have sz: "v_size v = length xs" using assms(2) by (simp add: holds_def)
  have "end_ptr v = (Some b, p)" by (simp add: end_ptr_def rm_plus_def assms(3) sz p)
  with Emplace_at_end[OF assms(1), of T a] have eq: "?res = EmplaceBack T this a s" by simp
  note sp = EmplaceBack_spare_spec[OF assms(1-5), of T, folded eq, folded p]
  show "if fst (arg_ctor T a ?x (world s))
        then fst ?res = Inr (Some b, p) \<and> vecs (snd ?res) this = Some ?v' \<and>
             holds (snd ?res) ?v' (?ys @ [?x]) \<and>
             next_block (snd ?res) = next_block s \<and>
             trace (snd ?res) = trace s @ [ctor_event (Into (Some b, p)) a]
        else fst ?res = Inl ElementThrew \<and> vecs (snd ?res) = vecs s \<and>
             heap (snd ?res) = heap s \<and> next_block (snd ?res) = next_block s \<and>
             trace (snd ?res) = trace s"
  proof (cases "fst (arg_ctor T a ?x (world s))")
    case False
    with sp show ?thesis by auto
  next
    case True
    with sp have ok: "fst ?res = Inr (Some b, p)"
      and a: "vecs (snd ?res) = (vecs s)(this \<mapsto> v\<lparr>v_size := Suc p\<rparr>)"
      and h: "heap (snd ?res) =
            (heap s)(b \<mapsto> block_of (?ys @ [?x]) (rm_capacity (v_data v)))"
      and n: "next_block (snd ?res) = next_block s"
      and t: "trace (snd ?res) = trace s @ [ctor_event (Into (Some b, p)) a]"
      by auto
    have "holds (snd ?res) ?v' (?ys @ [?x])"
      using assms(3,4) h by (simp add: holds_def)
    with True ok a n t p show ?thesis by simp
  qed
qed

theorem C7_insert_spare_capacity_witness:
  "vecs s_spare 0 = Some v_spare \<and> holds s_spare v_spare [7, 13] \<and>
   rm_buffer (v_data v_spare) = Some 0 \<and> length [7, 13::nat] < rm_capacity (v_data v_spare) \<and>
   operand_in (Some 0) (length [7, 13::nat]) (arg_operand (Copying (Val 5))) \<and>
   operand_in (Some 0) (length [7, 13::nat]) (arg_operand (Moving (At (Some 0, 1)))) \<and>
   fst (Emplace T_int 0 (Some 0, 0) (Copying (Val 5)) s_spare) = Inr (Some 0, 0) \<and>
   vecs (snd (Emplace T_int 0 (Some 0, 0) (Copying (Val 5)) s_spare)) 0 =
     Some (v_spare\<lparr>v_size := 3\<rparr>) \<and>
   holds (snd (Emplace T_int 0 (Some 0, 0) (Copying (Val 5)) s_spare))
     (v_spare\<lparr>v_size := 3\<rparr>) [5, 7, 13] \<and>
   next_block (snd (Emplace T_int 0 (Some 0, 0) (Copying (Val 5)) s_spare)) =
     next_block s_spare \<and>
   trace (snd (Emplace T_int 0 (Some 0, 0) (Copying (Val 5)) s_spare)) =
     [CopyCtor (Val 5) Local,
      MoveCtor (At (Some 0, 1)) (Into (Some 0, 2)), MoveAssign (At (Some 0, 0)) (Some 0, 1),
      MoveAssign (Val 5) (Some 0, 0), Dtor Local] \<and>
   fst (Emplace T_fragile 0 (Some 0, 0) (Moving (At (Some 0, 1))) s_spare) = Inr (Some 0, 0) \<and>
   holds (snd (Emplace T_fragile 0 (Some 0, 0) (Moving (At (Some 0, 1))) s_spare))
     (v_spare\<lparr>v_size := 3\<rparr>) [13, 7, 0] \<and>
   fst (Emplace T_int 0 (Some 0, 2) (Moving (Val 5)) s_spare) = Inr (Some 0, 2) \<and>
   holds (snd (Emplace T_int 0 (Some 0, 2) (Moving (Val 5)) s_spare))
     (v_spare\<lparr>v_size := 3\<rparr>) [7, 13, 5] \<and>
   trace (snd (Emplace T_int 0 (Some 0, 2) (Moving (Val 5)) s_spare)) =
     [MoveCtor (Val 5) (Into (Some 0, 2))] \<and>
   fst (Emplace T_fragile 0 (Some 0, 2) (Copying (Val 13)) s_spare) = Inl ElementThrew \<and>
   heap (snd (Emplace T_fragile 0 (Some 0, 2) (Copying (Val 13)) s_spare)) = heap s_spare \<and>
   fst (Emplace T_fragile 0 (Some 0, 1) (Copying (Val 13)) s_spare) = Inl ElementThrew \<and>
   vecs (snd (Emplace T_fragile 0 (Some 0, 1) (Copying (Val 13)) s_spare)) = vecs s_spare"
proof -
  have h1: "vecs s_spare 0 = Some v_spare" by (simp add: s_spare_def)
  have h2: "holds s_spare v_spare [7, 13]"
    by (simp add: holds_def s_spare_def v_spare_def block_of_def numeral_2_eq_2)
  have h3: "rm_buffer (v_data v_spare) = Some 0" by (simp add: v_spare_def)
  have h4: "length [7, 13::nat] < rm_capacity (v_data v_spare)" by (simp add: v_spare_def)
  have h5: "operand_in (Some 0) (length [7, 13::nat]) (arg_operand (Copying (Val 5)))"
    by simp
  have h6: "operand_in (Some 0) (length [7, 13::nat]) (arg_operand (Moving (At (Some 0, 1))))"
    by simp
  have h7: "operand_in (Some 0) (length [7, 13::nat]) (arg_operand (Moving (Val 5)))"
    by simp
  have h8: "operand_in (Some 0) (length [7, 13::nat]) (arg_operand (Copying (Val 13)))"
    by simp
  have se: "shift_events 0 2 0 =
      [MoveCtor (At (Some 0, 1)) (Into (Some 0, 2)) :: nat event,
       MoveAssign (At (Some 0, 0)) (Some 0, 1)]"
    by (simp add: shift_events_def upt_rec numeral_2_eq_2)
  have tr: "trace s_spare = []" by (simp add: s_spare_def)
  have len: "length [7, 13::nat] = 2" by simp
  have s1: "succeed (arg_ctor T_int (Copying (Val 5)) 5 # shift_attempts T_int [7, 13] 0 5) ()"
    by (simp add: shift_attempts_def T_int_def upt_rec)
  have s2: "succeed (arg_ctor T_fragile (Moving (At (Some 0, 1))) 13 #
                     shift_attempts T_fragile [7, 0] 0 13) ()"
    by (simp add: shift_attempts_def T_fragile_def upt_rec)
  have mf: "moved_from T_fragile 13 = 0" by (simp add: T_fragile_def)
  note t1 = C7_insert_spare_capacity [OF h1 h2 h3 h4 h5, of 0 T_int, THEN conjunct1,
      unfolded len]
  note t2 = C7_insert_spare_capacity [OF h1 h2 h3 h4 h6, of 0 T_fragile, THEN conjunct1,
      unfolded len]
  note t3 = C7_insert_spare_capacity [OF h1 h2 h3 h4 h7, of 2 T_int, THEN conjunct2,
      unfolded len]
  note t4 = C7_insert_spare_capacity [OF h1 h2 h3 h4 h8, of 2 T_fragile, THEN conjunct2,
      unfolded len]
  note t5 = C7_insert_spare_capacity [OF h1 h2 h3 h4 h8, of 1 T_fragile, THEN conjunct1,
      unfolded len]
  have a: "fst (Emplace T_int 0 (Some 0, 0) (Copying (Val 5)) s_spare) = Inr (Some 0, 0) \<and>
      vecs (snd (Emplace T_int 0 (Some 0, 0) (Copying (Val 5)) s_spare)) 0 =
        Some (v_spare\<lparr>v_size := 3\<rparr>) \<and>
      holds (snd (Emplace T_int 0 (Some 0, 0) (Copying (Val 5)) s_spare))
        (v_spare\<lparr>v_size := 3\<rparr>) [5, 7, 13] \<and>
      next_block (snd (Emplace T_int 0 (Some 0, 0) (Copying (Val 5)) s_spare)) =
        next_block s_spare \<and>
      trace (snd (Emplace T_int 0 (Some 0, 0) (Copying (Val 5)) s_spare)) =
        [CopyCtor (Val 5) Local,
         MoveCtor (At (Some 0, 1)) (Into (Some 0, 2)), MoveAssign (At (Some 0, 0)) (Some 0, 1),
         MoveAssign (Val 5) (Some 0, 0), Dtor Local]"
    using t1 s1 by (simp add: se tr)
  have b: "fst (Emplace T_fragile 0 (Some 0, 0) (Moving (At (Some 0, 1))) s_spare) =
        Inr (Some 0, 0) \<and>
      holds (snd (Emplace T_fragile 0 (Some 0, 0) (Moving (At (Some 0, 1))) s_spare))
        (v_spare\<lparr>v_size := 3\<rparr>) [13, 7, 0]"
    using t2 s2 by (simp add: mf)
  have c: "fst (Emplace T_int 0 (Some 0, 2) (Moving (Val 5)) s_spare) = Inr (Some 0, 2) \<and>
      holds (snd (Emplace T_int 0 (Some 0, 2) (Moving (Val 5)) s_spare))
        (v_spare\<lparr>v_size := 3\<rparr>) [7, 13, 5] \<and>
      trace (snd (Emplace T_int 0 (Some 0, 2) (Moving (Val 5)) s_spare)) =
        [MoveCtor (Val 5) (Into (Some 0, 2))]"
    using t3 by (simp add: T_int_def tr)
  have d: "fst (Emplace T_fragile 0 (Some 0, 2) (Copying (Val 13)) s_spare) = Inl ElementThrew \<and>
      heap (snd (Emplace T_fragile 0 (Some 0, 2) (Copying (Val 13)) s_spare)) = heap s_spare"
    using t4 by (simp add: T_fragile_def)
  have e: "fst (Emplace T_fragile 0 (Some 0, 1) (Copying (Val 13)) s_spare) = Inl ElementThrew \<and>
      vecs (snd (Emplace T_fragile 0 (Some 0, 1) (Copying (Val 13)) s_spare)) = vecs s_spare"
    using t5 by (simp add: T_fragile_def)
  from h1 h2 h3 h4 h5 h6 a b c d e show ?thesis by blast
qed

section \<open>Inserting one of the vector's own elements\<close>

text \<open>
  Claim C10.  Let the vector hold \<open>xs\<close> in the block \<open>b\<close> with spare capacity, let
  \<open>p < n\<close> be the position and let the argument of \<^verbatim>\<open>Insert\<close> or \<^verbatim>\<open>Emplace\<close> refer to the
  vector's own element \<open>i\<close>.  The call returns exactly when these operations succeed, in
  this order: the construction of the temporary from the value \<open>xs ! i\<close>, the move
  construction of the last element, the move assignments of the shift, the move
  assignment from the temporary.  When it returns: the first event it recorded is the
  construction of the temporary from that element, before every relocation of the
  shift; the value assigned to slot \<open>p\<close> is the value \<open>xs ! i\<close> the element had before
  the call; and the vector holds \<open>xs ! i\<close> at \<open>p\<close>, in front of it and behind it the
  elements as the construction of the temporary left them (untouched by a copy, element
  \<open>i\<close> moved from by a move).  When it throws: if the construction of the temporary
  succeeded, it is the first event recorded, before whatever was done to the elements;
  if it threw, no event is recorded and the heap is as before the call.
\<close>

theorem C10_insert_own_element:
  assumes "vecs s this = Some v" and "holds s v xs"
    and "rm_buffer (v_data v) = Some b" and "length xs < rm_capacity (v_data v)"
    and "p < length xs" and "i < length xs" and "arg_operand a = At (Some b, i)"
  shows "if succeed (arg_ctor T a (xs ! i) #
                     shift_attempts T (after_construct T xs a) p (xs ! i)) (world s)
         then fst (Emplace T this (Some b, p) a s) = Inr (Some b, p) \<and>
              holds (snd (Emplace T this (Some b, p) a s)) (v\<lparr>v_size := Suc (length xs)\<rparr>)
                (insert_at (after_construct T xs a) p (xs ! i)) \<and>
              insert_at (after_construct T xs a) p (xs ! i) ! p = xs ! i \<and>
              trace (snd (Emplace T this (Some b, p) a s)) =
                trace s @ ctor_event Local a # shift_events b (length xs) p @
                  [MoveAssign (Val (xs ! i)) (Some b, p), Dtor Local]
         else fst (Emplace T this (Some b, p) a s) = Inl ElementThrew \<and>
              vecs (snd (Emplace T this (Some b, p) a s)) = vecs s \<and>
              (if fst (arg_ctor T a (xs ! i) (world s))
               then \<exists>evs. trace (snd (Emplace T this (Some b, p) a s)) =
                            trace s @ ctor_event Local a # evs
               else trace (snd (Emplace T this (Some b, p) a s)) = trace s \<and>
                    heap (snd (Emplace T this (Some b, p) a s)) = heap s)"
proof -
  let ?res = "Emplace T this (Some b, p) a s"
  let ?ys = "after_construct T xs a"
  let ?ok = "succeed (arg_ctor T a (xs ! i) # shift_attempts T ?ys p (xs ! i)) (world s)"
  have op: "operand_in (Some b) (length xs) (arg_operand a)" using assms(6,7) by simp
  have x: "operand_value xs (arg_operand a) = xs ! i" using assms(7) by simp
  have at: "insert_at ?ys p (xs ! i) ! p = xs ! i"
    using assms(5) by (intro nth_insert_at) simp
  note sp = Emplace_spare_spec[OF assms(1-5) op, of T, unfolded x]
  show ?thesis
  proof (cases ?ok)
    case True
    with sp have ok: "fst ?res = Inr (Some b, p)"
      and h: "heap (snd ?res) b =
            Some (block_of (insert_at ?ys p (xs ! i)) (rm_capacity (v_data v)))"
      and t: "trace (snd ?res) =
            trace s @ ctor_event Local a # shift_events b (length xs) p @
              [MoveAssign (Val (xs ! i)) (Some b, p), Dtor Local]"
      by auto
    have "holds (snd ?res) (v\<lparr>v_size := Suc (length ?ys)\<rparr>) (insert_at ?ys p (xs ! i))"
      using assms(3) _ h by (rule holds_after_insert) (simp add: assms(4))
    then have "holds (snd ?res) (v\<lparr>v_size := Suc (length xs)\<rparr>) (insert_at ?ys p (xs ! i))"
      by simp
    with True ok at t show ?thesis by simp
  next
    case False
    with sp have f: "fst ?res = Inl ElementThrew" "vecs (snd ?res) = vecs s"
      and c: "if fst (arg_ctor T a (xs ! i) (world s))
           then \<exists>evs. trace (snd ?res) = trace s @ ctor_event Local a # evs
           else snd ?res = s\<lparr>world := snd (arg_ctor T a (xs ! i) (world s))\<rparr>"
      by auto
    show ?thesis
    proof (cases "fst (arg_ctor T a (xs ! i) (world s))")
      case True
      with c False f show ?thesis by simp
    next
      case ctor: False
      with c have "snd ?res = s\<lparr>world := snd (arg_ctor T a (xs ! i) (world s))\<rparr>" by simp
      then have "trace (snd ?res) = trace s" "heap (snd ?res) = heap s" by simp_all
      with False f ctor show ?thesis by simp
    qed
  qed
qed

theorem C10_insert_own_element_witness:
  "vecs s_spare 0 = Some v_spare \<and> holds s_spare v_spare [7, 13] \<and>
   rm_buffer (v_data v_spare) = Some 0 \<and> length [7, 13::nat] < rm_capacity (v_data v_spare) \<and>
   0 < length [7, 13::nat] \<and>
   arg_operand (Copying (At (Some 0, 0))) = (At (Some 0, 0) :: nat operand) \<and>
   moved_from T_fragile 7 = 0 \<and>
   fst (Insert_copy T_fragile 0 (Some 0, 0) (At (Some 0, 0)) s_spare) = Inr (Some 0, 0) \<and>
   holds (snd (Insert_copy T_fragile 0 (Some 0, 0) (At (Some 0, 0)) s_spare))
     (v_spare\<lparr>v_size := 3\<rparr>) [7, 7, 13] \<and>
   trace (snd (Insert_copy T_fragile 0 (Some 0, 0) (At (Some 0, 0)) s_spare)) =
     [CopyCtor (At (Some 0, 0)) Local,
      MoveCtor (At (Some 0, 1)) (Into (Some 0, 2)), MoveAssign (At (Some 0, 0)) (Some 0, 1),
      MoveAssign (Val 7) (Some 0, 0), Dtor Local] \<and>
   fst (Insert_copy T_fragile 0 (Some 0, 0) (At (Some 0, 1)) s_spare) = Inl ElementThrew \<and>
   vecs (snd (Insert_copy T_fragile 0 (Some 0, 0) (At (Some 0, 1)) s_spare)) = vecs s_spare \<and>
   trace (snd (Insert_copy T_fragile 0 (Some 0, 0) (At (Some 0, 1)) s_spare)) = [] \<and>
   heap (snd (Insert_copy T_fragile 0 (Some 0, 0) (At (Some 0, 1)) s_spare)) = heap s_spare"
proof -
  let ?a = "Copying (At (Some 0, 0)) :: nat arg"
  let ?a1 = "Copying (At (Some 0, 1)) :: nat arg"
  have h1: "vecs s_spare 0 = Some v_spare" by (simp add: s_spare_def)
  have h2: "holds s_spare v_spare [7, 13]"
    by (simp add: holds_def s_spare_def v_spare_def block_of_def numeral_2_eq_2)
  have h3: "rm_buffer (v_data v_spare) = Some 0" by (simp add: v_spare_def)
  have h4: "length [7, 13::nat] < rm_capacity (v_data v_spare)" by (simp add: v_spare_def)
  have h5: "0 < length [7, 13::nat]" by simp
  have h6: "1 < length [7, 13::nat]" by simp
  have h7: "arg_operand ?a = At (Some 0, 0)" by simp
  have h8: "arg_operand ?a1 = At (Some 0, 1)" by simp
  have mf: "moved_from T_fragile 7 = 0" by (simp add: T_fragile_def)
  have se: "shift_events 0 2 0 =
      [MoveCtor (At (Some 0, 1)) (Into (Some 0, 2)) :: nat event,
       MoveAssign (At (Some 0, 0)) (Some 0, 1)]"
    by (simp add: shift_events_def upt_rec numeral_2_eq_2)
  have tr: "trace s_spare = []" by (simp add: s_spare_def)
  have len: "length [7, 13::nat] = 2" by simp
  have s1: "succeed (arg_ctor T_fragile ?a 7 # shift_attempts T_fragile [7, 13] 0 7) ()"
    by (simp add: shift_attempts_def T_fragile_def upt_rec)
  have s2: "\<not> fst (arg_ctor T_fragile ?a1 13 ())" by (simp add: T_fragile_def)
  note t = C10_insert_own_element [OF h1 h2 h3 h4 h5 h5 h7, of T_fragile, unfolded len]
  note u = C10_insert_own_element [OF h1 h2 h3 h4 h5 h6 h8, of T_fragile, unfolded len]
  have a: "fst (Insert_copy T_fragile 0 (Some 0, 0) (At (Some 0, 0)) s_spare) = Inr (Some 0, 0) \<and>
      holds (snd (Insert_copy T_fragile 0 (Some 0, 0) (At (Some 0, 0)) s_spare))
        (v_spare\<lparr>v_size := 3\<rparr>) [7, 7, 13] \<and>
      trace (snd (Insert_copy T_fragile 0 (Some 0, 0) (At (Some 0, 0)) s_spare)) =
        [CopyCtor (At (Some 0, 0)) Local,
         MoveCtor (At (Some 0, 1)) (Into (Some 0, 2)), MoveAssign (At (Some 0, 0)) (Some 0, 1),
         MoveAssign (Val 7) (Some 0, 0), Dtor Local]"
    using t s1 by (simp add: se tr insert_at_def Insert_copy_def)
  have b: "fst (Insert_copy T_fragile 0 (Some 0, 0) (At (Some 0, 1)) s_spare) = Inl ElementThrew \<and>
      vecs (snd (Insert_copy T_fragile 0 (Some 0, 0) (At (Some 0, 1)) s_spare)) = vecs s_spare \<and>
      trace (snd (Insert_copy T_fragile 0 (Some 0, 0) (At (Some 0, 1)) s_spare)) = [] \<and>
      heap (snd (Insert_copy T_fragile 0 (Some 0, 0) (At (Some 0, 1)) s_spare)) = heap s_spare"
    using u s2 by (simp add: tr Insert_copy_def)
  from h1 h2 h3 h4 h5 h7 mf a b show ?thesis by blast
qed

end
